(* ===== verification/ConeOS_Prelude.thy ===== *)
theory ConeOS_Prelude
  imports Main "HOL-Library.Word"
begin

text \<open>
  Shared vocabulary of the ConeOS development: the machine integer types, the C idioms that
  occur in every component (first match in a fixed array, rounding to a power of two) and the
  generic lemmas about lists and words that the component proofs use.
\<close>

unbundle bit_operations_syntax

type_synonym u8 = "8 word"
type_synonym u16 = "16 word"
type_synonym u32 = "32 word"
type_synonym u64 = "64 word"

section \<open>Fixed arrays\<close>

text \<open>
  The loop \<^verbatim>\<open>for (i = 0; i < N; i++) if (P(a[i])) return i;\<close> that every table of the
  kernel uses (descriptors, open files, mounts, pipes, processes, mmap regions).
\<close>

fun first_index :: "('a \<Rightarrow> bool) \<Rightarrow> 'a list \<Rightarrow> nat option" where
  "first_index P [] = None"
| "first_index P (x # xs) = (if P x then Some 0 else map_option Suc (first_index P xs))"

lemma first_index_None_iff: "first_index P xs = None \<longleftrightarrow> (\<forall>x \<in> set xs. \<not> P x)"
  by (induction xs) auto

lemma first_index_SomeD:
  "first_index P xs = Some i \<Longrightarrow> i < length xs \<and> P (xs ! i) \<and> (\<forall>j < i. \<not> P (xs ! j))"
proof (induction xs arbitrary: i)
  case (Cons x xs)
  show ?case
  proof (cases "P x")
    case False
    with Cons.prems obtain k where k: "first_index P xs = Some k" "i = Suc k" by auto
    from Cons.IH [OF k(1)] False k(2) show ?thesis by (auto simp: nth_Cons split: nat.splits)
  qed (use Cons.prems in auto)
qed simp

lemma first_index_lt: "first_index P xs = Some i \<Longrightarrow> i < length xs"
  by (simp add: first_index_SomeD)

lemma first_index_prop: "first_index P xs = Some i \<Longrightarrow> P (xs ! i)"
  by (simp add: first_index_SomeD)

lemma first_index_least: "first_index P xs = Some i \<Longrightarrow> j < i \<Longrightarrow> \<not> P (xs ! j)"
  by (simp add: first_index_SomeD)

lemma first_index_ex:
  assumes "i < length xs" "P (xs ! i)"
  obtains j where "first_index P xs = Some j" "j \<le> i"
proof (cases "first_index P xs")
  case None
  with assms show ?thesis by (simp add: first_index_None_iff)
next
  case (Some j)
  with assms first_index_least [OF Some, of i] that show ?thesis by fastforce
qed

lemma find_upt_SomeD:
  "find P [a..<b] = Some p \<Longrightarrow> a \<le> p \<and> p < b \<and> P p \<and> (\<forall>q. a \<le> q \<longrightarrow> q < p \<longrightarrow> \<not> P q)"
proof -
  assume "find P [a..<b] = Some p"
  then obtain i where i: "i < b - a" "P (a + i)" "p = a + i" "\<forall>j<i. \<not> P (a + j)"
    by (auto simp: find_Some_iff)
  moreover have "\<not> P q" if "a \<le> q" "q < p" for q
    using i(4) that i(3) by (metis add_diff_inverse_nat less_diff_conv2 linorder_not_less add.commute)
  ultimately show ?thesis by auto
qed

lemma find_upt_None_iff: "find P [a..<b] = None \<longleftrightarrow> (\<forall>q. a \<le> q \<longrightarrow> q < b \<longrightarrow> \<not> P q)"
  by (auto simp: find_None_iff)

section \<open>Words\<close>

lemma unat_u64_lt [simp]: "unat (x :: u64) < 18446744073709551616"
  using unsigned_less [of x] by simp

lemma unat_u16_lt [simp]: "unat (x :: u16) < 65536"
  using unsigned_less [of x] by simp

lemma u64_eq_iff_unat: "(x :: u64) = y \<longleftrightarrow> unat x = unat y"
  by (simp add: word_unat_eq_iff)

lemma unat_u64_add:
  "unat x + unat y < 18446744073709551616 \<Longrightarrow> unat (x + y :: u64) = unat x + unat y"
  by (simp add: unat_word_ariths)

lemma unat_u64_mult:
  "unat x * unat y < 18446744073709551616 \<Longrightarrow> unat (x * y :: u64) = unat x * unat y"
  by (simp add: unat_word_ariths)

lemma unat_u64_of_nat: "n < 18446744073709551616 \<Longrightarrow> unat (word_of_nat n :: u64) = n"
  by (simp add: unat_of_nat)

lemma unat_u64_sub: "unat y \<le> unat x \<Longrightarrow> unat (x - y :: u64) = unat x - unat y"
  by (simp add: unat_sub word_le_nat_alt)

text \<open>The two words a C mask expression splits an address into: offset and page base.\<close>

lemma unat_and_mask_u64: "unat (x AND mask n :: u64) = unat x mod 2 ^ n"
  by (simp only: take_bit_eq_mask [symmetric] unsigned_take_bit_eq) (simp add: take_bit_eq_mod)

lemma and_not_mask_u64: "(x AND NOT (mask n) :: u64) = x - (x AND mask n)"
proof -
  have "x = (x AND mask n) OR (x AND NOT (mask n))"
    by (rule bit_word_eqI) (auto simp: bit_simps)
  also have "\<dots> = (x AND mask n) + (x AND NOT (mask n))"
    by (rule disjunctive_add_eq_or [symmetric], rule bit_word_eqI) (auto simp: bit_simps)
  finally show ?thesis by (metis add_diff_cancel_left')
qed

lemma unat_and_not_mask_u64: "unat (x AND NOT (mask n) :: u64) = unat x div 2 ^ n * 2 ^ n"
proof -
  have "x AND mask n \<le> x" by (simp add: word_le_nat_alt unat_and_mask_u64)
  then show ?thesis
    by (simp add: and_not_mask_u64 unat_sub unat_and_mask_u64 minus_mod_eq_div_mult)
qed

lemma unat_and_4095 [simp]: "unat (x AND 4095 :: u64) = unat x mod 4096"
  using unat_and_mask_u64 [of x 12] by (simp add: mask_eq_exp_minus_1)

lemma unat_page_base [simp]: "unat (x AND - 4096 :: u64) = unat x div 4096 * 4096"
  using unat_and_not_mask_u64 [of x 12] by (simp add: mask_eq_exp_minus_1)

lemma unat_and_minus_8 [simp]: "unat (x AND - 8 :: u64) = unat x div 8 * 8"
  using unat_and_not_mask_u64 [of x 3] by (simp add: mask_eq_exp_minus_1)

lemma unat_and_minus_16 [simp]: "unat (x AND - 16 :: u64) = unat x div 16 * 16"
  using unat_and_not_mask_u64 [of x 4] by (simp add: mask_eq_exp_minus_1)

section \<open>Rounding\<close>

text \<open>The rounding helpers of pmm.c; kmalloc.c repeats \<open>align_up\<close> at type size_t.\<close>

definition align_up :: "u64 \<Rightarrow> u64 \<Rightarrow> u64" where
  "align_up value alignment = (value + alignment - 1) AND NOT (alignment - 1)"

definition align_down :: "u64 \<Rightarrow> u64 \<Rightarrow> u64" where
  "align_down value alignment = value AND NOT (alignment - 1)"

lemma unat_align_down_4096: "unat (align_down v 4096) = unat v div 4096 * 4096"
  by (simp add: align_down_def)

lemma unat_align_up_4096:
  "unat v + 4095 < 18446744073709551616 \<Longrightarrow>
   unat (align_up v 4096) = (unat v + 4095) div 4096 * 4096"
  by (simp add: align_up_def unat_u64_add)

lemma unat_align_up_8:
  "unat v + 7 < 18446744073709551616 \<Longrightarrow> unat (align_up v 8) = (unat v + 7) div 8 * 8"
  by (simp add: align_up_def unat_u64_add)

lemma unat_align_up_16:
  "unat v + 15 < 18446744073709551616 \<Longrightarrow> unat (align_up v 16) = (unat v + 15) div 16 * 16"
  by (simp add: align_up_def unat_u64_add)

end
