(* ===== verification/Frame_Interface.thy ===== *)
theory Frame_Interface
  imports ConeOS_Prelude
begin

text \<open>
  What the rest of the kernel relies on of a page frame allocator: the number of references of
  a frame, one fresh frame per successful allocation, one reference less per free and one more
  per retain. The lemmas proved here hold of every provider; \<^verbatim>\<open>Pmm\<close> supplies two, the kernel's
  allocation entry point and the one with the reserve for the kernel.
\<close>

datatype 'a frame_op = Frame_Alloc | Frame_Free 'a | Frame_Retain 'a

primrec frame_step ::
  "('s \<Rightarrow> 'a \<times> 's) \<Rightarrow> ('a \<Rightarrow> 's \<Rightarrow> bool \<times> 's) \<Rightarrow> ('a \<Rightarrow> 's \<Rightarrow> bool \<times> 's) \<Rightarrow> 'a frame_op \<Rightarrow> 's \<Rightarrow> 's" where
  "frame_step alloc free retain Frame_Alloc s = snd (alloc s)"
| "frame_step alloc free retain (Frame_Free a) s = snd (free a s)"
| "frame_step alloc free retain (Frame_Retain a) s = snd (retain a s)"

locale frame_allocator =
  fixes alloc :: "'s \<Rightarrow> 'a \<times> 's"
    and free :: "'a \<Rightarrow> 's \<Rightarrow> bool \<times> 's"
    and retain :: "'a \<Rightarrow> 's \<Rightarrow> bool \<times> 's"
    and refs :: "'s \<Rightarrow> 'a \<Rightarrow> nat"
    and invar :: "'s \<Rightarrow> bool"
    and invalid :: 'a
    and odd_frames :: "'a set"
    and limit :: nat
  assumes alloc_invar: "invar s \<Longrightarrow> alloc s = (a, t) \<Longrightarrow> invar t"
    and alloc_fails: "invar s \<Longrightarrow> alloc s = (invalid, t) \<Longrightarrow> t = s"
    and alloc_fresh: "invar s \<Longrightarrow> alloc s = (a, t) \<Longrightarrow> a \<noteq> invalid \<Longrightarrow>
      refs s a = 0 \<and> refs t = (refs s)(a := 1)"
    and free_live: "invar s \<Longrightarrow> 0 < refs s a \<Longrightarrow>
      \<exists>t. free a s = (True, t) \<and> invar t \<and> refs t = (refs s)(a := refs s a - 1)"
    and free_dead: "invar s \<Longrightarrow> refs s a = 0 \<Longrightarrow> a \<notin> odd_frames \<Longrightarrow> free a s = (False, s)"
    and retain_live: "invar s \<Longrightarrow> 0 < refs s a \<Longrightarrow> refs s a < limit \<Longrightarrow>
      \<exists>t. retain a s = (True, t) \<and> invar t \<and> refs t = (refs s)(a := refs s a + 1)"
    and retain_dead: "invar s \<Longrightarrow> refs s a = 0 \<or> limit \<le> refs s a \<Longrightarrow> a \<notin> odd_frames \<Longrightarrow>
      retain a s = (False, s)"
    and limit_pos: "1 < limit"
begin

lemma alloc_then_free:
  assumes "invar s" "alloc s = (a, t)" "a \<noteq> invalid"
  shows "\<exists>u. free a t = (True, u) \<and> invar u \<and> refs u = refs s"
proof -
  have t: "invar t" "refs s a = 0" "refs t = (refs s)(a := 1)"
    using alloc_invar alloc_fresh assms by blast+
  with free_live [of t a] show ?thesis by (auto simp: fun_upd_idem_iff)
qed

lemma alloc_distinct:
  assumes "invar s" "alloc s = (a, t)" "alloc t = (b, u)" "a \<noteq> invalid" "b \<noteq> invalid"
  shows "a \<noteq> b \<and> refs u = (refs s)(a := 1, b := 1)"
proof -
  have "invar t" "refs t = (refs s)(a := 1)" using alloc_invar alloc_fresh assms by blast+
  moreover from this have "refs t b = 0" "refs u = (refs t)(b := 1)"
    using alloc_fresh assms by blast+
  ultimately show ?thesis by auto
qed

lemma double_free:
  assumes "invar s" "refs s a = 1" "a \<notin> odd_frames"
  shows "\<exists>t. free a s = (True, t) \<and> free a t = (False, t)"
  using free_live [of s a] free_dead [of _ a] assms by fastforce

lemma retain_then_free:
  assumes "invar s" "retain a s = (True, t)" "a \<notin> odd_frames"
  shows "\<exists>u. free a t = (True, u) \<and> invar u \<and> refs u = refs s"
proof -
  have "0 < refs s a" "refs s a < limit"
    using assms retain_dead [of s a] by (metis fst_conv not_gr_zero, metis fst_conv not_less)
  then have "invar t" "refs t = (refs s)(a := refs s a + 1)"
    using retain_live [of s a] assms by auto
  then show ?thesis using free_live [of t a] by (auto simp: fun_upd_idem_iff)
qed

lemma step_invar:
  assumes inv: "invar s" and op: "\<forall>b. op = Frame_Free b \<or> op = Frame_Retain b \<longrightarrow> b \<notin> odd_frames"
  shows "invar (frame_step alloc free retain op s)"
proof (cases op)
  case Frame_Alloc
  then show ?thesis using inv alloc_invar by (cases "alloc s") auto
next
  case (Frame_Free b)
  then show ?thesis using inv op free_live [of s b] free_dead [of s b] by (cases "refs s b") auto
next
  case (Frame_Retain b)
  then show ?thesis
    using inv op retain_live [of s b] retain_dead [of s b]
    by (cases "0 < refs s b \<and> refs s b < limit") auto
qed

lemma step_refs:
  assumes inv: "invar s" and op: "\<forall>b. op = Frame_Free b \<or> op = Frame_Retain b \<longrightarrow> b \<notin> odd_frames"
    and live: "0 < refs s a"
  shows "refs s a \<le> refs (frame_step alloc free retain op s) a + (if op = Frame_Free a then 1 else 0)"
proof (cases op)
  case Frame_Alloc
  obtain b t where bt: "alloc s = (b, t)" by (cases "alloc s") auto
  show ?thesis
  proof (cases "b = invalid")
    case True
    then have "t = s" using alloc_fails inv bt by blast
    with Frame_Alloc bt show ?thesis by simp
  next
    case False
    with alloc_fresh [OF inv bt] live Frame_Alloc bt show ?thesis by (cases "a = b") auto
  qed
next
  case (Frame_Free b)
  then show ?thesis
    using inv op live free_live [of s b] free_dead [of s b] by (cases "refs s b = 0") auto
next
  case (Frame_Retain b)
  then show ?thesis
    using inv op live retain_live [of s b] retain_dead [of s b]
    by (cases "0 < refs s b \<and> refs s b < limit") auto
qed

text \<open>
  A frame with more references than the operations of a trace give back is live after it, and
  no allocation of the trace returns it.
\<close>

lemma trace_keeps:
  assumes "invar s" "\<forall>op \<in> set ops. \<forall>b. op = Frame_Free b \<or> op = Frame_Retain b \<longrightarrow> b \<notin> odd_frames"
    "count_list ops (Frame_Free a) < refs s a"
  shows "invar (fold (frame_step alloc free retain) ops s) \<and>
    refs s a \<le> refs (fold (frame_step alloc free retain) ops s) a + count_list ops (Frame_Free a)"
  using assms
proof (induction ops arbitrary: s)
  case (Cons op ops)
  let ?t = "frame_step alloc free retain op s"
  have op: "\<forall>b. op = Frame_Free b \<or> op = Frame_Retain b \<longrightarrow> b \<notin> odd_frames"
    using Cons.prems(2) by simp
  have live: "0 < refs s a" using Cons.prems(3) by simp
  note 1 = step_invar [OF Cons.prems(1) op] and 2 = step_refs [OF Cons.prems(1) op live]
  have "count_list ops (Frame_Free a) < refs ?t a"
    using 2 Cons.prems(3) by (auto split: if_splits)
  from Cons.IH [OF 1 _ this] Cons.prems(2) 2 show ?case by (auto split: if_splits)
qed simp

end

text \<open>
  A provider that also names the frames it may still hand out: an allocation takes one of them
  away, a free puts at most the freed frame back. Clients that own frames argue with this set,
  since a frame they hold need not be one the allocator manages.
\<close>

locale frame_pool = frame_allocator +
  fixes avail :: "'s \<Rightarrow> 'a set"
  assumes alloc_avail: "invar s \<Longrightarrow> alloc s = (a, t) \<Longrightarrow> a \<noteq> invalid \<Longrightarrow>
      a \<in> avail s \<and> avail t = avail s - {a}"
    and free_avail: "invar s \<Longrightarrow> a \<notin> odd_frames \<Longrightarrow> avail (snd (free a s)) \<subseteq> insert a (avail s)"
    and avail_unreferenced: "invar s \<Longrightarrow> a \<in> avail s \<Longrightarrow> refs s a = 0"
begin

lemma free_invar: "invar s \<Longrightarrow> a \<notin> odd_frames \<Longrightarrow> invar (snd (free a s))"
  using step_invar [of s "Frame_Free a"] by simp

lemma free_refs:
  "invar s \<Longrightarrow> a \<notin> odd_frames \<Longrightarrow> refs (snd (free a s)) = (refs s)(a := refs s a - 1)"
  using free_live [of s a] free_dead [of s a] by (cases "refs s a = 0") (auto simp: fun_upd_idem_iff)

lemma alloc_keeps_owned:
  assumes "invar s" "alloc s = (a, t)" "avail s \<inter> A = {}"
  shows "avail t \<inter> A = {} \<and> (a \<noteq> invalid \<longrightarrow> a \<notin> A)"
proof (cases "a = invalid")
  case True
  then show ?thesis using alloc_fails assms by blast
next
  case False
  then show ?thesis using alloc_avail [OF assms(1,2)] assms(3) by auto
qed

lemma free_keeps_owned:
  "invar s \<Longrightarrow> a \<notin> odd_frames \<Longrightarrow> avail s \<inter> A = {} \<Longrightarrow> avail (snd (free a s)) \<inter> (A - {a}) = {}"
  using free_avail [of s a] by blast

end

end
