(* ===== verification/Pmm.thy ===== *)
theory Pmm
  imports Frame_Interface
begin

text \<open>
  The physical memory manager, \<^verbatim>\<open>src/mm/pmm.c\<close>: a bitmap of page frames with a 16-bit
  reference count per frame. The file-level statics are the record \<open>pmm_state\<close>, each
  operation is a state transformer. The spinlock makes every operation one atomic step, so
  taking and releasing it does not appear. Array accesses are HOL list accesses: outside the
  array C gives no meaning and \<open>!\<close> is unspecified; the invariant \<open>pmm_inv\<close> keeps every index
  the code uses inside. The boot loader's answer (limine.h is not part of the repository) is
  an argument: the list of memory map entries with the flag "type is usable", and the offset
  of the higher-half direct map.
\<close>

section \<open>State\<close>

record memmap_entry =
  me_base :: u64
  me_length :: u64
  me_usable :: bool

record pmm_state =
  bitmap :: "u8 list"
  page_references :: "u16 list"
  bitmap_physical :: u64
  bitmap_page_count :: u64
  references_physical :: u64
  references_page_count :: u64
  page_count :: u64
  total_pages :: u64
  free_pages :: u64
  search_start :: u64
  hhdm_offset :: u64
  memory_map :: "memmap_entry list"

definition pmm_boot :: pmm_state where
  "pmm_boot = \<lparr>bitmap = [], page_references = [], bitmap_physical = 0, bitmap_page_count = 0,
     references_physical = 0, references_page_count = 0, page_count = 0, total_pages = 0,
     free_pages = 0, search_start = 0, hhdm_offset = 0, memory_map = []\<rparr>"

definition PMM_INVALID_ADDRESS :: u64 where
  "PMM_INVALID_ADDRESS = 0xFFFFFFFFFFFFFFFF"

definition PMM_KERNEL_RESERVE_PAGES :: u64 where
  "PMM_KERNEL_RESERVE_PAGES = 4 * 1024 * 1024 div 4096"

section \<open>Operations\<close>

definition bitmap_test :: "pmm_state \<Rightarrow> nat \<Rightarrow> bool" where
  "bitmap_test s page \<longleftrightarrow> bitmap s ! (page div 8) AND push_bit (page mod 8) 1 \<noteq> 0"

definition bitmap_set :: "nat \<Rightarrow> pmm_state \<Rightarrow> pmm_state" where
  "bitmap_set page s = s\<lparr>bitmap :=
     (bitmap s)[page div 8 := bitmap s ! (page div 8) OR push_bit (page mod 8) 1]\<rparr>"

definition bitmap_clear :: "nat \<Rightarrow> pmm_state \<Rightarrow> pmm_state" where
  "bitmap_clear page s = s\<lparr>bitmap :=
     (bitmap s)[page div 8 := bitmap s ! (page div 8) AND NOT (push_bit (page mod 8) 1)]\<rparr>"

definition page_is_usable :: "pmm_state \<Rightarrow> u64 \<Rightarrow> bool" where
  "page_is_usable s physical_address =
     list_ex (\<lambda>e. me_usable e \<and> me_base e \<le> physical_address \<and>
                  physical_address + 4096 \<le> me_base e + me_length e) (memory_map s)"

definition highest_usable :: "memmap_entry list \<Rightarrow> u64" where
  "highest_usable entries =
     fold (\<lambda>e h. if me_usable e \<and> h < me_base e + me_length e then me_base e + me_length e else h)
       entries 0"

definition metadata_region :: "u64 \<Rightarrow> memmap_entry list \<Rightarrow> memmap_entry option" where
  "metadata_region metadata_page_count entries =
     find (\<lambda>e. me_usable e \<and>
        metadata_page_count * 4096 \<le>
          align_down (me_base e + me_length e) 4096 - align_up (me_base e) 4096) entries"

definition release_boot_page :: "nat \<Rightarrow> pmm_state \<Rightarrow> pmm_state" where
  "release_boot_page page s = (bitmap_clear page s)
     \<lparr>total_pages := total_pages s + 1, free_pages := free_pages s + 1\<rparr>"

definition release_boot_entry :: "memmap_entry \<Rightarrow> pmm_state \<Rightarrow> pmm_state" where
  "release_boot_entry e s =
     (if me_usable e
      then fold release_boot_page
        [unat (align_up (me_base e) 4096) div 4096 ..<
         unat (align_down (me_base e + me_length e) 4096) div 4096] s
      else s)"

definition claim_boot_page :: "nat \<Rightarrow> pmm_state \<Rightarrow> pmm_state" where
  "claim_boot_page page s =
     (if \<not> bitmap_test s page then (bitmap_set page s)\<lparr>free_pages := free_pages s - 1\<rparr> else s)"

definition pmm_init ::
  "memmap_entry list option \<Rightarrow> u64 option \<Rightarrow> pmm_state \<Rightarrow> bool \<times> pmm_state" where
  "pmm_init memmap_response hhdm_response s0 =
     (case (memmap_response, hhdm_response) of
        (Some entries, Some offset) \<Rightarrow>
          let pages = align_up (highest_usable entries) 4096 div 4096;
              bitmap_size = align_up pages 8 div 8;
              bitmap_pages = align_up bitmap_size 4096 div 4096;
              references_size = pages * 2;
              references_pages = align_up references_size 4096 div 4096;
              metadata_page_count = bitmap_pages + references_pages;
              s1 = s0\<lparr>memory_map := entries, hhdm_offset := offset, page_count := pages,
                      bitmap_page_count := bitmap_pages, references_page_count := references_pages\<rparr>
          in (case metadata_region metadata_page_count entries of
                None \<Rightarrow> (False, s1)
              | Some e \<Rightarrow>
                  let start = align_up (me_base e) 4096;
                      s2 = s1\<lparr>bitmap_physical := start,
                              references_physical := start + bitmap_pages * 4096,
                              bitmap := replicate (unat bitmap_size) 0xFF,
                              page_references := replicate (unat pages) 0\<rparr>;
                      s3 = fold release_boot_entry entries s2;
                      first = unat (start div 4096);
                      s4 = fold claim_boot_page [first ..< first + unat metadata_page_count] s3
                  in (True, s4\<lparr>search_start := start div 4096 + metadata_page_count\<rparr>))
      | _ \<Rightarrow> (False, s0))"

definition claim_page :: "nat \<Rightarrow> pmm_state \<Rightarrow> pmm_state" where
  "claim_page page s = (bitmap_set page s)
     \<lparr>page_references := (page_references s)[page := 1],
      free_pages := free_pages s - 1, search_start := word_of_nat (page + 1)\<rparr>"

definition alloc_page_with_reserve :: "u64 \<Rightarrow> pmm_state \<Rightarrow> u64 \<times> pmm_state" where
  "alloc_page_with_reserve reserve_pages s =
     (if free_pages s \<le> reserve_pages then (PMM_INVALID_ADDRESS, s)
      else case find (\<lambda>p. \<not> bitmap_test s p) [unat (search_start s) ..< unat (page_count s)] of
        Some page \<Rightarrow> (word_of_nat page * 4096, claim_page page s)
      | None \<Rightarrow>
          (case find (\<lambda>p. \<not> bitmap_test s p) [0 ..< unat (search_start s)] of
             Some page \<Rightarrow> (word_of_nat page * 4096, claim_page page s)
           | None \<Rightarrow> (PMM_INVALID_ADDRESS, s)))"

definition pmm_alloc_page :: "pmm_state \<Rightarrow> u64 \<times> pmm_state" where
  "pmm_alloc_page s = alloc_page_with_reserve 0 s"

definition pmm_alloc_user_page :: "pmm_state \<Rightarrow> u64 \<times> pmm_state" where
  "pmm_alloc_user_page s = alloc_page_with_reserve PMM_KERNEL_RESERVE_PAGES s"

text \<open>The inner \<^verbatim>\<open>while\<close> of the contiguous search: how many pages are free from \<open>page\<close> on.\<close>

fun free_run :: "pmm_state \<Rightarrow> nat \<Rightarrow> nat \<Rightarrow> nat" where
  "free_run s page 0 = 0"
| "free_run s page (Suc count) = (if bitmap_test s page then 0 else Suc (free_run s (Suc page) count))"

function find_run :: "pmm_state \<Rightarrow> nat \<Rightarrow> nat \<Rightarrow> nat \<Rightarrow> nat option" where
  "find_run s count page end =
     (if page < end \<and> count \<le> end - page
      then (let offset = free_run s page count
            in if offset = count then Some page else find_run s count (page + offset + 1) end)
      else None)"
  by pat_completeness auto
termination
  by (relation "measure (\<lambda>(s, count, page, end). end - page)") auto

declare find_run.simps [simp del]

fun claim_run :: "nat \<Rightarrow> nat \<Rightarrow> pmm_state \<Rightarrow> pmm_state" where
  "claim_run page 0 s = s"
| "claim_run page (Suc count) s =
     claim_run (Suc page) count
       ((bitmap_set page s)\<lparr>page_references := (page_references s)[page := 1]\<rparr>)"

definition take_run :: "u64 \<Rightarrow> nat \<Rightarrow> pmm_state \<Rightarrow> u64 \<times> pmm_state" where
  "take_run count page s = (word_of_nat page * 4096, (claim_run page (unat count) s)
     \<lparr>free_pages := free_pages s - count, search_start := word_of_nat page + count\<rparr>)"

definition pmm_alloc_contiguous :: "u64 \<Rightarrow> pmm_state \<Rightarrow> u64 \<times> pmm_state" where
  "pmm_alloc_contiguous count s =
     (if count = 0 then (PMM_INVALID_ADDRESS, s)
      else if free_pages s < count then (PMM_INVALID_ADDRESS, s)
      else case find_run s (unat count) (unat (search_start s)) (unat (page_count s)) of
        Some page \<Rightarrow> take_run count page s
      | None \<Rightarrow>
          (case find_run s (unat count) 0 (unat (search_start s)) of
             Some page \<Rightarrow> take_run count page s
           | None \<Rightarrow> (PMM_INVALID_ADDRESS, s)))"

definition address_rejected :: "pmm_state \<Rightarrow> u64 \<Rightarrow> bool" where
  "address_rejected s physical_address \<longleftrightarrow>
     physical_address mod 4096 \<noteq> 0 \<or> physical_address = PMM_INVALID_ADDRESS \<or>
     \<not> page_is_usable s physical_address"

definition pmm_free_page :: "u64 \<Rightarrow> pmm_state \<Rightarrow> bool \<times> pmm_state" where
  "pmm_free_page physical_address s =
     (if address_rejected s physical_address then (False, s)
      else
        let metadata_end = references_physical s + references_page_count s * 4096 in
        if bitmap_physical s \<le> physical_address \<and> physical_address < metadata_end then (False, s)
        else
          let page = unat (physical_address div 4096) in
          if \<not> bitmap_test s page then (False, s)
          else if 1 < page_references s ! page then
            (True, s\<lparr>page_references := (page_references s)[page := page_references s ! page - 1]\<rparr>)
          else
            (True, (bitmap_clear page s)
               \<lparr>page_references := (page_references s)[page := 0],
                free_pages := free_pages s + 1,
                search_start := (if physical_address div 4096 < search_start s
                                 then physical_address div 4096 else search_start s)\<rparr>))"

definition pmm_retain_page :: "u64 \<Rightarrow> pmm_state \<Rightarrow> bool \<times> pmm_state" where
  "pmm_retain_page physical_address s =
     (if address_rejected s physical_address then (False, s)
      else
        let page = unat (physical_address div 4096) in
        if \<not> bitmap_test s page \<or> page_references s ! page = 0 \<or> page_references s ! page = 0xFFFF
        then (False, s)
        else (True, s\<lparr>page_references := (page_references s)[page := page_references s ! page + 1]\<rparr>))"

definition pmm_page_references :: "pmm_state \<Rightarrow> u64 \<Rightarrow> u16" where
  "pmm_page_references s physical_address =
     (if address_rejected s physical_address then 0
      else
        let page = unat (physical_address div 4096) in
        if bitmap_test s page then page_references s ! page else 0)"

definition pmm_physical_to_virtual :: "pmm_state \<Rightarrow> u64 \<Rightarrow> u64" where
  "pmm_physical_to_virtual s physical_address = physical_address + hhdm_offset s"

definition pmm_total_pages :: "pmm_state \<Rightarrow> u64" where
  "pmm_total_pages s = total_pages s"

definition pmm_free_pages :: "pmm_state \<Rightarrow> u64" where
  "pmm_free_pages s = free_pages s"

section \<open>The bitmap\<close>

lemma bitmap_test_iff: "bitmap_test s p \<longleftrightarrow> bit (bitmap s ! (p div 8)) (p mod 8)"
  by (simp add: bitmap_test_def push_bit_of_1 and_exp_eq_0_iff_not_bit)

lemma bitmap_test_cong: "bitmap s = bitmap t \<Longrightarrow> bitmap_test s p = bitmap_test t p"
  by (simp add: bitmap_test_def)

lemma bitmap_test_upd [simp]:
  "bitmap_test (s\<lparr>page_references := r\<rparr>) p = bitmap_test s p"
  "bitmap_test (s\<lparr>free_pages := n\<rparr>) p = bitmap_test s p"
  "bitmap_test (s\<lparr>total_pages := n\<rparr>) p = bitmap_test s p"
  "bitmap_test (s\<lparr>search_start := n\<rparr>) p = bitmap_test s p"
  by (simp_all add: bitmap_test_def)

lemma same_bit: "(p :: nat) div 8 = q div 8 \<Longrightarrow> p mod 8 = q mod 8 \<Longrightarrow> p = q"
  by (metis div_mult_mod_eq)

lemma bitmap_test_set:
  "p div 8 < length (bitmap s) \<Longrightarrow> bitmap_test (bitmap_set p s) q \<longleftrightarrow> q = p \<or> bitmap_test s q"
  by (cases "q div 8 = p div 8")
    (auto simp: bitmap_test_iff bitmap_set_def bit_simps dest: same_bit)

lemma bitmap_test_clear:
  "p div 8 < length (bitmap s) \<Longrightarrow> bitmap_test (bitmap_clear p s) q \<longleftrightarrow> q \<noteq> p \<and> bitmap_test s q"
  by (cases "q div 8 = p div 8")
    (auto simp: bitmap_test_iff bitmap_clear_def bit_simps dest: same_bit)

lemma bitmap_set_fields [simp]:
  "page_references (bitmap_set p s) = page_references s" "page_count (bitmap_set p s) = page_count s"
  "memory_map (bitmap_set p s) = memory_map s" "free_pages (bitmap_set p s) = free_pages s"
  "search_start (bitmap_set p s) = search_start s" "length (bitmap (bitmap_set p s)) = length (bitmap s)"
  "bitmap_physical (bitmap_set p s) = bitmap_physical s" "total_pages (bitmap_set p s) = total_pages s"
  "references_physical (bitmap_set p s) = references_physical s"
  "references_page_count (bitmap_set p s) = references_page_count s"
  by (simp_all add: bitmap_set_def)

lemma bitmap_clear_fields [simp]:
  "page_references (bitmap_clear p s) = page_references s"
  "page_count (bitmap_clear p s) = page_count s"
  "memory_map (bitmap_clear p s) = memory_map s" "free_pages (bitmap_clear p s) = free_pages s"
  "search_start (bitmap_clear p s) = search_start s"
  "length (bitmap (bitmap_clear p s)) = length (bitmap s)"
  "bitmap_physical (bitmap_clear p s) = bitmap_physical s"
  "total_pages (bitmap_clear p s) = total_pages s"
  "references_physical (bitmap_clear p s) = references_physical s"
  "references_page_count (bitmap_clear p s) = references_page_count s"
  by (simp_all add: bitmap_clear_def)

section \<open>The invariant\<close>

text \<open>
  \<open>free_set s\<close> is the set of frames whose bit is clear. A frame is \<open>managed\<close> when it lies in
  usable memory and holds none of the manager's own metadata. The invariant says that the
  arrays cover all frames, that \<open>free_pages\<close> counts the clear bits, that a managed frame has
  its bit set exactly when it has a reference, and that no other frame is ever handed out.
\<close>

definition free_set :: "pmm_state \<Rightarrow> nat set" where
  "free_set s = {p. p < unat (page_count s) \<and> \<not> bitmap_test s p}"

definition in_metadata :: "pmm_state \<Rightarrow> u64 \<Rightarrow> bool" where
  "in_metadata s a \<longleftrightarrow>
     bitmap_physical s \<le> a \<and> a < references_physical s + references_page_count s * 4096"

definition managed :: "pmm_state \<Rightarrow> nat \<Rightarrow> bool" where
  "managed s p \<longleftrightarrow>
     page_is_usable s (word_of_nat p * 4096) \<and> \<not> in_metadata s (word_of_nat p * 4096)"

text \<open>Physical addresses have at most 52 bits on x86-64, so there are at most \<open>2 ^ 40\<close> frames.\<close>

definition map_bounded :: "pmm_state \<Rightarrow> bool" where
  "map_bounded s \<longleftrightarrow> unat (page_count s) \<le> 2 ^ 40 \<and>
     (\<forall>e \<in> set (memory_map s). me_usable e \<longrightarrow>
        unat (me_base e) + unat (me_length e) \<le> unat (page_count s) * 4096)"

definition pmm_inv :: "pmm_state \<Rightarrow> bool" where
  "pmm_inv s \<longleftrightarrow> map_bounded s \<and>
     unat (page_count s) \<le> 8 * length (bitmap s) \<and>
     length (page_references s) = unat (page_count s) \<and>
     unat (search_start s) \<le> unat (page_count s) \<and>
     unat (free_pages s) = card (free_set s) \<and>
     (\<forall>p < unat (page_count s).
        if managed s p then bitmap_test s p = (page_references s ! p \<noteq> 0)
        else bitmap_test s p \<and> page_references s ! p = 0)"

lemma finite_free_set [simp]: "finite (free_set s)"
  by (rule finite_subset [of _ "{..<unat (page_count s)}"]) (auto simp: free_set_def)

lemma card_free_set_le: "card (free_set s) \<le> unat (page_count s)"
proof -
  have "free_set s \<subseteq> {..<unat (page_count s)}" by (auto simp: free_set_def)
  then have "card (free_set s) \<le> card {..<unat (page_count s)}" by (rule card_mono [rotated]) simp
  then show ?thesis by simp
qed

lemma page_lt_bitmap:
  assumes "unat (page_count s) \<le> 8 * length (bitmap s)" "p < unat (page_count s)"
  shows "p div 8 < length (bitmap s)"
  using assms by simp

lemma pmm_inv_bitmap: "pmm_inv s \<Longrightarrow> p < unat (page_count s) \<Longrightarrow> p div 8 < length (bitmap s)"
  by (rule page_lt_bitmap) (simp_all add: pmm_inv_def)

lemma unat_frame_address: "p < 2 ^ 52 \<Longrightarrow> unat (word_of_nat p * 4096 :: u64) = p * 4096"
  by (simp add: unat_u64_mult unat_u64_of_nat)

lemma frame_address_valid:
  assumes "p < 2 ^ 51"
  shows "word_of_nat p * 4096 \<noteq> PMM_INVALID_ADDRESS" "(word_of_nat p * 4096 :: u64) mod 4096 = 0"
    "unat (word_of_nat p * 4096 div 4096 :: u64) = p"
  using assms unat_frame_address [of p]
  by (simp_all add: PMM_INVALID_ADDRESS_def u64_eq_iff_unat unat_mod unat_div)

lemma managed_cong:
  assumes "memory_map s = memory_map t" "bitmap_physical s = bitmap_physical t"
    "references_physical s = references_physical t"
    "references_page_count s = references_page_count t"
  shows "managed s p = managed t p"
  using assms by (simp add: managed_def page_is_usable_def in_metadata_def)

lemma map_bounded_cong:
  "memory_map s = memory_map t \<Longrightarrow> page_count s = page_count t \<Longrightarrow> map_bounded s = map_bounded t"
  by (simp add: map_bounded_def)

text \<open>Any usable address but the last page of the address space lies below \<open>page_count\<close>.\<close>

lemma usable_page_bound:
  assumes "map_bounded s" "page_is_usable s a" "a \<noteq> 0xFFFFFFFFFFFFF000" "a mod 4096 = 0"
  shows "unat a div 4096 < unat (page_count s)"
proof -
  obtain e where e: "e \<in> set (memory_map s)" "me_usable e" "a + 4096 \<le> me_base e + me_length e"
    using assms(2) by (auto simp: page_is_usable_def list_ex_iff)
  have "unat a mod 4096 = 0"
    using assms(4) by (simp add: u64_eq_iff_unat unat_mod)
  then obtain k where k: "unat a = 4096 * k" by auto
  have "k \<noteq> 4503599627370495" using assms(3) k by (auto simp: u64_eq_iff_unat)
  moreover have "k < 4503599627370496" using unat_u64_lt [of a] unfolding k by simp
  ultimately have "unat a + 4096 < 18446744073709551616" unfolding k by linarith
  moreover have be: "unat (me_base e) + unat (me_length e) \<le> unat (page_count s) * 4096"
    "unat (page_count s) \<le> 2 ^ 40"
    using assms(1) e by (auto simp: map_bounded_def)
  ultimately have "unat a + 4096 \<le> unat (page_count s) * 4096"
    using e(3) by (simp add: word_le_nat_alt unat_u64_add)
  then show ?thesis by simp
qed

section \<open>Allocation\<close>

lemma pmm_invD:
  assumes "pmm_inv s"
  shows "map_bounded s" "unat (page_count s) \<le> 8 * length (bitmap s)"
    "length (page_references s) = unat (page_count s)"
    "unat (search_start s) \<le> unat (page_count s)" "unat (free_pages s) = card (free_set s)"
    "unat (page_count s) < 2 ^ 51" "unat (page_count s) \<le> 2 ^ 40"
  using assms by (simp_all add: pmm_inv_def map_bounded_def)

lemma pmm_inv_page:
  assumes "pmm_inv s" "p < unat (page_count s)"
  shows "managed s p \<Longrightarrow> bitmap_test s p \<longleftrightarrow> page_references s ! p \<noteq> 0"
    "\<not> managed s p \<Longrightarrow> bitmap_test s p" "\<not> managed s p \<Longrightarrow> page_references s ! p = 0"
proof -
  have "if managed s p then bitmap_test s p = (page_references s ! p \<noteq> 0)
        else bitmap_test s p \<and> page_references s ! p = 0"
    using assms by (simp add: pmm_inv_def)
  then show "managed s p \<Longrightarrow> bitmap_test s p \<longleftrightarrow> page_references s ! p \<noteq> 0"
    "\<not> managed s p \<Longrightarrow> bitmap_test s p" "\<not> managed s p \<Longrightarrow> page_references s ! p = 0"
    by simp_all
qed

lemma pmm_inv_refs_iff:
  "pmm_inv s \<Longrightarrow> p < unat (page_count s) \<Longrightarrow>
   page_references s ! p \<noteq> 0 \<longleftrightarrow> managed s p \<and> bitmap_test s p"
  using pmm_inv_page by blast

text \<open>
  The operations change at most one frame's bit and count, the free counter and the search
  position: \<open>same_layout\<close> is what they all keep, and \<open>pmm_invI\<close> reduces the invariant of the
  new state to the fields that moved.
\<close>

definition same_layout :: "pmm_state \<Rightarrow> pmm_state \<Rightarrow> bool" where
  "same_layout s t \<longleftrightarrow> memory_map t = memory_map s \<and> page_count t = page_count s \<and>
     bitmap_physical t = bitmap_physical s \<and> references_physical t = references_physical s \<and>
     references_page_count t = references_page_count s \<and> length (bitmap t) = length (bitmap s) \<and>
     length (page_references t) = length (page_references s)"

lemma pmm_invI:
  assumes inv: "pmm_inv s" and lay: "same_layout s t"
    and ss: "unat (search_start t) \<le> unat (page_count s)"
    and fp: "unat (free_pages t) = card (free_set t)"
    and pg: "\<And>q. q < unat (page_count s) \<Longrightarrow>
      (managed s q \<longrightarrow> bitmap_test t q = (page_references t ! q \<noteq> 0)) \<and>
      (\<not> managed s q \<longrightarrow> bitmap_test t q \<and> page_references t ! q = 0)"
  shows "pmm_inv t"
proof -
  have "managed t q = managed s q" for q
    using lay by (intro managed_cong) (simp_all add: same_layout_def)
  moreover have "map_bounded t" using pmm_invD(1) [OF inv] lay by (simp add: map_bounded_def same_layout_def)
  ultimately show ?thesis
    using pmm_invD [OF inv] lay ss fp pg by (simp add: pmm_inv_def same_layout_def)
qed

text \<open>A search over both halves of the frame range misses no free frame.\<close>

lemma alloc_page_with_reserve_cases:
  assumes inv: "pmm_inv s" and more: "\<not> free_pages s \<le> reserve"
  obtains p where "p \<in> free_set s"
    "alloc_page_with_reserve reserve s = (word_of_nat p * 4096, claim_page p s)"
proof -
  have "card (free_set s) \<noteq> 0"
    using more pmm_invD(5) [OF inv] by (metis le0 word_le_nat_alt)
  then obtain q where q: "q < unat (page_count s)" "\<not> bitmap_test s q"
    by (auto simp: free_set_def)
  show ?thesis
  proof (cases "find (\<lambda>p. \<not> bitmap_test s p) [unat (search_start s) ..< unat (page_count s)]")
    case (Some p)
    with find_upt_SomeD [OF Some] show ?thesis
      by (intro that [of p]) (auto simp: alloc_page_with_reserve_def more free_set_def)
  next
    case None
    then have "q < unat (search_start s)"
      using q by (metis find_upt_None_iff leI)
    then have "find (\<lambda>p. \<not> bitmap_test s p) [0 ..< unat (search_start s)] \<noteq> None"
      using q(2) by (auto simp: find_upt_None_iff)
    then obtain p where p: "find (\<lambda>p. \<not> bitmap_test s p) [0 ..< unat (search_start s)] = Some p"
      by auto
    then show ?thesis
      using find_upt_SomeD [OF p] None pmm_invD(4) [OF inv]
      by (intro that [of p]) (auto simp: alloc_page_with_reserve_def more free_set_def)
  qed
qed

lemma claim_page_fields [simp]:
  "page_count (claim_page p s) = page_count s" "memory_map (claim_page p s) = memory_map s"
  "bitmap_physical (claim_page p s) = bitmap_physical s"
  "references_physical (claim_page p s) = references_physical s"
  "references_page_count (claim_page p s) = references_page_count s"
  "length (bitmap (claim_page p s)) = length (bitmap s)"
  "page_references (claim_page p s) = (page_references s)[p := 1]"
  "free_pages (claim_page p s) = free_pages s - 1"
  "search_start (claim_page p s) = word_of_nat (p + 1)"
  "total_pages (claim_page p s) = total_pages s"
  by (simp_all add: claim_page_def)

lemma claim_page_test:
  "p div 8 < length (bitmap s) \<Longrightarrow> bitmap_test (claim_page p s) q \<longleftrightarrow> q = p \<or> bitmap_test s q"
  by (simp add: claim_page_def bitmap_test_set)

lemma free_set_claim_page:
  assumes "pmm_inv s" "p \<in> free_set s"
  shows "free_set (claim_page p s) = free_set s - {p}"
  using assms pmm_inv_bitmap [OF assms(1)] by (auto simp: free_set_def claim_page_test)

lemma pmm_inv_claim_page:
  assumes inv: "pmm_inv s" and p: "p \<in> free_set s"
  shows "pmm_inv (claim_page p s)"
proof (rule pmm_invI [OF inv])
  have lt: "p < unat (page_count s)" and nt: "\<not> bitmap_test s p" using p by (auto simp: free_set_def)
  show "same_layout s (claim_page p s)" by (simp add: same_layout_def)
  show "unat (search_start (claim_page p s)) \<le> unat (page_count s)"
    using lt pmm_invD(6) [OF inv] by (simp add: unat_u64_of_nat del: of_nat_add of_nat_Suc)
  have "card (free_set s) \<noteq> 0" using p by auto
  then have "unat (free_pages s - 1) = card (free_set s) - 1"
    using pmm_invD(5) [OF inv] by (metis unat_0 unat_minus_one)
  then show "unat (free_pages (claim_page p s)) = card (free_set (claim_page p s))"
    using p by (simp add: free_set_claim_page [OF inv p])
  fix q assume q: "q < unat (page_count s)"
  show "(managed s q \<longrightarrow> bitmap_test (claim_page p s) q = (page_references (claim_page p s) ! q \<noteq> 0)) \<and>
    (\<not> managed s q \<longrightarrow> bitmap_test (claim_page p s) q \<and> page_references (claim_page p s) ! q = 0)"
    using pmm_inv_page [OF inv q] pmm_inv_page(2) [OF inv lt] nt pmm_invD(3) [OF inv] q
    by (cases "q = p") (auto simp: claim_page_test pmm_inv_bitmap [OF inv lt])
qed

section \<open>Reference counts as the abstract state\<close>

text \<open>
  What a client sees of the manager is the reference count of a frame, \<open>frame_refs\<close>: it is
  \<open>pmm_page_references\<close> except at the last page of the address space, where the range check of
  \<open>page_is_usable\<close> wraps around.
\<close>

definition TOP_PAGE :: u64 where
  "TOP_PAGE = 0xFFFFFFFFFFFFF000"

definition frame_refs :: "pmm_state \<Rightarrow> u64 \<Rightarrow> nat" where
  "frame_refs s a = (if a = TOP_PAGE then 0 else unat (pmm_page_references s a))"

lemma u64_mod_4096_iff: "(a :: u64) mod 4096 = 0 \<longleftrightarrow> unat a mod 4096 = 0"
  by (simp add: u64_eq_iff_unat unat_mod)

lemma aligned_frame_address: "(a :: u64) mod 4096 = 0 \<Longrightarrow> word_of_nat (unat a div 4096) * 4096 = a"
proof -
  assume "a mod 4096 = 0"
  then obtain k where k: "unat a = 4096 * k" by (auto simp: u64_mod_4096_iff)
  then have "k < 2 ^ 52" using unat_u64_lt [of a] by simp
  then show ?thesis by (simp add: u64_eq_iff_unat unat_frame_address k)
qed

lemma frame_refs_pos:
  assumes inv: "pmm_inv s" and pos: "0 < frame_refs s a"
  defines "p \<equiv> unat a div 4096"
  shows "a mod 4096 = 0" "p < unat (page_count s)" "bitmap_test s p" "managed s p"
    "a = word_of_nat p * 4096" "frame_refs s a = unat (page_references s ! p)"
proof -
  have nt: "a \<noteq> TOP_PAGE" and refs: "pmm_page_references s a \<noteq> 0"
    using pos by (auto simp: frame_refs_def split: if_splits)
  then have acc: "\<not> address_rejected s a" "bitmap_test s p"
    by (auto simp: pmm_page_references_def p_def Let_def unat_div split: if_splits)
  then have al: "a mod 4096 = 0" "page_is_usable s a" by (auto simp: address_rejected_def)
  show 2: "p < unat (page_count s)"
    using usable_page_bound [OF pmm_invD(1) [OF inv] al(2)] nt al(1) by (simp add: p_def TOP_PAGE_def)
  show 3: "a = word_of_nat p * 4096"
    using aligned_frame_address [OF al(1)] by (simp add: p_def)
  show 4: "frame_refs s a = unat (page_references s ! p)"
    using nt acc by (simp add: frame_refs_def pmm_page_references_def Let_def unat_div p_def)
  show 5: "managed s p"
    using pmm_inv_page [OF inv 2] refs acc
    by (auto simp: pmm_page_references_def Let_def unat_div p_def)
  show "a mod 4096 = 0" "bitmap_test s p" using al acc by auto
qed

lemma frame_refs_frame:
  assumes inv: "pmm_inv s" and p: "p < unat (page_count s)"
  shows "frame_refs s (word_of_nat p * 4096) = unat (page_references s ! p)"
proof -
  have lt: "p < 2 ^ 51" using p pmm_invD(6) [OF inv] by simp
  note fa = frame_address_valid [OF lt]
  have nt: "word_of_nat p * 4096 \<noteq> TOP_PAGE"
    using lt unat_frame_address [of p] by (simp add: TOP_PAGE_def u64_eq_iff_unat)
  show ?thesis
  proof (cases "page_is_usable s (word_of_nat p * 4096)")
    case True
    then show ?thesis
      using pmm_inv_refs_iff [OF inv p] nt fa
      by (auto simp: frame_refs_def pmm_page_references_def address_rejected_def Let_def)
  next
    case False
    then have "\<not> managed s p" by (simp add: managed_def)
    with pmm_inv_page [OF inv p] False nt fa show ?thesis
      by (simp add: frame_refs_def pmm_page_references_def address_rejected_def)
  qed
qed

lemma frame_refs_outside:
  assumes inv: "pmm_inv s" and out: "\<not> (\<exists>p < unat (page_count s). a = word_of_nat p * 4096)"
  shows "frame_refs s a = 0"
  using frame_refs_pos [OF inv, of a] out by blast

lemma frame_refs_eqI:
  assumes inv: "pmm_inv s" "pmm_inv t" and pc: "page_count t = page_count s"
    and p: "p < unat (page_count s)" "a = word_of_nat p * 4096"
    and refs: "page_references t = (page_references s)[p := v]"
  shows "frame_refs t = (frame_refs s)(a := unat v)"
proof
  fix b
  show "frame_refs t b = ((frame_refs s)(a := unat v)) b"
  proof (cases "\<exists>q < unat (page_count s). b = word_of_nat q * 4096")
    case True
    then obtain q where q: "q < unat (page_count s)" "b = word_of_nat q * 4096" by blast
    have "unat a = p * 4096" "unat b = q * 4096"
      unfolding p(2) q(2) by (rule unat_frame_address, use p(1) q(1) pmm_invD(6) [OF inv(1)] in simp)+
    then have "a = b \<longleftrightarrow> p = q" by (simp add: u64_eq_iff_unat)
    moreover have "frame_refs s b = unat (page_references s ! q)"
      "frame_refs t b = unat (page_references t ! q)"
      unfolding q(2) using frame_refs_frame [OF inv(1)] frame_refs_frame [OF inv(2)] q(1) pc by auto
    ultimately show ?thesis
      using pmm_invD(3) [OF inv(1)] q(1) by (cases "p = q") (auto simp: refs)
  next
    case False
    then have "b \<noteq> a" using p by auto
    then show ?thesis
      using False frame_refs_outside [OF inv(1), of b] frame_refs_outside [OF inv(2), of b] pc by simp
  qed
qed


lemma alloc_page_with_reserve_refs:
  assumes inv: "pmm_inv s" and al: "alloc_page_with_reserve r s = (a, s')"
  shows "pmm_inv s'"
    "a = PMM_INVALID_ADDRESS \<longleftrightarrow> free_pages s \<le> r"
    "a = PMM_INVALID_ADDRESS \<Longrightarrow> s' = s"
    "a \<noteq> PMM_INVALID_ADDRESS \<Longrightarrow> a mod 4096 = 0 \<and> unat a < 2 ^ 52 \<and> frame_refs s a = 0 \<and>
       frame_refs s' = (frame_refs s)(a := 1) \<and> same_layout s s' \<and>
       free_pages s' = free_pages s - 1"
proof -
  have "pmm_inv s' \<and> (a = PMM_INVALID_ADDRESS \<longleftrightarrow> free_pages s \<le> r) \<and> (a = PMM_INVALID_ADDRESS \<longrightarrow> s' = s) \<and>
    (a \<noteq> PMM_INVALID_ADDRESS \<longrightarrow> a mod 4096 = 0 \<and> unat a < 2 ^ 52 \<and> frame_refs s a = 0 \<and>
       frame_refs s' = (frame_refs s)(a := 1) \<and> same_layout s s' \<and> free_pages s' = free_pages s - 1)"
  proof (cases "free_pages s \<le> r")
    case True
    with al inv show ?thesis by (auto simp: alloc_page_with_reserve_def)
  next
    case False
    obtain p where p: "p \<in> free_set s" "a = word_of_nat p * 4096" "s' = claim_page p s"
      using alloc_page_with_reserve_cases [OF inv False] al by (metis prod.inject)
    have lt: "p < unat (page_count s)" and nt: "\<not> bitmap_test s p" using p(1) by (auto simp: free_set_def)
    then have lt51: "p < 2 ^ 51" "p < 2 ^ 40" using pmm_invD(7) [OF inv] by simp_all
    have inv': "pmm_inv s'" unfolding p(3) by (rule pmm_inv_claim_page [OF inv p(1)])
    have "frame_refs s' = (frame_refs s)(a := unat (1 :: u16))"
      by (rule frame_refs_eqI [OF inv inv' _ lt p(2)]) (simp_all add: p(3))
    moreover have "frame_refs s a = 0"
      using pmm_inv_refs_iff [OF inv lt] nt by (simp add: p(2) frame_refs_frame [OF inv lt])
    ultimately show ?thesis
      using False inv' frame_address_valid [OF lt51(1)] unat_frame_address [of p] lt51 p(2,3)
      by (simp add: same_layout_def)
  qed
  then show "pmm_inv s'" "a = PMM_INVALID_ADDRESS \<longleftrightarrow> free_pages s \<le> r" "a = PMM_INVALID_ADDRESS \<Longrightarrow> s' = s"
    "a \<noteq> PMM_INVALID_ADDRESS \<Longrightarrow> a mod 4096 = 0 \<and> unat a < 2 ^ 52 \<and> frame_refs s a = 0 \<and>
       frame_refs s' = (frame_refs s)(a := 1) \<and> same_layout s s' \<and> free_pages s' = free_pages s - 1"
    by blast+
qed

section \<open>Freeing and sharing\<close>

lemma unmanaged_rejected:
  assumes inv: "pmm_inv s" and nt: "a \<noteq> TOP_PAGE" and acc: "\<not> address_rejected s a"
  defines "p \<equiv> unat a div 4096"
  shows "p < unat (page_count s)" "a = word_of_nat p * 4096" "managed s p \<longleftrightarrow> \<not> in_metadata s a"
    "frame_refs s a = unat (page_references s ! p)"
proof -
  have al: "a mod 4096 = 0" "page_is_usable s a" using acc by (auto simp: address_rejected_def)
  show p: "p < unat (page_count s)"
    using usable_page_bound [OF pmm_invD(1) [OF inv] al(2)] nt al(1) by (simp add: p_def TOP_PAGE_def)
  show a: "a = word_of_nat p * 4096" using aligned_frame_address [OF al(1)] by (simp add: p_def)
  show "managed s p \<longleftrightarrow> \<not> in_metadata s a" using al(2) a by (simp add: managed_def)
  show "frame_refs s a = unat (page_references s ! p)"
    using frame_refs_frame [OF inv p] a by simp
qed

lemma pmm_free_page_unreferenced:
  assumes inv: "pmm_inv s" and nt: "a \<noteq> TOP_PAGE" and z: "frame_refs s a = 0"
  shows "pmm_free_page a s = (False, s)"
proof (cases "address_rejected s a")
  case False
  note R = unmanaged_rejected [OF inv nt False]
  have r0: "page_references s ! (unat a div 4096) = 0" using R(4) z by (simp add: unat_eq_0)
  show ?thesis
  proof (cases "in_metadata s a")
    case True
    with False show ?thesis by (simp add: pmm_free_page_def in_metadata_def)
  next
    case nm: False
    have "\<not> bitmap_test s (unat a div 4096)"
      using pmm_inv_page(1) [OF inv R(1)] R(3) nm r0 by simp
    with False nm show ?thesis
      by (simp add: pmm_free_page_def Let_def unat_div in_metadata_def)
  qed
qed (simp add: pmm_free_page_def)

lemma frame_refs_pos_accepted:
  assumes inv: "pmm_inv s" and pos: "0 < frame_refs s a"
  shows "a \<noteq> TOP_PAGE" "\<not> address_rejected s a" "\<not> in_metadata s a"
proof -
  show 1: "a \<noteq> TOP_PAGE" and 2: "\<not> address_rejected s a"
    using pos by (auto simp: frame_refs_def pmm_page_references_def split: if_splits)
  show "\<not> in_metadata s a"
    using unmanaged_rejected(3) [OF inv 1 2] frame_refs_pos(4) [OF inv pos] by simp
qed

lemma pmm_free_page_referenced:
  assumes inv: "pmm_inv s" and pos: "0 < frame_refs s a"
  obtains s' where "pmm_free_page a s = (True, s')" "pmm_inv s'" "same_layout s s'"
    "frame_refs s' = (frame_refs s)(a := frame_refs s a - 1)"
    "free_pages s' = (if frame_refs s a = 1 then free_pages s + 1 else free_pages s)"
proof -
  define p where "p = unat a div 4096"
  note R = frame_refs_pos [OF inv pos, folded p_def]
  note A = frame_refs_pos_accepted [OF inv pos]
  have up: "unat (a div 4096) = p" by (simp add: p_def unat_div)
  have acc: "pmm_free_page a s =
      (if 1 < page_references s ! p
       then (True, s\<lparr>page_references := (page_references s)[p := page_references s ! p - 1]\<rparr>)
       else (True, (bitmap_clear p s)\<lparr>page_references := (page_references s)[p := 0],
                free_pages := free_pages s + 1,
                search_start := (if a div 4096 < search_start s then a div 4096 else search_start s)\<rparr>))"
    using A R(3) by (simp add: pmm_free_page_def Let_def up in_metadata_def)
  have nz: "page_references s ! p \<noteq> 0" using pos R(6) by (metis less_irrefl unat_0)
  have lb: "p div 8 < length (bitmap s)" by (rule pmm_inv_bitmap [OF inv R(2)])
  show ?thesis
  proof (cases "1 < page_references s ! p")
    case True
    let ?t = "s\<lparr>page_references := (page_references s)[p := page_references s ! p - 1]\<rparr>"
    have g: "unat (page_references s ! p - 1) = frame_refs s a - 1" "page_references s ! p - 1 \<noteq> 0"
      using nz R(6) True by (auto simp: unat_minus_one word_less_nat_alt)
    have fs: "free_set ?t = free_set s" by (simp add: free_set_def)
    have inv': "pmm_inv ?t"
    proof (rule pmm_invI [OF inv])
      fix q assume q: "q < unat (page_count s)"
      show "(managed s q \<longrightarrow> bitmap_test ?t q = (page_references ?t ! q \<noteq> 0)) \<and>
        (\<not> managed s q \<longrightarrow> bitmap_test ?t q \<and> page_references ?t ! q = 0)"
        using pmm_inv_page [OF inv q] R(3,4) g(2) pmm_invD(3) [OF inv] q
        by (cases "q = p") auto
    qed (use pmm_invD [OF inv] fs in \<open>simp_all add: same_layout_def\<close>)
    have "frame_refs ?t = (frame_refs s)(a := unat (page_references s ! p - 1))"
      by (rule frame_refs_eqI [OF inv inv' _ R(2,5)]) simp_all
    moreover have "frame_refs s a \<noteq> 1" using True R(6) by (simp add: word_less_nat_alt)
    ultimately show ?thesis
      using True acc inv' g(1) by (intro that [of ?t]) (simp_all add: same_layout_def)
  next
    case False
    then have one: "frame_refs s a = 1" using nz R(6) pos by (simp add: word_less_nat_alt)
    let ?t = "(bitmap_clear p s)\<lparr>page_references := (page_references s)[p := 0],
                free_pages := free_pages s + 1,
                search_start := (if a div 4096 < search_start s then a div 4096 else search_start s)\<rparr>"
    have fs: "free_set ?t = insert p (free_set s)" "p \<notin> free_set s"
      using R(2,3) lb by (auto simp: free_set_def bitmap_test_clear)
    have fp: "unat (free_pages s + 1) = card (free_set s) + 1"
      using pmm_invD(5,7) [OF inv] card_free_set_le [of s] by (simp add: unat_u64_add)
    have inv': "pmm_inv ?t"
    proof (rule pmm_invI [OF inv])
      show "unat (search_start ?t) \<le> unat (page_count s)"
        using pmm_invD(4) [OF inv] by (auto simp: word_less_nat_alt)
      fix q assume q: "q < unat (page_count s)"
      show "(managed s q \<longrightarrow> bitmap_test ?t q = (page_references ?t ! q \<noteq> 0)) \<and>
        (\<not> managed s q \<longrightarrow> bitmap_test ?t q \<and> page_references ?t ! q = 0)"
        using pmm_inv_page [OF inv q] R(4) pmm_invD(3) [OF inv] q
        by (cases "q = p") (auto simp: bitmap_test_clear [OF lb])
    qed (use fp fs pmm_invD [OF inv] in \<open>simp_all add: same_layout_def\<close>)
    have "frame_refs ?t = (frame_refs s)(a := unat (0 :: u16))"
      by (rule frame_refs_eqI [OF inv inv' _ R(2,5)]) simp_all
    then show ?thesis
      using False acc inv' one by (intro that [of ?t]) (simp_all add: same_layout_def)
  qed
qed

lemma pmm_retain_page_cases:
  assumes inv: "pmm_inv s" and nt: "a \<noteq> TOP_PAGE"
  shows "frame_refs s a = 0 \<or> frame_refs s a = 65535 \<Longrightarrow> pmm_retain_page a s = (False, s)"
    "0 < frame_refs s a \<Longrightarrow> frame_refs s a < 65535 \<Longrightarrow> \<exists>s'. pmm_retain_page a s = (True, s') \<and>
       pmm_inv s' \<and> same_layout s s' \<and> frame_refs s' = (frame_refs s)(a := frame_refs s a + 1) \<and>
       free_pages s' = free_pages s"
proof -
  have ffff: "(w :: u16) = 0xFFFF \<longleftrightarrow> unat w = 65535" for w by (simp add: word_unat_eq_iff)
  show "pmm_retain_page a s = (False, s)" if "frame_refs s a = 0 \<or> frame_refs s a = 65535"
  proof (cases "address_rejected s a")
    case False
    with unmanaged_rejected(4) [OF inv nt False] that show ?thesis
      by (auto simp: pmm_retain_page_def Let_def unat_div ffff unat_eq_0)
  qed (simp add: pmm_retain_page_def)
  assume pos: "0 < frame_refs s a" and lt: "frame_refs s a < 65535"
  define p where "p = unat a div 4096"
  note R = frame_refs_pos [OF inv pos, folded p_def]
  note A = frame_refs_pos_accepted [OF inv pos]
  let ?t = "s\<lparr>page_references := (page_references s)[p := page_references s ! p + 1]\<rparr>"
  have g: "unat (page_references s ! p + 1) = frame_refs s a + 1" "page_references s ! p + 1 \<noteq> 0"
    using lt R(6) by (auto simp: unat_word_ariths word_unat_eq_iff)
  have fs: "free_set ?t = free_set s" by (simp add: free_set_def)
  have inv': "pmm_inv ?t"
  proof (rule pmm_invI [OF inv])
    fix q assume q: "q < unat (page_count s)"
    show "(managed s q \<longrightarrow> bitmap_test ?t q = (page_references ?t ! q \<noteq> 0)) \<and>
      (\<not> managed s q \<longrightarrow> bitmap_test ?t q \<and> page_references ?t ! q = 0)"
      using pmm_inv_page [OF inv q] R(3,4) g(2) pmm_invD(3) [OF inv] q by (cases "q = p") auto
  qed (use pmm_invD [OF inv] fs in \<open>simp_all add: same_layout_def\<close>)
  have "frame_refs ?t = (frame_refs s)(a := unat (page_references s ! p + 1))"
    by (rule frame_refs_eqI [OF inv inv' _ R(2,5)]) simp_all
  moreover have "pmm_retain_page a s = (True, ?t)"
    using A R(3,6) pos lt by (auto simp: pmm_retain_page_def Let_def unat_div p_def ffff)
  ultimately show "\<exists>s'. pmm_retain_page a s = (True, s') \<and> pmm_inv s' \<and> same_layout s s' \<and>
      frame_refs s' = (frame_refs s)(a := frame_refs s a + 1) \<and> free_pages s' = free_pages s"
    using inv' g(1) by (intro exI [of _ ?t]) (simp add: same_layout_def)
qed

section \<open>Contiguous allocation\<close>

lemma free_run_le: "free_run s p n \<le> n"
  by (induction n arbitrary: p) (auto simp: le_SucI)

lemma free_run_free: "q < free_run s p n \<Longrightarrow> \<not> bitmap_test s (p + q)"
proof (induction n arbitrary: p q)
  case (Suc n)
  then show ?case
  proof (cases q)
    case r: (Suc r)
    then show ?thesis using Suc.IH [of r "Suc p"] Suc.prems by (auto split: if_splits)
  qed (auto split: if_splits)
qed simp

lemma free_run_stop: "free_run s p n < n \<Longrightarrow> bitmap_test s (p + free_run s p n)"
proof (induction n arbitrary: p)
  case (Suc n)
  then show ?case using Suc.IH [of "Suc p"] by (auto split: if_splits)
qed simp

text \<open>
  Skipping past the page that ended a run loses nothing: the search returns the first
  position of the range from which \<open>count\<close> pages are free, and fails only if there is none.
\<close>

definition free_at :: "pmm_state \<Rightarrow> nat \<Rightarrow> nat \<Rightarrow> bool" where
  "free_at s count p \<longleftrightarrow> (\<forall>i < count. \<not> bitmap_test s (p + i))"

lemma free_at_iff_run: "free_at s n p \<longleftrightarrow> free_run s p n = n"
proof (cases "free_run s p n = n")
  case True
  then show ?thesis using free_run_free [of _ s p n] by (simp add: free_at_def)
next
  case False
  then have "free_run s p n < n" using free_run_le [of s p n] by simp
  then show ?thesis using free_run_stop [of s p n] False by (auto simp: free_at_def)
qed

lemma find_append_None: "find P xs = None \<Longrightarrow> find P (xs @ ys) = find P ys"
  by (induction xs) (auto split: if_splits)

lemma find_run_least:
  "0 < n \<Longrightarrow> find_run s n p e = find (\<lambda>q. free_at s n q) [p ..< Suc e - n]"
proof (induction s n p e rule: find_run.induct)
  case (1 s n p e)
  show ?case
  proof (cases "p < e \<and> n \<le> e - p")
    case True
    define k where "k = free_run s p n"
    have le: "p < Suc e - n" using True by arith
    show ?thesis
    proof (cases "k = n")
      case eq: True
      then have "free_at s n p" by (simp add: free_at_iff_run k_def)
      then show ?thesis
        using eq le by (subst find_run.simps) (simp add: Let_def k_def True upt_conv_Cons)
    next
      case ne: False
      then have kn: "k < n" using free_run_le [of s p n] by (simp add: k_def)
      have bt: "bitmap_test s (p + k)" using kn free_run_stop [of s p n] by (simp add: k_def)
      have none: "\<not> free_at s n q" if "p \<le> q" "q < p + k + 1" for q
        using bt kn that by (auto simp: free_at_def intro!: exI [of _ "p + k - q"])
      have "find (\<lambda>q. free_at s n q) [p ..< Suc e - n] =
            find (\<lambda>q. free_at s n q) [p + k + 1 ..< Suc e - n]"
      proof (cases "p + k + 1 \<le> Suc e - n")
        case True
        then have "[p ..< Suc e - n] = [p ..< p + k + 1] @ [p + k + 1 ..< Suc e - n]"
          by (metis add.assoc le_add1 le_add_diff_inverse upt_add_eq_append)
        moreover have "find (\<lambda>q. free_at s n q) [p ..< p + k + 1] = None"
          using none by (simp add: find_upt_None_iff del: upt_Suc)
        ultimately show ?thesis by (simp only: find_append_None)
      next
        case False
        then have "find (\<lambda>q. free_at s n q) [p ..< Suc e - n] = None"
          "find (\<lambda>q. free_at s n q) [p + k + 1 ..< Suc e - n] = None"
          using none by (auto simp: find_upt_None_iff)
        then show ?thesis by simp
      qed
      moreover have "find_run s n p e = find_run s n (p + k + 1) e"
        using True ne by (subst find_run.simps) (simp add: Let_def k_def)
      ultimately show ?thesis using "1.IH" [OF True k_def] ne "1.prems" by simp
    qed
  next
    case False
    then have "\<not> p < Suc e - n" using "1.prems" by arith
    with False show ?thesis by (subst find_run.simps) auto
  qed
qed

lemma claim_run_fields [simp]:
  "page_count (claim_run p n s) = page_count s" "memory_map (claim_run p n s) = memory_map s"
  "bitmap_physical (claim_run p n s) = bitmap_physical s"
  "references_physical (claim_run p n s) = references_physical s"
  "references_page_count (claim_run p n s) = references_page_count s"
  "length (bitmap (claim_run p n s)) = length (bitmap s)"
  "length (page_references (claim_run p n s)) = length (page_references s)"
  by (induction p n s rule: claim_run.induct) simp_all

lemma claim_run_test:
  "p + n \<le> 8 * length (bitmap s) \<Longrightarrow>
   bitmap_test (claim_run p n s) q \<longleftrightarrow> p \<le> q \<and> q < p + n \<or> bitmap_test s q"
  by (induction p n s rule: claim_run.induct) (auto simp: bitmap_test_set)

lemma claim_run_refs:
  "p + n \<le> length (page_references s) \<Longrightarrow>
   page_references (claim_run p n s) ! q =
     (if p \<le> q \<and> q < p + n then 1 else page_references s ! q)"
  by (induction p n s rule: claim_run.induct) (auto simp: nth_list_update)

definition run_frames :: "u64 \<Rightarrow> nat \<Rightarrow> u64 set" where
  "run_frames a n = (\<lambda>i. a + word_of_nat i * 4096) ` {..<n}"

lemma run_frames_page:
  assumes "p + n \<le> 2 ^ 51" "q < 2 ^ 51"
  shows "word_of_nat q * 4096 \<in> run_frames (word_of_nat p * 4096) n \<longleftrightarrow> p \<le> q \<and> q < p + n"
proof -
  have eq: "word_of_nat p * 4096 + word_of_nat i * 4096 = (word_of_nat (p + i) * 4096 :: u64)" for i
    by (simp add: distrib_right)
  have inj: "word_of_nat q * 4096 = (word_of_nat (p + i) * 4096 :: u64) \<longleftrightarrow> q = p + i" if "i < n" for i
  proof -
    have "p + i < 2 ^ 52" "q < 2 ^ 52" using that assms by simp_all
    then show ?thesis by (simp only: u64_eq_iff_unat unat_frame_address mult_cancel2) simp
  qed
  show ?thesis
  proof
    assume "word_of_nat q * 4096 \<in> run_frames (word_of_nat p * 4096) n"
    then obtain i where "i < n" "word_of_nat q * 4096 = (word_of_nat (p + i) * 4096 :: u64)"
      by (auto simp only: run_frames_def eq)
    then have "q = p + i" by (simp only: inj)
    then show "p \<le> q \<and> q < p + n" using \<open>i < n\<close> by simp
  next
    assume "p \<le> q \<and> q < p + n"
    then show "word_of_nat q * 4096 \<in> run_frames (word_of_nat p * 4096) n"
      unfolding run_frames_def eq by (intro image_eqI [of _ _ "q - p"]) auto
  qed
qed

lemma run_frames_ex:
  "b \<in> run_frames (word_of_nat p * 4096) n \<Longrightarrow> \<exists>q. p \<le> q \<and> q < p + n \<and> b = word_of_nat q * 4096"
proof -
  assume "b \<in> run_frames (word_of_nat p * 4096) n"
  then obtain i where "i < n" "b = word_of_nat p * 4096 + word_of_nat i * 4096"
    by (auto simp: run_frames_def)
  then show ?thesis by (intro exI [of _ "p + i"]) (simp add: distrib_right)
qed

lemma take_run_page:
  assumes inv: "pmm_inv s" and b: "p + unat n \<le> unat (page_count s)"
  shows "bitmap_test (snd (take_run n p s)) q \<longleftrightarrow> p \<le> q \<and> q < p + unat n \<or> bitmap_test s q"
    "page_references (snd (take_run n p s)) ! q =
      (if p \<le> q \<and> q < p + unat n then 1 else page_references s ! q)"
    "same_layout s (snd (take_run n p s))"
  using pmm_invD(2,3) [OF inv] b
  by (simp_all add: take_run_def claim_run_test claim_run_refs same_layout_def)

lemma free_at_page: "free_at s n p \<Longrightarrow> p \<le> q \<Longrightarrow> q < p + n \<Longrightarrow> \<not> bitmap_test s q"
  by (auto simp: free_at_def dest: spec [of _ "q - p"])

lemma take_run_inv:
  assumes inv: "pmm_inv s" and fr: "free_at s (unat n) p" and b: "p + unat n \<le> unat (page_count s)"
  shows "pmm_inv (snd (take_run n p s))"
proof (rule pmm_invI [OF inv])
  let ?t = "snd (take_run n p s)"
  note T = take_run_page [OF inv b]
  note free = free_at_page [OF fr]
  show "same_layout s ?t" by (rule T(3))
  have fs: "free_set ?t = free_set s - {p ..< p + unat n}"
    using T(3) by (auto simp: free_set_def T(1) same_layout_def)
  have sub: "{p ..< p + unat n} \<subseteq> free_set s" using free b by (auto simp: free_set_def)
  have cn: "unat n \<le> card (free_set s)" using card_mono [OF finite_free_set sub] by simp
  have "free_pages ?t = free_pages s - n" by (simp add: take_run_def)
  then show "unat (free_pages ?t) = card (free_set ?t)"
    using pmm_invD(5) [OF inv] cn sub by (simp add: fs card_Diff_subset unat_u64_sub)
  have "search_start ?t = word_of_nat p + n" by (simp add: take_run_def)
  then show "unat (search_start ?t) \<le> unat (page_count s)"
    using b pmm_invD(7) [OF inv] by (simp add: unat_u64_add unat_u64_of_nat)
  fix q assume q: "q < unat (page_count s)"
  show "(managed s q \<longrightarrow> bitmap_test ?t q = (page_references ?t ! q \<noteq> 0)) \<and>
    (\<not> managed s q \<longrightarrow> bitmap_test ?t q \<and> page_references ?t ! q = 0)"
    using pmm_inv_page [OF inv q] free [of q] by (auto simp: T(1,2))
qed

lemma take_run_refs:
  assumes inv: "pmm_inv s" and fr: "free_at s (unat n) p" and b: "p + unat n \<le> unat (page_count s)"
  shows "frame_refs (snd (take_run n p s)) f =
      (if f \<in> run_frames (word_of_nat p * 4096) (unat n) then 1 else frame_refs s f)"
    "f \<in> run_frames (word_of_nat p * 4096) (unat n) \<Longrightarrow> frame_refs s f = 0"
proof -
  note T = take_run_page [OF inv b]
  note inv' = take_run_inv [OF assms]
  have pc: "page_count (snd (take_run n p s)) = page_count s" using T(3) by (simp add: same_layout_def)
  show "frame_refs s f = 0" if mem: "f \<in> run_frames (word_of_nat p * 4096) (unat n)"
  proof -
    obtain q where q: "p \<le> q" "q < p + unat n" "f = word_of_nat q * 4096"
      using run_frames_ex [OF mem] by blast
    then have "q < unat (page_count s)" "\<not> bitmap_test s q" using b free_at_page [OF fr] by auto
    then show ?thesis
      using pmm_inv_refs_iff [OF inv, of q] by (simp add: q(3) frame_refs_frame [OF inv])
  qed
  show "frame_refs (snd (take_run n p s)) f =
      (if f \<in> run_frames (word_of_nat p * 4096) (unat n) then 1 else frame_refs s f)"
  proof (cases "\<exists>q < unat (page_count s). f = word_of_nat q * 4096")
    case True
    then obtain q where q: "q < unat (page_count s)" "f = word_of_nat q * 4096" by blast
    have lt: "p + unat n \<le> 2 ^ 51" "q < 2 ^ 51" using b q(1) pmm_invD(6) [OF inv] by linarith+
    show ?thesis
      using frame_refs_frame [OF inv q(1)] frame_refs_frame [OF inv', of q] q(1) pc
      by (simp add: q(2) run_frames_page [OF lt] T(2))
  next
    case False
    then have "f \<notin> run_frames (word_of_nat p * 4096) (unat n)"
      using run_frames_ex [of f p "unat n"] b less_le_trans by blast
    with False show ?thesis
      using frame_refs_outside [OF inv, of f] frame_refs_outside [OF inv', of f] pc by simp
  qed
qed

lemma pmm_alloc_contiguous_cases:
  assumes inv: "pmm_inv s" and al: "pmm_alloc_contiguous n s = (a, t)"
  obtains (failed) "a = PMM_INVALID_ADDRESS" "t = s"
  | (run) p where "n \<noteq> 0" "a = word_of_nat p * 4096" "t = snd (take_run n p s)"
      "free_at s (unat n) p" "p + unat n \<le> unat (page_count s)"
proof (cases "n = 0 \<or> free_pages s < n")
  case True
  with al show ?thesis by (intro failed) (auto simp: pmm_alloc_contiguous_def split: if_splits)
next
  case False
  then have n0: "0 < unat n" by (simp add: unat_gt_0)
  note L = find_run_least [OF n0]
  have le: "unat (search_start s) \<le> unat (page_count s)" by (rule pmm_invD(4) [OF inv])
  consider "find_run s (unat n) (unat (search_start s)) (unat (page_count s)) = None"
      "find_run s (unat n) 0 (unat (search_start s)) = None"
    | p where "find_run s (unat n) (unat (search_start s)) (unat (page_count s)) = Some p"
    | p where "find_run s (unat n) (unat (search_start s)) (unat (page_count s)) = None"
      "find_run s (unat n) 0 (unat (search_start s)) = Some p"
    by (cases "find_run s (unat n) (unat (search_start s)) (unat (page_count s))";
        cases "find_run s (unat n) 0 (unat (search_start s))") auto
  then show ?thesis
  proof cases
    case 1
    with al False show ?thesis by (intro failed) (auto simp: pmm_alloc_contiguous_def)
  next
    case (2 p)
    then have "free_at s (unat n) p" "p < Suc (unat (page_count s)) - unat n"
      using find_upt_SomeD unfolding L by blast+
    with 2 al False n0 show ?thesis
      by (intro run [of p]) (auto simp: pmm_alloc_contiguous_def take_run_def)
  next
    case (3 p)
    then have "free_at s (unat n) p" "p < Suc (unat (search_start s)) - unat n"
      using find_upt_SomeD unfolding L by blast+
    with 3 al False n0 le show ?thesis
      by (intro run [of p]) (auto simp: pmm_alloc_contiguous_def take_run_def)
  qed
qed

section \<open>Initialisation\<close>

text \<open>
  What the Limine boot protocol documents of its memory map: entries are sorted by base, and
  usable entries are page aligned in base and length and overlap no other usable entry.
  Physical addresses are below \<open>2 ^ 52\<close>.
\<close>

fun boot_map_ok :: "memmap_entry list \<Rightarrow> bool" where
  "boot_map_ok [] = True"
| "boot_map_ok (e # es) =
     ((me_usable e \<longrightarrow> unat (me_base e) mod 4096 = 0 \<and> unat (me_length e) mod 4096 = 0 \<and>
         unat (me_base e) + unat (me_length e) \<le> 2 ^ 52 \<and>
         list_all (\<lambda>e'. me_usable e' \<longrightarrow>
           unat (me_base e) + unat (me_length e) \<le> unat (me_base e')) es) \<and>
      boot_map_ok es)"

definition pages_of :: "memmap_entry \<Rightarrow> nat set" where
  "pages_of e = (if me_usable e
     then {unat (me_base e) div 4096 ..< (unat (me_base e) + unat (me_length e)) div 4096} else {})"

definition covered :: "memmap_entry list \<Rightarrow> nat set" where
  "covered es = (\<Union>e \<in> set es. pages_of e)"

lemma boot_map_okD:
  assumes "boot_map_ok es" "e \<in> set es" "me_usable e"
  obtains k n where "unat (me_base e) = 4096 * k" "unat (me_length e) = 4096 * n" "k + n \<le> 2 ^ 40"
    "pages_of e = {k ..< k + n}" "unat (me_base e + me_length e) = 4096 * (k + n)"
proof -
  have "unat (me_base e) mod 4096 = 0" "unat (me_length e) mod 4096 = 0"
    and le: "unat (me_base e) + unat (me_length e) \<le> 2 ^ 52"
    using assms by (induction es) auto
  then obtain k n where kn: "unat (me_base e) = 4096 * k" "unat (me_length e) = 4096 * n"
    by (meson dvdE mod_0_imp_dvd)
  then have b: "k + n \<le> 2 ^ 40" using le by simp
  then have "unat (me_base e + me_length e) = 4096 * (k + n)" by (simp add: unat_u64_add kn)
  moreover have "pages_of e = {k ..< k + n}" using assms(3) by (simp add: pages_of_def kn)
  ultimately show ?thesis using that kn b by blast
qed

lemma highest_usable_fold:
  defines "f \<equiv> \<lambda>e h. if me_usable e \<and> h < me_base e + me_length e then me_base e + me_length e else h"
  shows "h \<le> fold f es h \<and> (\<forall>e \<in> set es. me_usable e \<longrightarrow> me_base e + me_length e \<le> fold f es h) \<and>
    (fold f es h = h \<or> (\<exists>e \<in> set es. me_usable e \<and> fold f es h = me_base e + me_length e))"
proof (induction es arbitrary: h)
  case (Cons e es)
  have "h \<le> f e h" "me_usable e \<longrightarrow> me_base e + me_length e \<le> f e h"
    "f e h = h \<or> me_usable e \<and> f e h = me_base e + me_length e"
    by (auto simp: f_def)
  with Cons.IH [of "f e h"] show ?case by (auto intro: order_trans)
qed simp

lemma highest_usable_pages:
  assumes ok: "boot_map_ok es"
  obtains n where "unat (highest_usable es) = 4096 * n" "n \<le> 2 ^ 40"
    "\<And>e. e \<in> set es \<Longrightarrow> me_usable e \<Longrightarrow> unat (me_base e) + unat (me_length e) \<le> n * 4096"
proof -
  note H = highest_usable_fold [of 0 es, folded highest_usable_def]
  have "highest_usable es = 0 \<or> (\<exists>e \<in> set es. me_usable e \<and> highest_usable es = me_base e + me_length e)"
    using H by blast
  then have "\<exists>n. unat (highest_usable es) = 4096 * n \<and> n \<le> 2 ^ 40"
  proof
    assume "highest_usable es = 0"
    then show ?thesis by (intro exI [of _ 0]) simp
  next
    assume "\<exists>e \<in> set es. me_usable e \<and> highest_usable es = me_base e + me_length e"
    then obtain e where e: "e \<in> set es" "me_usable e" "highest_usable es = me_base e + me_length e"
      by blast
    obtain k n where "k + n \<le> 2 ^ 40" "unat (me_base e + me_length e) = 4096 * (k + n)"
      by (rule boot_map_okD [OF ok e(1,2)])
    with e(3) show ?thesis by (intro exI [of _ "k + n"]) simp
  qed
  then obtain n where n: "unat (highest_usable es) = 4096 * n" "n \<le> 2 ^ 40" by blast
  have "unat (me_base e) + unat (me_length e) \<le> n * 4096" if e: "e \<in> set es" "me_usable e" for e
  proof -
    have "me_base e + me_length e \<le> highest_usable es" using H e by blast
    then have le: "unat (me_base e + me_length e) \<le> 4096 * n" using n by (simp add: word_le_nat_alt)
    show ?thesis by (rule boot_map_okD [OF ok e]) (use le in simp)
  qed
  with n that show ?thesis by blast
qed

lemma page_is_usable_covered:
  assumes ok: "boot_map_ok (memory_map s)" and p: "p < 2 ^ 51"
  shows "page_is_usable s (word_of_nat p * 4096) \<longleftrightarrow> p \<in> covered (memory_map s)"
proof -
  have u: "unat (word_of_nat p * 4096 + 4096 :: u64) = (p + 1) * 4096"
    using p unat_frame_address [of p] by (subst unat_u64_add) simp_all
  have "me_base e \<le> word_of_nat p * 4096 \<and> word_of_nat p * 4096 + 4096 \<le> me_base e + me_length e \<longleftrightarrow>
      p \<in> pages_of e" if "e \<in> set (memory_map s)" "me_usable e" for e
    by (rule boot_map_okD [OF ok that])
      (use u unat_frame_address [of p] p in \<open>auto simp: word_le_nat_alt\<close>)
  then show ?thesis
    by (auto simp: page_is_usable_def list_ex_iff covered_def pages_of_def)
qed

text \<open>
  Both loops of the initialisation are tracked by what they do to the bits and by how the
  number of claimed pages, \<open>total_pages - free_pages\<close>, moves.
\<close>

definition boot_inv :: "pmm_state \<Rightarrow> bool" where
  "boot_inv s \<longleftrightarrow> unat (page_count s) \<le> 2 ^ 40 \<and> unat (page_count s) \<le> 8 * length (bitmap s) \<and>
     unat (free_pages s) = card (free_set s)"

definition released :: "pmm_state \<Rightarrow> nat set \<Rightarrow> pmm_state \<Rightarrow> bool" where
  "released s A t \<longleftrightarrow> boot_inv t \<and> same_layout s t \<and> page_references t = page_references s \<and>
     (\<forall>q. bitmap_test t q \<longleftrightarrow> bitmap_test s q \<and> q \<notin> A) \<and>
     total_pages t - free_pages t = total_pages s - free_pages s"

definition claimed :: "pmm_state \<Rightarrow> nat set \<Rightarrow> pmm_state \<Rightarrow> bool" where
  "claimed s A t \<longleftrightarrow> boot_inv t \<and> same_layout s t \<and> page_references t = page_references s \<and>
     (\<forall>q. bitmap_test t q \<longleftrightarrow> bitmap_test s q \<or> q \<in> A) \<and>
     total_pages t - free_pages t = total_pages s - free_pages s + word_of_nat (card A)"

lemma released_refl: "boot_inv s \<Longrightarrow> released s {} s"
  by (simp add: released_def same_layout_def)

lemma released_trans: "released s A t \<Longrightarrow> released t B u \<Longrightarrow> released s (A \<union> B) u"
  by (auto simp: released_def same_layout_def)

lemma claimed_trans:
  assumes "claimed s A t" "claimed t B u" "A \<inter> B = {}" "finite A" "finite B"
  shows "claimed s (A \<union> B) u"
proof -
  have "total_pages u - free_pages u = total_pages s - free_pages s + word_of_nat (card (A \<union> B))"
    using assms by (simp add: claimed_def card_Un_disjoint)
  then show ?thesis using assms(1,2) by (auto simp: claimed_def same_layout_def)
qed

lemma release_boot_page_fields [simp]:
  "page_count (release_boot_page p s) = page_count s"
  "memory_map (release_boot_page p s) = memory_map s"
  "bitmap_physical (release_boot_page p s) = bitmap_physical s"
  "references_physical (release_boot_page p s) = references_physical s"
  "references_page_count (release_boot_page p s) = references_page_count s"
  "page_references (release_boot_page p s) = page_references s"
  "length (bitmap (release_boot_page p s)) = length (bitmap s)"
  by (simp_all add: release_boot_page_def)

lemma release_boot_page_released:
  assumes inv: "boot_inv s" and p: "p < unat (page_count s)" and set: "bitmap_test s p"
  shows "released s {p} (release_boot_page p s)"
proof -
  have lb: "p div 8 < length (bitmap s)" using inv p by (auto simp: boot_inv_def)
  let ?t = "release_boot_page p s"
  have bt: "bitmap_test ?t q \<longleftrightarrow> q \<noteq> p \<and> bitmap_test s q" for q
    by (simp add: release_boot_page_def bitmap_test_clear [OF lb])
  have fs: "free_set ?t = insert p (free_set s)" "p \<notin> free_set s"
    using p set by (auto simp: free_set_def bt)
  have "unat (free_pages s + 1) = card (free_set s) + 1"
    using inv card_free_set_le [of s] by (simp add: boot_inv_def unat_u64_add)
  moreover have c: "free_pages ?t = free_pages s + 1" "total_pages ?t = total_pages s + 1"
    by (simp_all add: release_boot_page_def)
  ultimately have "boot_inv ?t" using inv fs by (simp add: boot_inv_def)
  then show ?thesis using bt c by (auto simp: released_def same_layout_def)
qed

lemma fold_release_boot_page:
  assumes "boot_inv s" "b \<le> unat (page_count s)" "\<And>q. a \<le> q \<Longrightarrow> q < b \<Longrightarrow> bitmap_test s q"
  shows "released s {a ..< b} (fold release_boot_page [a ..< b] s)"
  using assms
proof (induction b)
  case (Suc b)
  show ?case
  proof (cases "a \<le> b")
    case True
    let ?u = "fold release_boot_page [a ..< b] s"
    have u: "released s {a ..< b} ?u" using Suc by simp
    have "released ?u {b} (release_boot_page b ?u)"
      using u Suc.prems True
      by (intro release_boot_page_released) (auto simp: released_def same_layout_def)
    from released_trans [OF u this] True show ?thesis by (simp add: atLeastLessThanSuc insert_is_Un [symmetric] Un_commute)
  qed (use Suc.prems released_refl in simp)
qed (simp add: released_refl)

lemma fold_release_boot_entry:
  assumes "boot_map_ok es" "boot_inv s" "covered es \<subseteq> {..<unat (page_count s)}"
    "\<And>q. q \<in> covered es \<Longrightarrow> bitmap_test s q"
  shows "released s (covered es) (fold release_boot_entry es s)"
  using assms
proof (induction es arbitrary: s)
  case (Cons e es)
  let ?t = "release_boot_entry e s"
  have t: "released s (pages_of e) ?t"
  proof (cases "me_usable e")
    case True
    obtain k n where k: "unat (me_base e) = 4096 * k" "unat (me_length e) = 4096 * n" "k + n \<le> 2 ^ 40"
      "pages_of e = {k ..< k + n}" "unat (me_base e + me_length e) = 4096 * (k + n)"
      using boot_map_okD [OF Cons.prems(1) _ True] by auto
    have "?t = fold release_boot_page [k ..< k + n] s"
      using k by (simp add: release_boot_entry_def True unat_align_down_4096 unat_align_up_4096)
    moreover have "k + n \<le> unat (page_count s) \<or> n = 0"
    proof (cases "n = 0")
      case False
      then have "k + n - 1 \<in> covered (e # es)" using k(4) by (auto simp: covered_def)
      then show ?thesis using Cons.prems(3) by auto
    qed simp
    ultimately show ?thesis
      using fold_release_boot_page [of s "k + n" k] released_refl Cons.prems k(4)
      by (auto simp: covered_def)
  qed (use Cons.prems released_refl in \<open>simp add: release_boot_entry_def pages_of_def\<close>)
  have disj: "q \<notin> pages_of e" if qc: "q \<in> covered es" for q
  proof
    assume q: "q \<in> pages_of e"
    then have u: "me_usable e" by (auto simp: pages_of_def split: if_splits)
    obtain e' where e': "e' \<in> set es" "me_usable e'" "q \<in> pages_of e'"
      using qc by (auto simp: covered_def pages_of_def split: if_splits)
    have "unat (me_base e) + unat (me_length e) \<le> unat (me_base e')"
      using Cons.prems(1) u e' by (auto simp: list_all_iff)
    then have "(unat (me_base e) + unat (me_length e)) div 4096 \<le> unat (me_base e') div 4096"
      by (rule div_le_mono)
    with q e'(2,3) u show False by (simp add: pages_of_def)
  qed
  have "released ?t (covered es) (fold release_boot_entry es ?t)"
    using t Cons.prems disj
    by (intro Cons.IH) (auto simp: released_def same_layout_def covered_def)
  from released_trans [OF t this] show ?case by (simp add: covered_def)
qed (simp add: released_refl covered_def)

lemma claim_boot_page_fields [simp]:
  "page_count (claim_boot_page p s) = page_count s"
  "memory_map (claim_boot_page p s) = memory_map s"
  "bitmap_physical (claim_boot_page p s) = bitmap_physical s"
  "references_physical (claim_boot_page p s) = references_physical s"
  "references_page_count (claim_boot_page p s) = references_page_count s"
  "page_references (claim_boot_page p s) = page_references s"
  "length (bitmap (claim_boot_page p s)) = length (bitmap s)"
  by (simp_all add: claim_boot_page_def)

lemma claim_boot_page_claimed:
  assumes inv: "boot_inv s" and p: "p < unat (page_count s)" and clear: "\<not> bitmap_test s p"
  shows "claimed s {p} (claim_boot_page p s)"
proof -
  have lb: "p div 8 < length (bitmap s)" using inv p by (auto simp: boot_inv_def)
  let ?t = "claim_boot_page p s"
  have bt: "bitmap_test ?t q \<longleftrightarrow> q = p \<or> bitmap_test s q" for q
    by (auto simp: claim_boot_page_def bitmap_test_set [OF lb])
  have fs: "free_set ?t = free_set s - {p}" "p \<in> free_set s"
    using p clear by (auto simp: free_set_def bt)
  have "unat (free_pages s - 1) = card (free_set s) - 1"
    using inv fs(2) by (metis boot_inv_def card_0_eq empty_iff finite_free_set unat_0 unat_minus_one)
  moreover have c: "free_pages ?t = free_pages s - 1" "total_pages ?t = total_pages s"
    using clear by (simp_all add: claim_boot_page_def)
  ultimately have "boot_inv ?t" using inv fs by (simp add: boot_inv_def)
  then show ?thesis using bt c by (auto simp: claimed_def same_layout_def)
qed

lemma fold_claim_boot_page:
  assumes "boot_inv s" "b \<le> unat (page_count s)" "\<And>q. a \<le> q \<Longrightarrow> q < b \<Longrightarrow> \<not> bitmap_test s q" "a \<le> b"
  shows "claimed s {a ..< b} (fold claim_boot_page [a ..< b] s)"
  using assms(4) assms(1-3)
proof (induction b rule: dec_induct)
  case (step b)
  let ?u = "fold claim_boot_page [a ..< b] s"
  have u: "claimed s {a ..< b} ?u" using step by simp
  have "claimed ?u {b} (claim_boot_page b ?u)"
    using u step by (intro claim_boot_page_claimed) (auto simp: claimed_def same_layout_def)
  from claimed_trans [OF u this] step.hyps show ?case
    by (simp add: atLeastLessThanSuc insert_is_Un [symmetric] Un_commute)
qed (simp add: claimed_def same_layout_def)

definition boot_metadata_pages :: "nat \<Rightarrow> nat" where
  "boot_metadata_pages n = ((n + 7) div 8 + 4095) div 4096 + (n * 2 + 4095) div 4096"

text \<open>The sizes \<open>pmm_init\<close> computes do not wrap for at most \<open>2 ^ 40\<close> frames.\<close>

lemma boot_sizes:
  assumes n: "unat (highest_usable es) = 4096 * n" "n \<le> 2 ^ 40"
  defines "pages \<equiv> align_up (highest_usable es) 4096 div 4096"
  defines "bs \<equiv> align_up pages 8 div 8"
  shows "unat pages = n" "unat bs = (n + 7) div 8"
    "unat (align_up bs 4096 div 4096) = ((n + 7) div 8 + 4095) div 4096"
    "unat (align_up (pages * 2) 4096 div 4096) = (n * 2 + 4095) div 4096"
    "unat (align_up bs 4096 div 4096 + align_up (pages * 2) 4096 div 4096) = boot_metadata_pages n"
    "boot_metadata_pages n < 2 ^ 41"
proof -
  show p: "unat pages = n" using n by (simp add: pages_def unat_div unat_align_up_4096)
  show b: "unat bs = (n + 7) div 8" using n p by (simp add: bs_def unat_div unat_align_up_8)
  have "(n + 7) div 8 \<le> 2 ^ 38" using n(2) by simp
  then show 1: "unat (align_up bs 4096 div 4096) = ((n + 7) div 8 + 4095) div 4096"
    using b by (simp add: unat_div unat_align_up_4096)
  have "unat (pages * 2) = n * 2" using p n(2) by (simp add: unat_u64_mult)
  then show 2: "unat (align_up (pages * 2) 4096 div 4096) = (n * 2 + 4095) div 4096"
    using n(2) by (simp add: unat_div unat_align_up_4096)
  show lt: "boot_metadata_pages n < 2 ^ 41" using n(2) by (simp add: boot_metadata_pages_def)
  show "unat (align_up bs 4096 div 4096 + align_up (pages * 2) 4096 div 4096) = boot_metadata_pages n"
    using 1 2 lt by (simp add: unat_u64_add boot_metadata_pages_def)
qed

lemma metadata_region_pages:
  assumes ok: "boot_map_ok es" and m: "unat m < 2 ^ 41" "metadata_region m es = Some e"
  obtains k where "unat (align_up (me_base e) 4096) = 4096 * k" "{k ..< k + unat m} \<subseteq> covered es"
    "e \<in> set es" "me_usable e" "k \<le> 2 ^ 40" "unat (me_base e) = 4096 * k"
proof -
  have e: "e \<in> set es" "me_usable e"
    and sz: "m * 4096 \<le> align_down (me_base e + me_length e) 4096 - align_up (me_base e) 4096"
    using m(2) by (auto simp: metadata_region_def find_Some_iff in_set_conv_nth)
  obtain k n where k: "unat (me_base e) = 4096 * k" "unat (me_length e) = 4096 * n" "k + n \<le> 2 ^ 40"
    "pages_of e = {k ..< k + n}" "unat (me_base e + me_length e) = 4096 * (k + n)"
    by (rule boot_map_okD [OF ok e])
  have u: "unat (align_up (me_base e) 4096) = 4096 * k"
    using k(1,3) by (simp add: unat_align_up_4096)
  have d: "unat (align_down (me_base e + me_length e) 4096) = 4096 * (k + n)"
    using k(5) by (simp add: unat_align_down_4096)
  have "unat (align_down (me_base e + me_length e) 4096 - align_up (me_base e) 4096) = 4096 * n"
    using u d by (simp add: unat_u64_sub)
  moreover have "unat (m * 4096) = unat m * 4096" using m(1) by (simp add: unat_u64_mult)
  ultimately have "unat m \<le> n" using sz by (simp add: word_le_nat_alt)
  then have "{k ..< k + unat m} \<subseteq> covered es" using k(4) e by (auto simp: covered_def)
  with u e k(1,3) that show ?thesis by simp
qed

lemma all_ones_test: "q < 8 * length (bitmap s) \<Longrightarrow> bitmap s = replicate n 0xFF \<Longrightarrow> bitmap_test s q"
proof -
  assume q: "q < 8 * length (bitmap s)" and b: "bitmap s = replicate n 0xFF"
  have "bit (mask 8 :: u8) (q mod 8)" by (simp only: bit_mask_iff) simp
  moreover have "(mask 8 :: u8) = 0xFF" by (simp add: mask_eq_exp_minus_1)
  ultimately show ?thesis using q b by (simp add: bitmap_test_iff)
qed

text \<open>The state \<open>pmm_init\<close> starts its loops from, and the state it reaches.\<close>

lemma pmm_init_SomeD:
  assumes ok: "boot_map_ok es" and init: "pmm_init (Some es) (Some off) pmm_boot = (True, t)"
  obtains n k s where
    "unat (page_count s) = n" "n \<le> 2 ^ 40" "memory_map s = es"
    "\<And>e. e \<in> set es \<Longrightarrow> me_usable e \<Longrightarrow> unat (me_base e) + unat (me_length e) \<le> n * 4096"
    "length (bitmap s) = (n + 7) div 8" "page_references s = replicate n 0"
    "\<And>q. q < n \<Longrightarrow> bitmap_test s q" "free_pages s = 0" "total_pages s = 0"
    "unat (bitmap_physical s) = 4096 * k"
    "unat (references_physical s + references_page_count s * 4096) = 4096 * (k + boot_metadata_pages n)"
    "{k ..< k + boot_metadata_pages n} \<subseteq> covered es" "k \<le> n"
    "t = (fold claim_boot_page [k ..< k + boot_metadata_pages n] (fold release_boot_entry es s))
          \<lparr>search_start := word_of_nat (k + boot_metadata_pages n)\<rparr>"
proof -
  obtain n where n: "unat (highest_usable es) = 4096 * n" "n \<le> 2 ^ 40"
    "\<And>e. e \<in> set es \<Longrightarrow> me_usable e \<Longrightarrow> unat (me_base e) + unat (me_length e) \<le> n * 4096"
    using highest_usable_pages [OF ok] by blast
  define pages where "pages = align_up (highest_usable es) 4096 div 4096"
  define bs where "bs = align_up pages 8 div 8"
  define bp where "bp = align_up bs 4096 div 4096"
  define rp where "rp = align_up (pages * 2) 4096 div 4096"
  note S = boot_sizes [OF n(1,2), folded pages_def, folded bs_def, folded bp_def rp_def]
  obtain e where e: "metadata_region (bp + rp) es = Some e"
    using init by (auto simp: pmm_init_def Let_def pages_def bs_def bp_def rp_def split: option.splits)
  have m: "unat (bp + rp) < 2 ^ 41" using S(5,6) by simp
  obtain k where k: "unat (align_up (me_base e) 4096) = 4096 * k" "{k ..< k + unat (bp + rp)} \<subseteq> covered es"
    "k \<le> 2 ^ 40" "e \<in> set es" "me_usable e" "unat (me_base e) = 4096 * k"
    by (rule metadata_region_pages [OF ok m e])
  have kn: "k \<le> n" using n(3) [OF k(4,5)] k(6) by simp
  define s where "s = pmm_boot\<lparr>memory_map := es, hhdm_offset := off, page_count := pages,
      bitmap_page_count := bp, references_page_count := rp, bitmap_physical := align_up (me_base e) 4096,
      references_physical := align_up (me_base e) 4096 + bp * 4096,
      bitmap := replicate (unat bs) 0xFF, page_references := replicate (unat pages) 0\<rparr>"
  have first: "unat (align_up (me_base e) 4096 div 4096) = k" using k(1) by (simp add: unat_div)
  have "align_up (me_base e) 4096 div 4096 + (bp + rp) = word_of_nat (k + boot_metadata_pages n)"
    using first S(5,6) k(3) by (simp add: u64_eq_iff_unat unat_u64_add unat_u64_of_nat del: of_nat_add)
  then have t: "t = (fold claim_boot_page [k ..< k + boot_metadata_pages n] (fold release_boot_entry es s))
      \<lparr>search_start := word_of_nat (k + boot_metadata_pages n)\<rparr>"
    using init e first S(5)
    by (simp add: pmm_init_def Let_def pages_def [symmetric] bs_def [symmetric] bp_def [symmetric]
        rp_def [symmetric] s_def del: of_nat_add)
  have "unat ((bp + rp) * 4096) = boot_metadata_pages n * 4096"
    by (subst unat_u64_mult) (use S(5,6) in simp_all)
  then have w: "unat (bp * 4096 + rp * 4096) = boot_metadata_pages n * 4096"
    by (simp only: distrib_right)
  have "unat (align_up (me_base e) 4096 + (bp * 4096 + rp * 4096)) = 4096 * (k + boot_metadata_pages n)"
    by (subst unat_u64_add) (use w k(1,3) S(6) in simp_all)
  then have md: "unat (references_physical s + references_page_count s * 4096) =
      4096 * (k + boot_metadata_pages n)"
    by (simp add: s_def add.assoc)
  have bits: "bitmap_test s q" if "q < n" for q
    by (rule all_ones_test [of _ _ "unat bs"]) (use that S(2) in \<open>simp_all add: s_def\<close>)
  show ?thesis
    by (rule that [of s n k])
      (use n S(1,2,5) k(1-3) kn bits md t in \<open>simp_all add: s_def pmm_boot_def\<close>)
qed

lemma covered_lt:
  assumes "\<And>e. e \<in> set es \<Longrightarrow> me_usable e \<Longrightarrow> unat (me_base e) + unat (me_length e) \<le> n * 4096"
  shows "covered es \<subseteq> {..<n}"
proof
  fix q assume "q \<in> covered es"
  then obtain e where e: "e \<in> set es" "me_usable e" "q \<in> pages_of e"
    by (auto simp: covered_def pages_of_def split: if_splits)
  then have "(unat (me_base e) + unat (me_length e)) div 4096 \<le> n * 4096 div 4096"
    using assms by (intro div_le_mono) simp
  then show "q \<in> {..<n}" using e by (simp add: pages_of_def)
qed

lemma pmm_init_establishes:
  assumes ok: "boot_map_ok es" and init: "pmm_init (Some es) (Some off) pmm_boot = (True, t)"
  shows "pmm_inv t" "frame_refs t a = 0"
    "total_pages t = free_pages t + word_of_nat (boot_metadata_pages (unat (page_count t)))"
proof -
  obtain n k s where S: "unat (page_count s) = n" "n \<le> 2 ^ 40" "memory_map s = es"
    "\<And>e. e \<in> set es \<Longrightarrow> me_usable e \<Longrightarrow> unat (me_base e) + unat (me_length e) \<le> n * 4096"
    "length (bitmap s) = (n + 7) div 8" "page_references s = replicate n 0"
    "\<And>q. q < n \<Longrightarrow> bitmap_test s q" "free_pages s = 0" "total_pages s = 0"
    and K: "unat (bitmap_physical s) = 4096 * k"
    "unat (references_physical s + references_page_count s * 4096) = 4096 * (k + boot_metadata_pages n)"
    "{k ..< k + boot_metadata_pages n} \<subseteq> covered es" "k \<le> n"
    and t: "t = (fold claim_boot_page [k ..< k + boot_metadata_pages n] (fold release_boot_entry es s))
          \<lparr>search_start := word_of_nat (k + boot_metadata_pages n)\<rparr>"
    using pmm_init_SomeD [OF ok init] by blast
  let ?m = "boot_metadata_pages n"
  define u where "u = fold release_boot_entry es s"
  define v where "v = fold claim_boot_page [k ..< k + ?m] u"
  have cov: "covered es \<subseteq> {..<n}" using S(4) by (rule covered_lt)
  have "free_set s = {}" using S(1,7) by (auto simp: free_set_def)
  then have "boot_inv s" using S by (simp add: boot_inv_def)
  then have ru: "released s (covered es) u"
    unfolding u_def using ok cov S by (intro fold_release_boot_entry) auto
  have km: "k + ?m \<le> n"
  proof (cases "?m = 0")
    case False
    then have "k + ?m - 1 \<in> covered es" using K(3) by auto
    then show ?thesis using cov by auto
  qed (use K(4) in simp)
  have cv: "claimed u {k ..< k + ?m} v"
    unfolding v_def using ru km K(3) S(1)
    by (intro fold_claim_boot_page) (auto simp: released_def same_layout_def)
  have tv: "t = v\<lparr>search_start := word_of_nat (k + ?m)\<rparr>" by (simp only: t u_def v_def)
  have lay: "page_count t = page_count s" "memory_map t = es" "bitmap_physical t = bitmap_physical s"
    "references_physical t = references_physical s" "references_page_count t = references_page_count s"
    "length (bitmap t) = length (bitmap s)" "page_references t = replicate n 0"
    using ru cv S(3,6) by (simp_all add: tv released_def claimed_def same_layout_def)
  have bt: "bitmap_test t q \<longleftrightarrow> bitmap_test s q \<and> q \<notin> covered es \<or> k \<le> q \<and> q < k + ?m" for q
    using ru cv by (auto simp: tv released_def claimed_def)
  have man: "managed t q \<longleftrightarrow> q \<in> covered es \<and> \<not> (k \<le> q \<and> q < k + ?m)" if "q < n" for q
  proof -
    have q: "q < 2 ^ 51" using that S(2) by simp
    have "in_metadata t (word_of_nat q * 4096) \<longleftrightarrow> k \<le> q \<and> q < k + ?m"
      using K(1,2) q unat_frame_address [of q] by (auto simp: in_metadata_def lay word_le_nat_alt word_less_nat_alt)
    then show ?thesis
      using page_is_usable_covered [of t q] ok q by (auto simp: managed_def lay(2))
  qed
  have fp: "unat (free_pages t) = card (free_set t)"
    using cv by (simp add: tv claimed_def boot_inv_def free_set_def)
  have "unat (search_start t) \<le> n" using km S(2) by (simp add: tv unat_u64_of_nat del: of_nat_add)
  moreover have "n \<le> 8 * ((n + 7) div 8)" by arith
  ultimately show inv: "pmm_inv t"
    using S(1-5,7) fp man bt by (auto simp add: pmm_inv_def map_bounded_def lay)
  show "frame_refs t a = 0"
  proof (rule ccontr)
    assume "frame_refs t a \<noteq> 0"
    with frame_refs_pos [OF inv, of a] show False by (simp add: lay S(1))
  qed
  have "total_pages t - free_pages t = word_of_nat ?m"
    using ru cv S(8,9) by (simp add: tv released_def claimed_def)
  then show "total_pages t = free_pages t + word_of_nat (boot_metadata_pages (unat (page_count t)))"
    by (simp add: lay S(1) diff_eq_eq add.commute)
qed

section \<open>The frame interface\<close>
text \<open>The frames an allocation can return, by their address.\<close>

definition free_frames :: "pmm_state \<Rightarrow> u64 set" where
  "free_frames s = (\<lambda>p. word_of_nat p * 4096) ` free_set s"

lemma free_frames_claim_page:
  assumes inv: "pmm_inv s" and p: "p \<in> free_set s"
  shows "free_frames (claim_page p s) = free_frames s - {word_of_nat p * 4096}"
proof -
  have "inj_on (\<lambda>p. word_of_nat p * 4096 :: u64) (free_set s)"
  proof (rule inj_onI)
    fix x y assume xy: "x \<in> free_set s" "y \<in> free_set s"
      and eq: "word_of_nat x * 4096 = (word_of_nat y * 4096 :: u64)"
    have "x < 2 ^ 52" "y < 2 ^ 52" using xy pmm_invD(7) [OF inv] by (auto simp: free_set_def)
    then show "x = y" using arg_cong [OF eq, of unat] by (simp only: unat_frame_address mult_cancel2) simp
  qed
  then show ?thesis
    unfolding free_frames_def free_set_claim_page [OF assms]
    using p by (subst inj_on_image_set_diff [where C = "free_set s"]) auto
qed

lemma free_set_free_page:
  assumes inv: "pmm_inv s" and nt: "a \<noteq> TOP_PAGE"
  shows "free_set (snd (pmm_free_page a s)) \<subseteq> insert (unat a div 4096) (free_set s)"
proof (cases "address_rejected s a \<or> \<not> bitmap_test s (unat a div 4096)")
  case False
  then have "unat a div 4096 < unat (page_count s)" using unmanaged_rejected(1) [OF inv nt] by blast
  then show ?thesis
    using pmm_inv_bitmap [OF inv]
    by (auto simp: pmm_free_page_def Let_def unat_div free_set_def bitmap_test_clear)
qed (auto simp: pmm_free_page_def Let_def unat_div)

lemma free_frames_free_page:
  assumes inv: "pmm_inv s" and nt: "a \<noteq> TOP_PAGE"
  shows "free_frames (snd (pmm_free_page a s)) \<subseteq> insert a (free_frames s)"
proof (cases "address_rejected s a")
  case True
  then show ?thesis by (auto simp: pmm_free_page_def)
next
  case False
  then have "word_of_nat (unat a div 4096) * 4096 = a"
    by (intro aligned_frame_address) (simp add: address_rejected_def)
  then show ?thesis using free_set_free_page [OF assms] by (auto simp: free_frames_def)
qed

lemma free_frames_unreferenced: "pmm_inv s \<Longrightarrow> a \<in> free_frames s \<Longrightarrow> frame_refs s a = 0"
  using pmm_inv_refs_iff by (fastforce simp: free_frames_def free_set_def frame_refs_frame unat_eq_0)

lemma alloc_page_with_reserve_frames:
  assumes inv: "pmm_inv s" and al: "alloc_page_with_reserve r s = (a, t)" "a \<noteq> PMM_INVALID_ADDRESS"
  shows "a \<in> free_frames s \<and> free_frames t = free_frames s - {a}"
proof -
  have "\<not> free_pages s \<le> r" using alloc_page_with_reserve_refs(2) [OF inv al(1)] al(2) by blast
  then obtain p where p: "p \<in> free_set s" "a = word_of_nat p * 4096" "t = claim_page p s"
    using alloc_page_with_reserve_cases [OF inv] al(1) by (metis prod.inject)
  then show ?thesis using free_frames_claim_page [OF inv p(1)] by (auto simp: free_frames_def)
qed

lemma pmm_free_page_live:
  "pmm_inv s \<Longrightarrow> 0 < frame_refs s a \<Longrightarrow>
   \<exists>t. pmm_free_page a s = (True, t) \<and> pmm_inv t \<and> frame_refs t = (frame_refs s)(a := frame_refs s a - 1)"
  by (metis pmm_free_page_referenced)

lemma pmm_retain_page_live:
  "pmm_inv s \<Longrightarrow> 0 < frame_refs s a \<Longrightarrow> frame_refs s a < 65535 \<Longrightarrow>
   \<exists>t. pmm_retain_page a s = (True, t) \<and> pmm_inv t \<and> frame_refs t = (frame_refs s)(a := frame_refs s a + 1)"
  using pmm_retain_page_cases(2) [of s a] frame_refs_pos_accepted(1) [of s a] by blast

lemma pmm_retain_page_dead:
  assumes "pmm_inv s" "frame_refs s a = 0 \<or> 65535 \<le> frame_refs s a" "a \<noteq> TOP_PAGE"
  shows "pmm_retain_page a s = (False, s)"
proof -
  have "frame_refs s a \<le> 65535"
    using unat_u16_lt [of "pmm_page_references s a"]
    by (auto simp: frame_refs_def simp del: unat_u16_lt)
  with assms show ?thesis using pmm_retain_page_cases(1) [of s a] by auto
qed

interpretation pmm_kernel: frame_pool pmm_alloc_page pmm_free_page pmm_retain_page frame_refs
  pmm_inv PMM_INVALID_ADDRESS "{TOP_PAGE}" 65535 free_frames
proof (unfold_locales, goal_cases)
  case (1 s a t)
  then show ?case using alloc_page_with_reserve_refs(1) by (simp add: pmm_alloc_page_def)
next
  case (2 s t)
  then show ?case using alloc_page_with_reserve_refs(3) by (simp add: pmm_alloc_page_def)
next
  case (3 s a t)
  then show ?case using alloc_page_with_reserve_refs(4) by (simp add: pmm_alloc_page_def)
next
  case (9 s a t)
  then show ?case using alloc_page_with_reserve_frames by (simp add: pmm_alloc_page_def)
qed (use pmm_free_page_live pmm_retain_page_live in
    \<open>simp_all add: pmm_free_page_unreferenced pmm_retain_page_dead free_frames_free_page
      free_frames_unreferenced\<close>)

interpretation pmm_user: frame_pool pmm_alloc_user_page pmm_free_page pmm_retain_page frame_refs
  pmm_inv PMM_INVALID_ADDRESS "{TOP_PAGE}" 65535 free_frames
proof (unfold_locales, goal_cases)
  case (1 s a t)
  then show ?case using alloc_page_with_reserve_refs(1) by (simp add: pmm_alloc_user_page_def)
next
  case (2 s t)
  then show ?case using alloc_page_with_reserve_refs(3) by (simp add: pmm_alloc_user_page_def)
next
  case (3 s a t)
  then show ?case using alloc_page_with_reserve_refs(4) by (simp add: pmm_alloc_user_page_def)
next
  case (9 s a t)
  then show ?case using alloc_page_with_reserve_frames by (simp add: pmm_alloc_user_page_def)
qed (use pmm_free_page_live pmm_retain_page_live in
    \<open>simp_all add: pmm_free_page_unreferenced pmm_retain_page_dead free_frames_free_page
      free_frames_unreferenced\<close>)

section \<open>Properties\<close>

text \<open>
  The range check of \<open>page_is_usable\<close> adds the page size to the address before comparing. For the
  last page of the address space the sum wraps to zero, so that page counts as usable on every
  machine with any usable memory, although no frame of it exists and the frame arrays have no
  element for it.
\<close>

lemma page_is_usable_top_page:
  "page_is_usable s TOP_PAGE \<longleftrightarrow>
     (\<exists>e \<in> set (memory_map s). me_usable e \<and> me_base e \<le> TOP_PAGE)"
proof -
  have "TOP_PAGE + 4096 = 0" by (simp add: TOP_PAGE_def)
  then show ?thesis by (simp add: page_is_usable_def list_ex_iff)
qed

text \<open>A small machine for the examples: four frames, two of metadata, one shared, one free.\<close>

definition demo_pmm :: pmm_state where
  "demo_pmm = \<lparr>bitmap = [0xF7], page_references = [0, 0, 2, 0], bitmap_physical = 0,
     bitmap_page_count = 1, references_physical = 0x1000, references_page_count = 1, page_count = 4,
     total_pages = 4, free_pages = 1, search_start = 0, hhdm_offset = 0,
     memory_map = [\<lparr>me_base = 0, me_length = 0x4000, me_usable = True\<rparr>]\<rparr>"

lemma demo_pmm_test: "bitmap_test demo_pmm p \<longleftrightarrow> p \<noteq> 3" if "p < 8"
proof -
  have "p \<in> {0, 1, 2, 3, 4, 5, 6, 7}" using that by auto
  then show ?thesis by (auto simp: bitmap_test_def demo_pmm_def)
qed

lemma demo_pmm_free: "free_set demo_pmm = {3}"
proof -
  have "unat (page_count demo_pmm) = 4" by (simp add: demo_pmm_def)
  then show ?thesis by (auto simp: free_set_def demo_pmm_test)
qed

lemma demo_pmm_inv: "pmm_inv demo_pmm"
proof -
  have 4: "unat (page_count demo_pmm) = 4" by (simp add: demo_pmm_def)
  have "managed demo_pmm p \<longleftrightarrow> p = 2 \<or> p = 3" if "p < 4" for p
  proof -
    have "p \<in> {0, 1, 2, 3}" using that by auto
    then show ?thesis by (auto simp: managed_def page_is_usable_def in_metadata_def demo_pmm_def)
  qed
  moreover have "page_references demo_pmm ! p = (if p = 2 then 2 else 0)" if "p < 4" for p
  proof -
    have "p \<in> {0, 1, 2, 3}" using that by auto
    then show ?thesis by (auto simp: demo_pmm_def)
  qed
  ultimately have "\<forall>p < 4. if managed demo_pmm p then bitmap_test demo_pmm p = (page_references demo_pmm ! p \<noteq> 0)
        else bitmap_test demo_pmm p \<and> page_references demo_pmm ! p = 0"
    by (auto simp: demo_pmm_test)
  then show ?thesis by (simp add: pmm_inv_def 4 demo_pmm_free) (simp add: demo_pmm_def map_bounded_def)
qed

lemma demo_pmm_refs: "frame_refs demo_pmm 0x2000 = 2" "frame_refs demo_pmm 0x3000 = 0"
  using frame_refs_frame [OF demo_pmm_inv, of 2] frame_refs_frame [OF demo_pmm_inv, of 3]
  by (simp_all add: demo_pmm_def)

text \<open>A machine of 8 MiB whose only used frames are the two of the metadata.\<close>

definition demo_big :: pmm_state where
  "demo_big = \<lparr>bitmap = 3 # replicate 255 0, page_references = replicate 2048 0, bitmap_physical = 0,
     bitmap_page_count = 1, references_physical = 0x1000, references_page_count = 1, page_count = 2048,
     total_pages = 2048, free_pages = 2046, search_start = 2, hhdm_offset = 0,
     memory_map = [\<lparr>me_base = 0, me_length = 0x800000, me_usable = True\<rparr>]\<rparr>"

lemma demo_big_test: "p < 2048 \<Longrightarrow> bitmap_test demo_big p \<longleftrightarrow> p < 2"
proof (cases "p < 8")
  case True
  then have "p \<in> {0, 1, 2, 3, 4, 5, 6, 7}" by auto
  then show ?thesis by (auto simp: bitmap_test_def demo_big_def)
next
  case False
  moreover assume "p < 2048"
  ultimately have "bitmap demo_big ! (p div 8) = 0" by (simp add: demo_big_def nth_Cons')
  then show ?thesis using False by (simp add: bitmap_test_def)
qed

lemma demo_big_inv: "pmm_inv demo_big"
proof -
  have n: "unat (page_count demo_big) = 2048" by (simp add: demo_big_def)
  have "free_set demo_big = {2 ..< 2048}" by (auto simp: free_set_def n demo_big_test)
  then have fs: "card (free_set demo_big) = 2046" by simp
  have "managed demo_big p \<longleftrightarrow> 2 \<le> p" if "p < 2048" for p
    using that unat_frame_address [of p]
    by (auto simp: managed_def page_is_usable_def in_metadata_def demo_big_def word_le_nat_alt
        word_less_nat_alt unat_u64_add)
  then have "\<forall>p < 2048. if managed demo_big p then bitmap_test demo_big p = (page_references demo_big ! p \<noteq> 0)
        else bitmap_test demo_big p \<and> page_references demo_big ! p = 0"
    by (auto simp: demo_big_test) (simp_all add: demo_big_def)
  then show ?thesis by (simp add: pmm_inv_def n fs) (simp add: demo_big_def map_bounded_def)
qed

lemma pmm_init_fst:
  "fst (pmm_init (Some es) (Some off) s) \<longleftrightarrow>
     (let pages = align_up (highest_usable es) 4096 div 4096
      in metadata_region (align_up (align_up pages 8 div 8) 4096 div 4096 +
           align_up (pages * 2) 4096 div 4096) es \<noteq> None)"
  by (simp add: pmm_init_def Let_def split: option.split)

text \<open>C1. From the boot loader's memory map, initialisation either fails or reaches a state that
  satisfies the invariant, in which no frame has a reference and every frame of usable memory but
  those of the manager's own metadata is free.\<close>

theorem pmm_init_correct:
  assumes "boot_map_ok es" "pmm_init (Some es) (Some off) pmm_boot = (True, t)"
  shows "pmm_inv t \<and> (\<forall>a. frame_refs t a = 0) \<and>
    free_set t = {p. p < unat (page_count t) \<and> managed t p} \<and>
    total_pages t = free_pages t + word_of_nat (boot_metadata_pages (unat (page_count t)))"
proof -
  note inv = pmm_init_establishes(1) [OF assms]
  have "bitmap_test t p \<longleftrightarrow> \<not> managed t p" if "p < unat (page_count t)" for p
  proof -
    have "page_references t ! p = 0"
      using pmm_init_establishes(2) [OF assms] frame_refs_frame [OF inv that] by (simp add: unat_eq_0)
    then show ?thesis using pmm_inv_page [OF inv that] by blast
  qed
  then have "free_set t = {p. p < unat (page_count t) \<and> managed t p}" by (auto simp: free_set_def)
  with inv pmm_init_establishes(2,3) [OF assms] show ?thesis by blast
qed

theorem pmm_init_correct_witness:
  "boot_map_ok [\<lparr>me_base = 0x1000, me_length = 0x8000, me_usable = True\<rparr>] \<and>
   fst (pmm_init (Some [\<lparr>me_base = 0x1000, me_length = 0x8000, me_usable = True\<rparr>]) (Some 0) pmm_boot) \<and>
   pmm_inv (snd (pmm_init (Some [\<lparr>me_base = 0x1000, me_length = 0x8000, me_usable = True\<rparr>]) (Some 0) pmm_boot))"
proof -
  let ?es = "[\<lparr>me_base = 0x1000, me_length = 0x8000, me_usable = True\<rparr>]"
  have ok: "boot_map_ok ?es" by simp
  have fst: "fst (pmm_init (Some ?es) (Some 0) pmm_boot)"
    by (simp add: pmm_init_fst Let_def highest_usable_def metadata_region_def align_up_def align_down_def)
  obtain r t where rt: "pmm_init (Some ?es) (Some 0) pmm_boot = (r, t)" by fastforce
  with fst ok pmm_init_correct [OF ok, of 0 t] show ?thesis by simp
qed

text \<open>C2. Allocation fails exactly when no frame is free, leaving the state alone; otherwise it
  returns a page aligned frame that had no reference and now has one, and changes no other frame.\<close>

theorem pmm_alloc_page_correct:
  assumes "pmm_inv s" "pmm_alloc_page s = (a, t)"
  shows "pmm_inv t \<and> (a = PMM_INVALID_ADDRESS \<longleftrightarrow> free_set s = {}) \<and> (a = PMM_INVALID_ADDRESS \<longrightarrow> t = s) \<and>
    (a \<noteq> PMM_INVALID_ADDRESS \<longrightarrow> a mod 4096 = 0 \<and> frame_refs s a = 0 \<and> frame_refs t = (frame_refs s)(a := 1))"
proof -
  note A = alloc_page_with_reserve_refs [OF assms(1) assms(2) [unfolded pmm_alloc_page_def]]
  have "free_pages s \<le> 0 \<longleftrightarrow> free_set s = {}"
    using pmm_invD(5) [OF assms(1)] by (simp add: unat_eq_0 [symmetric])
  with A show ?thesis by simp
qed

theorem pmm_alloc_page_correct_witness:
  "pmm_inv (snd (pmm_alloc_page demo_pmm)) \<and> fst (pmm_alloc_page demo_pmm) \<noteq> PMM_INVALID_ADDRESS"
proof -
  have "free_set demo_pmm \<noteq> {}" by (simp add: demo_pmm_free)
  then show ?thesis
    using pmm_alloc_page_correct [of demo_pmm "fst (pmm_alloc_page demo_pmm)" "snd (pmm_alloc_page demo_pmm)"]
      demo_pmm_inv by simp
qed

text \<open>C3. Freeing a frame gives back one reference and nothing else; a frame that holds none is
  refused and the state is unchanged, so a frame cannot be freed twice.\<close>

theorem pmm_free_page_correct:
  assumes "pmm_inv s" "a \<noteq> TOP_PAGE" "pmm_free_page a s = (ok, t)"
  shows "pmm_inv t \<and> (ok \<longleftrightarrow> 0 < frame_refs s a) \<and> (\<not> ok \<longrightarrow> t = s) \<and>
    frame_refs t = (frame_refs s)(a := frame_refs s a - 1)"
proof (cases "frame_refs s a = 0")
  case True
  with pmm_free_page_unreferenced [OF assms(1,2) True] assms show ?thesis by (auto simp: fun_upd_idem_iff)
next
  case False
  then show ?thesis using pmm_kernel.free_live [OF assms(1), of a] assms(3) by auto
qed

theorem pmm_free_page_correct_witness:
  "frame_refs (snd (pmm_free_page 0x2000 demo_pmm)) 0x2000 = 1 \<and> \<not> fst (pmm_free_page 0x3000 demo_pmm)"
  using pmm_free_page_correct [of demo_pmm "0x2000" "fst (pmm_free_page 0x2000 demo_pmm)" "snd (pmm_free_page 0x2000 demo_pmm)"]
    pmm_free_page_correct [of demo_pmm "0x3000" "fst (pmm_free_page 0x3000 demo_pmm)" "snd (pmm_free_page 0x3000 demo_pmm)"]
    demo_pmm_inv demo_pmm_refs by (simp add: TOP_PAGE_def)

text \<open>C4. A contiguous allocation returns the first of the requested number of consecutive frames,
  none of which had a reference; each of them has one afterwards and no other frame changes.\<close>

theorem pmm_alloc_contiguous_correct:
  assumes "pmm_inv s" "pmm_alloc_contiguous n s = (a, t)" "a \<noteq> PMM_INVALID_ADDRESS"
  shows "pmm_inv t \<and> n \<noteq> 0 \<and> (\<forall>f \<in> run_frames a (unat n). frame_refs s f = 0) \<and>
    frame_refs t = (\<lambda>f. if f \<in> run_frames a (unat n) then 1 else frame_refs s f)"
  using assms(1,2)
proof (cases rule: pmm_alloc_contiguous_cases)
  case (run p)
  then show ?thesis
    using take_run_inv [OF assms(1) run(4,5)] take_run_refs [OF assms(1) run(4,5)] by auto
qed (use assms(3) in simp)

theorem pmm_alloc_contiguous_correct_witness:
  "pmm_alloc_contiguous 1 demo_pmm = (0x3000, snd (take_run 1 3 demo_pmm)) \<and>
   frame_refs (snd (take_run 1 3 demo_pmm)) 0x3000 = 1"
proof -
  have "[0 ..< 4] = [0, 1, 2, 3 :: nat]" by (simp add: upt_rec)
  then have "find_run demo_pmm 1 0 4 = Some 3" by (simp add: find_run_least free_at_def demo_pmm_test)
  moreover have "search_start demo_pmm = 0" "page_count demo_pmm = 4" "free_pages demo_pmm = 1"
    by (simp_all add: demo_pmm_def)
  ultimately have al: "pmm_alloc_contiguous 1 demo_pmm = (0x3000, snd (take_run 1 3 demo_pmm))"
    by (simp add: pmm_alloc_contiguous_def) (simp add: take_run_def)
  have "0x3000 \<in> run_frames 0x3000 (unat (1 :: u64))" by (simp add: run_frames_def)
  with al pmm_alloc_contiguous_correct [OF demo_pmm_inv al] show ?thesis
    by (simp add: PMM_INVALID_ADDRESS_def)
qed

text \<open>C5. A frame with more references than a sequence of operations gives back stays referenced
  through the whole sequence, whatever else is allocated, retained and freed in between; so no
  allocation in it can hand the frame out again.\<close>

theorem pmm_live_frame_safe:
  assumes "pmm_inv s"
    "\<forall>op \<in> set ops. \<forall>b. op = Frame_Free b \<or> op = Frame_Retain b \<longrightarrow> b \<noteq> TOP_PAGE"
    "count_list ops (Frame_Free a) < frame_refs s a"
  defines "t \<equiv> fold (frame_step pmm_alloc_page pmm_free_page pmm_retain_page) ops s"
  shows "pmm_inv t \<and> 0 < frame_refs t a \<and> fst (pmm_alloc_page t) \<noteq> a"
proof -
  have k: "pmm_inv t" "frame_refs s a \<le> frame_refs t a + count_list ops (Frame_Free a)"
    using pmm_kernel.trace_keeps [of s ops a] assms(1-3) by (auto simp: t_def)
  then have pos: "0 < frame_refs t a" using assms(3) by linarith
  have "a \<noteq> PMM_INVALID_ADDRESS"
    using frame_refs_pos_accepted(2) [OF k(1) pos] by (auto simp: address_rejected_def)
  then have "fst (pmm_alloc_page t) \<noteq> a"
    using pmm_kernel.alloc_fresh [OF k(1), of "fst (pmm_alloc_page t)" "snd (pmm_alloc_page t)"] pos by auto
  with k(1) pos show ?thesis by blast
qed

theorem pmm_live_frame_safe_witness:
  "0 < frame_refs (fold (frame_step pmm_alloc_page pmm_free_page pmm_retain_page)
     [Frame_Free 0x2000, Frame_Alloc] demo_pmm) 0x2000"
  using pmm_live_frame_safe [of demo_pmm "[Frame_Free 0x2000, Frame_Alloc]" "0x2000"]
    demo_pmm_inv demo_pmm_refs by (simp add: TOP_PAGE_def)

text \<open>C6. Allocation for user space never takes one of the last 4 MiB of frames: after it succeeds
  at least 1024 frames are still free.\<close>

theorem pmm_alloc_user_page_reserve:
  assumes "pmm_inv s" "pmm_alloc_user_page s = (a, t)" "a \<noteq> PMM_INVALID_ADDRESS"
  shows "1024 \<le> card (free_set t) \<and> card (free_set t) + 1 = card (free_set s)"
proof -
  note A = alloc_page_with_reserve_refs [OF assms(1) assms(2) [unfolded pmm_alloc_user_page_def]]
  have gt: "1024 < unat (free_pages s)"
    using A(2) assms(3) by (simp add: PMM_KERNEL_RESERVE_PAGES_def word_le_nat_alt)
  have "unat (free_pages t) = unat (free_pages s) - 1"
    using A(4) assms(3) gt by (subst unat_minus_one [symmetric]) auto
  then show ?thesis using gt pmm_invD(5) [OF assms(1)] pmm_invD(5) [OF A(1)] by simp
qed

theorem pmm_alloc_user_page_reserve_witness:
  "1024 \<le> card (free_set (snd (pmm_alloc_user_page demo_big)))"
proof -
  let ?r = "pmm_alloc_user_page demo_big"
  have "fst ?r \<noteq> PMM_INVALID_ADDRESS"
    using alloc_page_with_reserve_refs(2) [OF demo_big_inv, of PMM_KERNEL_RESERVE_PAGES "fst ?r" "snd ?r"]
    by (simp add: pmm_alloc_user_page_def) (simp add: demo_big_def PMM_KERNEL_RESERVE_PAGES_def)
  then show ?thesis
    using pmm_alloc_user_page_reserve [OF demo_big_inv, of "fst ?r" "snd ?r"] by simp
qed

end
