(* ===== verification/Vmm.thy ===== *)
theory Vmm
  imports Pmm
begin

text \<open>
  Page tables, \<^verbatim>\<open>src/mm/vmm.c\<close> without the operations that allocate \<^verbatim>\<open>struct vmm_space\<close> objects from
  the kernel heap (those are in \<^verbatim>\<open>Vmm_Space\<close>, above the heap).

  Physical memory is \<open>mm_frames\<close>: for the physical address of a page frame, its 512 words. The
  kernel reaches a frame through the higher-half direct map, \<open>pmm_physical_to_virtual\<close>; since that
  map is a translation by a constant the model indexes physical memory directly. A pointer to
  a \<^verbatim>\<open>struct vmm_space\<close> is NULL, the address of the static \<^verbatim>\<open>kernel_space\<close>, or a heap address, whose
  \<^verbatim>\<open>pml4_physical\<close> field is read from \<open>mm_spaces\<close>. \<open>mm_cr3\<close> is the CR3 register and \<open>mm_flushed\<close> the
  list of addresses given to \<^verbatim>\<open>invlpg\<close>, latest first. \<^verbatim>\<open>vmm_lock\<close> makes every operation atomic.
\<close>

section \<open>State\<close>

record mm_state =
  mm_pmm :: pmm_state
  mm_frames :: "u64 \<Rightarrow> nat \<Rightarrow> u64"
  mm_kernel_pml4 :: u64
  mm_spaces :: "u64 \<Rightarrow> u64"
  mm_cr3 :: u64
  mm_flushed :: "u64 list"

datatype space_ptr = Null_Space | Kernel_Space | Heap_Space u64

definition PAGE_ADDRESS_MASK :: u64 where "PAGE_ADDRESS_MASK = 0x000FFFFFFFFFF000"
definition PAGE_SIZE_FLAG :: u64 where "PAGE_SIZE_FLAG = push_bit 7 1"
definition VMM_PRESENT :: u64 where "VMM_PRESENT = push_bit 0 1"
definition VMM_WRITABLE :: u64 where "VMM_WRITABLE = push_bit 1 1"
definition VMM_USER :: u64 where "VMM_USER = push_bit 2 1"
definition VMM_WRITE_THROUGH :: u64 where "VMM_WRITE_THROUGH = push_bit 3 1"
definition VMM_CACHE_DISABLE :: u64 where "VMM_CACHE_DISABLE = push_bit 4 1"
definition VMM_NO_EXECUTE :: u64 where "VMM_NO_EXECUTE = push_bit 63 1"
definition VMM_COPY_ON_WRITE :: u64 where "VMM_COPY_ON_WRITE = push_bit 9 1"
definition ENTRY_COUNT :: nat where "ENTRY_COUNT = 512"

section \<open>Operations\<close>

definition space_pml4 :: "mm_state \<Rightarrow> space_ptr \<Rightarrow> u64" where
  "space_pml4 st space = (case space of
     Null_Space \<Rightarrow> 0 | Kernel_Space \<Rightarrow> mm_kernel_pml4 st | Heap_Space p \<Rightarrow> mm_spaces st p)"

definition address_is_canonical :: "u64 \<Rightarrow> bool" where
  "address_is_canonical address \<longleftrightarrow>
     drop_bit 48 address = (if address AND push_bit 47 1 \<noteq> 0 then 0xFFFF else 0)"

definition table_physical :: "u64 \<Rightarrow> u64" where
  "table_physical entry = entry AND PAGE_ADDRESS_MASK"

definition write_entry :: "u64 \<Rightarrow> nat \<Rightarrow> u64 \<Rightarrow> mm_state \<Rightarrow> mm_state" where
  "write_entry table i entry st =
     st\<lparr>mm_frames := (mm_frames st)(table := (mm_frames st table)(i := entry))\<rparr>"

definition clear_table :: "u64 \<Rightarrow> mm_state \<Rightarrow> mm_state" where
  "clear_table table st = fold (\<lambda>i. write_entry table i 0) [0 ..< ENTRY_COUNT] st"

definition mm_alloc_page :: "mm_state \<Rightarrow> u64 \<times> mm_state" where
  "mm_alloc_page st = (case pmm_alloc_page (mm_pmm st) of (a, p) \<Rightarrow> (a, st\<lparr>mm_pmm := p\<rparr>))"

definition mm_free_page :: "u64 \<Rightarrow> mm_state \<Rightarrow> mm_state" where
  "mm_free_page a st = st\<lparr>mm_pmm := snd (pmm_free_page a (mm_pmm st))\<rparr>"

definition table_is_empty :: "mm_state \<Rightarrow> u64 \<Rightarrow> bool" where
  "table_is_empty st table \<longleftrightarrow>
     list_all (\<lambda>i. mm_frames st table i AND VMM_PRESENT = 0) [0 ..< ENTRY_COUNT]"

definition create_table :: "u64 \<Rightarrow> nat \<Rightarrow> u64 \<Rightarrow> mm_state \<Rightarrow> bool \<times> mm_state" where
  "create_table table i flags st =
     (case mm_alloc_page st of (physical, st1) \<Rightarrow>
        if physical = PMM_INVALID_ADDRESS then (False, st1)
        else (True, write_entry table i
               (physical OR VMM_PRESENT OR VMM_WRITABLE OR (flags AND VMM_USER))
               (clear_table physical st1)))"

definition indices :: "u64 \<Rightarrow> nat list" where
  "indices virtual_address =
     map (\<lambda>shift. unat (drop_bit shift virtual_address AND 0x1FF)) [39, 30, 21, 12]"

definition invlpg :: "u64 \<Rightarrow> u64 \<Rightarrow> mm_state \<Rightarrow> mm_state" where
  "invlpg pml4 address st =
     (if mm_cr3 st AND PAGE_ADDRESS_MASK = pml4 then st\<lparr>mm_flushed := address # mm_flushed st\<rparr> else st)"

text \<open>
  The descent of \<open>map_page_locked\<close> through the three upper levels. \<open>created\<close> is the pair of arrays
  \<^verbatim>\<open>created_entries\<close> and \<^verbatim>\<open>created_pages\<close>, latest first; None is the \<^verbatim>\<open>goto rollback\<close>.
\<close>

fun walk_create ::
  "nat list \<Rightarrow> u64 \<Rightarrow> u64 \<Rightarrow> (u64 \<times> nat \<times> u64) list \<Rightarrow> mm_state \<Rightarrow>
   u64 option \<times> (u64 \<times> nat \<times> u64) list \<times> mm_state" where
  "walk_create [] flags table created st = (Some table, created, st)"
| "walk_create (i # is) flags table created st =
     (let entry = mm_frames st table i in
      if entry AND VMM_PRESENT = 0 then
        (case create_table table i flags st of
           (False, st1) \<Rightarrow> (None, created, st1)
         | (True, st1) \<Rightarrow>
             let child = table_physical (mm_frames st1 table i)
             in walk_create is flags child ((table, i, child) # created) st1)
      else if entry AND PAGE_SIZE_FLAG \<noteq> 0 then (None, created, st)
      else walk_create is flags (table_physical entry) created st)"

fun rollback_tables :: "(u64 \<times> nat \<times> u64) list \<Rightarrow> mm_state \<Rightarrow> mm_state" where
  "rollback_tables [] st = st"
| "rollback_tables ((table, i, page) # created) st =
     rollback_tables created (mm_free_page page (write_entry table i 0 st))"

fun mark_user :: "nat list \<Rightarrow> u64 \<Rightarrow> mm_state \<Rightarrow> mm_state" where
  "mark_user [] table st = st"
| "mark_user (i # is) table st =
     (let st1 = write_entry table i (mm_frames st table i OR VMM_USER) st
      in mark_user is (table_physical (mm_frames st1 table i)) st1)"

definition map_rejected :: "space_ptr \<Rightarrow> u64 \<Rightarrow> u64 \<Rightarrow> u64 \<Rightarrow> bool" where
  "map_rejected space virtual_address physical_address flags \<longleftrightarrow>
     space = Null_Space \<or> \<not> address_is_canonical virtual_address \<or>
     virtual_address mod 4096 \<noteq> 0 \<or> physical_address mod 4096 \<noteq> 0 \<or>
     physical_address = PMM_INVALID_ADDRESS \<or>
     (flags AND VMM_WRITABLE \<noteq> 0 \<and> flags AND VMM_NO_EXECUTE = 0) \<or>
     (flags AND VMM_USER \<noteq> 0 \<and>
        (0x0000800000000000 \<le> virtual_address \<or> space = Kernel_Space)) \<or>
     (0xFFFF800000000000 \<le> virtual_address \<and> space \<noteq> Kernel_Space)"

definition leaf_entry :: "u64 \<Rightarrow> u64 \<Rightarrow> u64" where
  "leaf_entry physical_address flags =
     physical_address OR VMM_PRESENT OR
     (flags AND (VMM_WRITABLE OR VMM_USER OR VMM_WRITE_THROUGH OR VMM_CACHE_DISABLE OR
                 VMM_NO_EXECUTE OR VMM_COPY_ON_WRITE))"

definition map_page_locked :: "space_ptr \<Rightarrow> u64 \<Rightarrow> u64 \<Rightarrow> u64 \<Rightarrow> mm_state \<Rightarrow> bool \<times> mm_state" where
  "map_page_locked space virtual_address physical_address flags st =
     (if map_rejected space virtual_address physical_address flags then (False, st)
      else
        let upper = take 3 (indices virtual_address);
            last_index = indices virtual_address ! 3;
            pml4 = space_pml4 st space
        in (case walk_create upper flags pml4 [] st of
              (None, created, st1) \<Rightarrow> (False, rollback_tables created st1)
            | (Some table, created, st1) \<Rightarrow>
                if mm_frames st1 table last_index AND VMM_PRESENT \<noteq> 0
                then (False, rollback_tables created st1)
                else
                  let st2 = write_entry table last_index (leaf_entry physical_address flags) st1;
                      st3 = (if flags AND VMM_USER \<noteq> 0 then mark_user upper pml4 st2 else st2)
                  in (True, invlpg pml4 virtual_address st3)))"

definition vmm_space_map_page :: "space_ptr \<Rightarrow> u64 \<Rightarrow> u64 \<Rightarrow> u64 \<Rightarrow> mm_state \<Rightarrow> bool \<times> mm_state" where
  "vmm_space_map_page space virtual_address physical_address flags st =
     map_page_locked space virtual_address physical_address flags st"

definition vmm_map_page :: "u64 \<Rightarrow> u64 \<Rightarrow> u64 \<Rightarrow> mm_state \<Rightarrow> bool \<times> mm_state" where
  "vmm_map_page virtual_address physical_address flags st =
     vmm_space_map_page Kernel_Space virtual_address physical_address flags st"

text \<open>
  The descent shared by the operations that do not create tables: the tables visited, lowest
  first, or None where an entry on the way is absent or maps a large page.
\<close>

fun walk_tables :: "mm_state \<Rightarrow> nat list \<Rightarrow> u64 \<Rightarrow> u64 list \<Rightarrow> u64 list option" where
  "walk_tables st [] table visited = Some (table # visited)"
| "walk_tables st (i # is) table visited =
     (let entry = mm_frames st table i in
      if entry AND VMM_PRESENT = 0 \<or> entry AND PAGE_SIZE_FLAG \<noteq> 0 then None
      else walk_tables st is (table_physical entry) (table # visited))"

text \<open>The upward loop of unmapping: free each table that became empty, up to the root.\<close>

fun collapse_tables :: "u64 list \<Rightarrow> nat list \<Rightarrow> mm_state \<Rightarrow> mm_state" where
  "collapse_tables (table # parent # visited) (i # is) st =
     (if \<not> table_is_empty st table then st
      else
        let page = table_physical (mm_frames st parent i)
        in collapse_tables (parent # visited) is (mm_free_page page (write_entry parent i 0 st)))"
| "collapse_tables visited is st = st"

definition unmap_rejected :: "space_ptr \<Rightarrow> u64 \<Rightarrow> bool" where
  "unmap_rejected space virtual_address \<longleftrightarrow>
     \<not> address_is_canonical virtual_address \<or> virtual_address mod 4096 \<noteq> 0 \<or>
     space = Null_Space \<or> (0xFFFF800000000000 \<le> virtual_address \<and> space \<noteq> Kernel_Space)"

definition vmm_space_unmap_page :: "space_ptr \<Rightarrow> u64 \<Rightarrow> mm_state \<Rightarrow> u64 \<times> mm_state" where
  "vmm_space_unmap_page space virtual_address st =
     (if unmap_rejected space virtual_address then (PMM_INVALID_ADDRESS, st)
      else
        let upper = take 3 (indices virtual_address);
            last_index = indices virtual_address ! 3;
            pml4 = space_pml4 st space
        in (case walk_tables st upper pml4 [] of
              None \<Rightarrow> (PMM_INVALID_ADDRESS, st)
            | Some visited \<Rightarrow>
                let table = hd visited; page_entry = mm_frames st table last_index in
                if page_entry AND VMM_PRESENT = 0 then (PMM_INVALID_ADDRESS, st)
                else
                  let st1 = invlpg pml4 virtual_address (write_entry table last_index 0 st)
                  in (table_physical page_entry, collapse_tables visited (rev upper) st1)))"

definition vmm_unmap_page :: "u64 \<Rightarrow> mm_state \<Rightarrow> u64 \<times> mm_state" where
  "vmm_unmap_page virtual_address st = vmm_space_unmap_page Kernel_Space virtual_address st"

text \<open>
  \<open>query_walk\<close> is the loop of \<open>vmm_space_query\<close> from the level with \<open>length is - 1\<close> levels below it;
  \<open>root\<close> marks the first iteration. The result is the pair of output parameters.
\<close>

fun query_walk :: "mm_state \<Rightarrow> u64 \<Rightarrow> bool \<Rightarrow> nat list \<Rightarrow> u64 \<Rightarrow> u64 \<Rightarrow> u64 \<Rightarrow> (u64 \<times> u64) option" where
  "query_walk st virtual_address root [] table effective no_execute = None"
| "query_walk st virtual_address root (i # is) table effective no_execute =
     (let entry = mm_frames st table i in
      if entry AND VMM_PRESENT = 0 \<or> (root \<and> entry AND PAGE_SIZE_FLAG \<noteq> 0) then None
      else
        let effective = effective AND (entry AND (VMM_WRITABLE OR VMM_USER));
            no_execute = no_execute OR (entry AND VMM_NO_EXECUTE)
        in if is = [] \<or> entry AND PAGE_SIZE_FLAG \<noteq> 0
           then
             let size = push_bit (12 + 9 * length is) 1
             in Some (((entry AND PAGE_ADDRESS_MASK) AND NOT (size - 1)) + (virtual_address AND (size - 1)),
                      VMM_PRESENT OR effective OR no_execute OR (entry AND VMM_COPY_ON_WRITE))
           else query_walk st virtual_address False is (table_physical entry) effective no_execute)"

definition query_root :: "u64 \<Rightarrow> u64 \<Rightarrow> mm_state \<Rightarrow> (u64 \<times> u64) option" where
  "query_root pml4 virtual_address st =
     (if \<not> address_is_canonical virtual_address then None
      else query_walk st virtual_address True (indices virtual_address) pml4 (VMM_WRITABLE OR VMM_USER) 0)"

definition vmm_space_query :: "space_ptr \<Rightarrow> u64 \<Rightarrow> mm_state \<Rightarrow> (u64 \<times> u64) option" where
  "vmm_space_query space virtual_address st =
     (if space = Null_Space then None else query_root (space_pml4 st space) virtual_address st)"

definition vmm_space_translate :: "space_ptr \<Rightarrow> u64 \<Rightarrow> mm_state \<Rightarrow> u64" where
  "vmm_space_translate space virtual_address st =
     (case vmm_space_query space virtual_address st of
        None \<Rightarrow> PMM_INVALID_ADDRESS | Some (physical, flags) \<Rightarrow> physical)"

definition vmm_translate :: "u64 \<Rightarrow> mm_state \<Rightarrow> u64" where
  "vmm_translate virtual_address st =
     (case query_root (mm_cr3 st AND PAGE_ADDRESS_MASK) virtual_address st of
        None \<Rightarrow> PMM_INVALID_ADDRESS | Some (physical, flags) \<Rightarrow> physical)"

definition vmm_space_activate :: "space_ptr \<Rightarrow> mm_state \<Rightarrow> mm_state" where
  "vmm_space_activate space st =
     (if space \<noteq> Null_Space then st\<lparr>mm_cr3 := space_pml4 st space\<rparr> else st)"

text \<open>The byte loop that copies one page frame onto another, word by word.\<close>

definition copy_frame :: "u64 \<Rightarrow> u64 \<Rightarrow> mm_state \<Rightarrow> mm_state" where
  "copy_frame source destination st =
     fold (\<lambda>i st. write_entry destination i (mm_frames st source i) st) [0 ..< ENTRY_COUNT] st"

datatype cow_result = Cow_Unhandled | Cow_Resolved | Cow_Out_Of_Memory

definition vmm_space_resolve_cow :: "space_ptr \<Rightarrow> u64 \<Rightarrow> mm_state \<Rightarrow> cow_result \<times> mm_state" where
  "vmm_space_resolve_cow space virtual_address st =
     (if space = Null_Space \<or> \<not> address_is_canonical virtual_address then (Cow_Unhandled, st)
      else
        let upper = take 3 (indices virtual_address);
            last_index = indices virtual_address ! 3;
            pml4 = space_pml4 st space
        in (case walk_tables st upper pml4 [] of
              None \<Rightarrow> (Cow_Unhandled, st)
            | Some visited \<Rightarrow>
                let table = hd visited;
                    old_entry = mm_frames st table last_index;
                    wanted = VMM_PRESENT OR VMM_USER OR VMM_COPY_ON_WRITE;
                    old_physical = table_physical old_entry;
                    references = pmm_page_references (mm_pmm st) old_physical;
                    page_address = virtual_address AND NOT (4096 - 1)
                in if old_entry AND wanted \<noteq> wanted \<or> old_entry AND VMM_WRITABLE \<noteq> 0
                   then (Cow_Unhandled, st)
                   else if references = 0 then (Cow_Unhandled, st)
                   else if references = 1 then
                     (Cow_Resolved, invlpg pml4 page_address (write_entry table last_index
                        ((old_entry OR VMM_WRITABLE) AND NOT VMM_COPY_ON_WRITE) st))
                   else
                     (case pmm_alloc_user_page (mm_pmm st) of (new_physical, p) \<Rightarrow>
                        let st1 = st\<lparr>mm_pmm := p\<rparr> in
                        if new_physical = PMM_INVALID_ADDRESS then (Cow_Out_Of_Memory, st1)
                        else
                          let st2 = mm_free_page old_physical (copy_frame old_physical new_physical st1);
                              new_entry = new_physical OR (old_entry AND NOT PAGE_ADDRESS_MASK)
                          in (Cow_Resolved, invlpg pml4 page_address (write_entry table last_index
                                ((new_entry OR VMM_WRITABLE) AND NOT VMM_COPY_ON_WRITE) st2)))))"

end
