(* ===== verification/Page_Tree.thy ===== *)
theory Page_Tree
  imports Vmm
begin

text \<open>
  The structure the table words of \<^verbatim>\<open>vmm.c\<close> form: which table a path of indices leads to
  (\<open>walk\<close>), which entry maps an address (\<open>find_entry\<close>), when the tables under a root form a tree
  (\<open>tree_ok\<close>), and what writing one entry does to all of this. The lemmas speak of an arbitrary
  memory of table words, so they serve every operation of the component.
\<close>

section \<open>Entry bits\<close>

lemma and_push_bit_1_eq_0 [simp]: "(x :: u64) AND push_bit k 1 = 0 \<longleftrightarrow> \<not> bit x k"
  by (simp add: push_bit_of_1 and_exp_eq_0_iff_not_bit)

lemma flag_test [simp]:
  "x AND VMM_PRESENT = 0 \<longleftrightarrow> \<not> bit x 0" "x AND VMM_WRITABLE = 0 \<longleftrightarrow> \<not> bit x 1"
  "x AND VMM_USER = 0 \<longleftrightarrow> \<not> bit x 2" "x AND VMM_NO_EXECUTE = 0 \<longleftrightarrow> \<not> bit x 63"
  "x AND VMM_COPY_ON_WRITE = 0 \<longleftrightarrow> \<not> bit x 9" "x AND PAGE_SIZE_FLAG = 0 \<longleftrightarrow> \<not> bit x 7"
  by (simp_all only: VMM_PRESENT_def VMM_WRITABLE_def VMM_USER_def VMM_NO_EXECUTE_def
      VMM_COPY_ON_WRITE_def PAGE_SIZE_FLAG_def and_push_bit_1_eq_0)

lemma bit_push_bit_1_u64: "k < 64 \<Longrightarrow> bit (push_bit k (1 :: u64)) n \<longleftrightarrow> n = k"
  by (auto simp: bit_push_bit_iff bit_1_iff simp del: push_bit_of_1)

lemma bit_flag:
  "bit VMM_PRESENT n \<longleftrightarrow> n = 0" "bit VMM_WRITABLE n \<longleftrightarrow> n = 1" "bit VMM_USER n \<longleftrightarrow> n = 2"
  "bit VMM_WRITE_THROUGH n \<longleftrightarrow> n = 3" "bit VMM_CACHE_DISABLE n \<longleftrightarrow> n = 4"
  "bit VMM_NO_EXECUTE n \<longleftrightarrow> n = 63" "bit VMM_COPY_ON_WRITE n \<longleftrightarrow> n = 9"
  "bit PAGE_SIZE_FLAG n \<longleftrightarrow> n = 7"
  unfolding VMM_PRESENT_def VMM_WRITABLE_def VMM_USER_def VMM_WRITE_THROUGH_def
    VMM_CACHE_DISABLE_def VMM_NO_EXECUTE_def VMM_COPY_ON_WRITE_def PAGE_SIZE_FLAG_def
  by (rule bit_push_bit_1_u64, simp)+

lemma PAGE_ADDRESS_MASK_mask: "PAGE_ADDRESS_MASK = push_bit 12 (mask 40)"
  by (simp add: PAGE_ADDRESS_MASK_def mask_eq_exp_minus_1 push_bit_eq_mult)

lemma bit_PAGE_ADDRESS_MASK: "bit PAGE_ADDRESS_MASK n \<longleftrightarrow> 12 \<le> n \<and> n < 52"
  by (auto simp: PAGE_ADDRESS_MASK_mask bit_push_bit_iff bit_mask_iff)

lemma bit_table_physical: "bit (table_physical e) n \<longleftrightarrow> bit e n \<and> 12 \<le> n \<and> n < 52"
  by (simp add: table_physical_def bit_and_iff bit_PAGE_ADDRESS_MASK)

lemmas entry_bits = bit_flag bit_PAGE_ADDRESS_MASK bit_table_physical bit_or_iff bit_and_iff
  bit_not_iff

text \<open>An address that can stand in an entry: page aligned and below \<open>2 ^ 52\<close>.\<close>

definition is_frame :: "u64 \<Rightarrow> bool" where
  "is_frame a \<longleftrightarrow> table_physical a = a"

lemma is_frame_bit: "is_frame a \<Longrightarrow> bit a n \<Longrightarrow> 12 \<le> n \<and> n < 52"
  by (metis bit_table_physical is_frame_def)

lemma is_frame_table_physical [simp]: "is_frame (table_physical e)"
  by (auto simp: is_frame_def intro!: bit_word_eqI simp: bit_table_physical)

lemma table_physical_unat: "unat (table_physical e) = unat e mod 2 ^ 52 div 4096 * 4096"
proof -
  have "table_physical e = (e AND mask 52) AND NOT (mask 12)"
    by (rule bit_word_eqI) (auto simp: bit_table_physical bit_simps)
  then show ?thesis by (simp only: unat_and_not_mask_u64 unat_and_mask_u64) simp
qed

lemma is_frame_iff: "is_frame a \<longleftrightarrow> a mod 4096 = 0 \<and> unat a < 2 ^ 52"
proof -
  have "is_frame a \<longleftrightarrow> unat a = unat a mod 2 ^ 52 div 4096 * 4096"
    unfolding is_frame_def u64_eq_iff_unat table_physical_unat by (rule eq_commute)
  also have "\<dots> \<longleftrightarrow> unat a mod 4096 = 0 \<and> unat a < 2 ^ 52"
  proof
    assume eq: "unat a = unat a mod 2 ^ 52 div 4096 * 4096"
    have "unat a mod 2 ^ 52 div 4096 * 4096 \<le> unat a mod 2 ^ 52" by (rule div_times_less_eq_dividend)
    also have "\<dots> < 2 ^ 52" by simp
    finally show "unat a mod 4096 = 0 \<and> unat a < 2 ^ 52" using eq by (metis mod_mult_self2_is_0)
  next
    assume "unat a mod 4096 = 0 \<and> unat a < 2 ^ 52"
    then show "unat a = unat a mod 2 ^ 52 div 4096 * 4096" by (auto simp: mod_0_imp_dvd)
  qed
  finally show ?thesis by (simp add: u64_mod_4096_iff)
qed

lemma is_frame_not_top: "is_frame a \<Longrightarrow> a \<noteq> TOP_PAGE"
  by (auto simp: is_frame_iff TOP_PAGE_def)

lemma is_frame_not_invalid: "is_frame a \<Longrightarrow> a \<noteq> PMM_INVALID_ADDRESS"
  by (auto simp: is_frame_iff PMM_INVALID_ADDRESS_def)

section \<open>Paths through the tables\<close>

fun walk :: "(u64 \<Rightarrow> nat \<Rightarrow> u64) \<Rightarrow> u64 \<Rightarrow> nat list \<Rightarrow> u64 option" where
  "walk m t [] = Some t"
| "walk m t (i # is) =
     (if bit (m t i) 0 \<and> \<not> bit (m t i) 7 then walk m (table_physical (m t i)) is else None)"

fun find_entry :: "(u64 \<Rightarrow> nat \<Rightarrow> u64) \<Rightarrow> u64 \<Rightarrow> nat list \<Rightarrow> (u64 \<times> nat) option" where
  "find_entry m t [] = None"
| "find_entry m t (i # is) =
     (if \<not> bit (m t i) 0 then None
      else if is = [] \<or> bit (m t i) 7 then Some (m t i, length is)
      else find_entry m (table_physical (m t i)) is)"

definition path :: "nat \<Rightarrow> nat list \<Rightarrow> bool" where
  "path n q \<longleftrightarrow> length q \<le> n \<and> (\<forall>i \<in> set q. i < 512)"

lemma path_Nil [simp]: "path n []"
  by (simp add: path_def)

lemma path_append: "path n (p @ q) \<Longrightarrow> path n p"
  by (simp add: path_def)

lemma path_mono: "path n p \<Longrightarrow> n \<le> k \<Longrightarrow> path k p"
  by (simp add: path_def)

lemma path_snoc: "path n p \<Longrightarrow> i < 512 \<Longrightarrow> path (Suc n) (p @ [i])"
  by (auto simp: path_def)

lemma path_snocD: "path (Suc n) (p @ [i]) \<Longrightarrow> path n p \<and> i < 512"
  by (auto simp: path_def)

lemma walk_append: "walk m t (p @ q) = (case walk m t p of None \<Rightarrow> None | Some u \<Rightarrow> walk m u q)"
  by (induction p arbitrary: t) auto

lemma walk_snoc:
  "walk m t (p @ [i]) = (case walk m t p of None \<Rightarrow> None
     | Some u \<Rightarrow> if bit (m u i) 0 \<and> \<not> bit (m u i) 7 then Some (table_physical (m u i)) else None)"
  by (simp add: walk_append split: option.split)

lemma walk_snocE:
  assumes "walk m t (p @ [i]) = Some v"
  obtains u where "walk m t p = Some u" "bit (m u i) 0" "\<not> bit (m u i) 7" "v = table_physical (m u i)"
  using assms by (auto simp: walk_snoc split: option.splits if_splits)

lemma walk_frame: "walk m t p = Some u \<Longrightarrow> is_frame t \<Longrightarrow> is_frame u"
  by (induction p arbitrary: t) (auto split: if_splits)

lemma find_entry_append:
  "walk m t p = Some u \<Longrightarrow> q \<noteq> [] \<Longrightarrow> find_entry m t (p @ q) = find_entry m u q"
  by (induction p arbitrary: t) (auto split: if_splits)

section \<open>Trees\<close>

text \<open>
  Under a root that satisfies \<open>tree_ok\<close> no table is reached by two paths, and the entries that
  lead to tables neither restrict writing nor execution: permissions belong to the leaves.
\<close>

definition tree_ok :: "(u64 \<Rightarrow> nat \<Rightarrow> u64) \<Rightarrow> u64 \<Rightarrow> bool" where
  "tree_ok m root \<longleftrightarrow> is_frame root \<and>
     (\<forall>p q t. path 3 p \<longrightarrow> path 3 q \<longrightarrow> walk m root p = Some t \<longrightarrow> walk m root q = Some t \<longrightarrow> p = q) \<and>
     (\<forall>p t i. path 2 p \<longrightarrow> i < 512 \<longrightarrow> walk m root p = Some t \<longrightarrow> bit (m t i) 0 \<longrightarrow> \<not> bit (m t i) 7 \<longrightarrow>
        bit (m t i) 1 \<and> \<not> bit (m t i) 63)"

definition tables_of :: "(u64 \<Rightarrow> nat \<Rightarrow> u64) \<Rightarrow> u64 \<Rightarrow> u64 set" where
  "tables_of m root = {t. \<exists>p. path 3 p \<and> walk m root p = Some t}"

lemma tree_unique:
  "tree_ok m root \<Longrightarrow> walk m root p = Some t \<Longrightarrow> walk m root q = Some t \<Longrightarrow> path 3 p \<Longrightarrow> path 3 q \<Longrightarrow> p = q"
  unfolding tree_ok_def by blast

lemma tree_perms:
  "tree_ok m root \<Longrightarrow> path 2 p \<Longrightarrow> i < 512 \<Longrightarrow> walk m root p = Some t \<Longrightarrow> bit (m t i) 0 \<Longrightarrow> \<not> bit (m t i) 7 \<Longrightarrow>
   bit (m t i) 1 \<and> \<not> bit (m t i) 63"
  unfolding tree_ok_def by blast

lemma tree_frame: "tree_ok m root \<Longrightarrow> is_frame root"
  by (simp add: tree_ok_def)

lemma tables_ofI: "walk m root p = Some t \<Longrightarrow> path 3 p \<Longrightarrow> t \<in> tables_of m root"
  by (auto simp: tables_of_def)

lemma tables_of_frame: "tree_ok m root \<Longrightarrow> t \<in> tables_of m root \<Longrightarrow> is_frame t"
  using walk_frame tree_frame by (auto simp: tables_of_def)

subsection \<open>Two memories with the same tree\<close>

text \<open>
  \<open>same_entry\<close> ignores what an absent entry holds and whether an entry leading to a table has the
  user bit: neither changes a translation. Memories related by \<open>same_tree\<close> have the same tables at
  the same paths with the same entries up to this.
\<close>

definition same_entry :: "bool \<Rightarrow> u64 \<Rightarrow> u64 \<Rightarrow> bool" where
  "same_entry inner e e' \<longleftrightarrow> e = e' \<or> (\<not> bit e 0 \<and> \<not> bit e' 0) \<or>
     (inner \<and> bit e 0 \<and> \<not> bit e 7 \<and> e' = e OR VMM_USER)"

definition same_tree :: "(u64 \<Rightarrow> nat \<Rightarrow> u64) \<Rightarrow> (u64 \<Rightarrow> nat \<Rightarrow> u64) \<Rightarrow> u64 \<Rightarrow> bool" where
  "same_tree m m' root \<longleftrightarrow>
     (\<forall>p t j. path 3 p \<longrightarrow> walk m root p = Some t \<longrightarrow> j < 512 \<longrightarrow>
        same_entry (length p < 3) (m t j) (m' t j))"

lemma table_physical_user: "table_physical (e OR VMM_USER) = table_physical e"
  by (rule bit_word_eqI) (auto simp: entry_bits)

lemma same_entryD:
  assumes "same_entry inner e e'"
  shows "bit e' 0 = bit e 0" "bit e 0 \<Longrightarrow> bit e' 7 = bit e 7" "bit e 0 \<Longrightarrow> table_physical e' = table_physical e"
    "bit e 0 \<Longrightarrow> bit e' 1 = bit e 1" "bit e 0 \<Longrightarrow> bit e' 63 = bit e 63"
    "bit e 0 \<Longrightarrow> \<not> inner \<or> bit e 7 \<Longrightarrow> e' = e"
  using assms by (auto simp: same_entry_def entry_bits table_physical_user)

lemma same_entry_trans:
  "same_entry b e f \<Longrightarrow> same_entry b f g \<Longrightarrow> same_entry b e g"
proof -
  have *: "(x OR VMM_USER) OR VMM_USER = x OR VMM_USER" for x :: u64
    by (simp add: or.assoc)
  assume "same_entry b e f" "same_entry b f g"
  then show ?thesis by (auto simp: same_entry_def entry_bits *)
qed

lemma same_tree_refl [simp]: "same_tree m m root"
  by (simp add: same_tree_def same_entry_def)

lemma same_tree_walk:
  assumes st: "same_tree m m' root" and "path 3 p"
  shows "walk m' root p = walk m root p"
  using assms(2)
proof (induction p rule: rev_induct)
  case (snoc i p)
  have p: "path 2 p" "i < 512" using path_snocD [of 2 p i] snoc.prems by (simp_all add: numeral_3_eq_3)
  then have IH: "walk m' root p = walk m root p" using snoc.IH path_mono [of 2 p 3] by simp
  show ?case
  proof (cases "walk m root p")
    case (Some t)
    have "path 3 p" using p(1) path_mono by fastforce
    then have "same_entry (length p < 3) (m t i) (m' t i)" using st Some p(2) by (simp add: same_tree_def)
    from same_entryD [OF this] show ?thesis by (auto simp: walk_snoc IH Some)
  qed (simp add: walk_snoc IH)
qed simp

lemma same_tree_trans:
  assumes "same_tree m m' root" "same_tree m' m'' root"
  shows "same_tree m m'' root"
  using assms same_entry_trans same_tree_walk [OF assms(1)] unfolding same_tree_def by metis

lemma same_tree_tables: "same_tree m m' root \<Longrightarrow> tables_of m' root = tables_of m root"
  using same_tree_walk by (auto simp: tables_of_def)

lemma same_tree_ok:
  assumes st: "same_tree m m' root" and ok: "tree_ok m root"
  shows "tree_ok m' root"
proof -
  have w: "walk m' root p = walk m root p" if "path 3 p" for p using same_tree_walk [OF st that] .
  have "bit (m' t i) 1 \<and> \<not> bit (m' t i) 63"
    if p: "path 2 p" "i < 512" "walk m' root p = Some t" "bit (m' t i) 0" "\<not> bit (m' t i) 7" for p t i
  proof -
    have p3: "path 3 p" using p(1) path_mono by fastforce
    then have t: "walk m root p = Some t" using p(3) w by simp
    have "same_entry (length p < 3) (m t i) (m' t i)" using st t p3 p(2) by (simp add: same_tree_def)
    from same_entryD [OF this] tree_perms [OF ok p(1,2) t] p(4,5) show ?thesis by auto
  qed
  then show ?thesis using ok w unfolding tree_ok_def by metis
qed

lemma same_tree_find_entry:
  assumes st: "same_tree m m' root" and p: "path 4 (p @ q)" "q \<noteq> []" "walk m root p = Some t" "length (p @ q) = 4"
  shows "find_entry m' t q = find_entry m t q"
  using p
proof (induction q arbitrary: p t)
  case (Cons i q)
  have p3: "path 3 p" and i: "i < 512" using Cons.prems by (auto simp: path_def)
  then have se: "same_entry (length p < 3) (m t i) (m' t i)" using st Cons.prems by (simp add: same_tree_def)
  note D = same_entryD [OF se]
  show ?case
  proof (cases "bit (m t i) 0 \<and> \<not> bit (m t i) 7 \<and> q \<noteq> []")
    case True
    then have "walk m root (p @ [i]) = Some (table_physical (m t i))"
      using Cons.prems by (simp add: walk_snoc)
    then have "find_entry m' (table_physical (m t i)) q = find_entry m (table_physical (m t i)) q"
      using True Cons.prems by (intro Cons.IH [of "p @ [i]"]) simp_all
    with True D show ?thesis by simp
  next
    case False
    then show ?thesis using D Cons.prems by auto
  qed
qed simp

lemma tree_okI:
  assumes "is_frame root"
    "\<And>p q t. path 3 p \<Longrightarrow> path 3 q \<Longrightarrow> walk m root p = Some t \<Longrightarrow> walk m root q = Some t \<Longrightarrow> p = q"
    "\<And>p i t. path 2 p \<Longrightarrow> i < 512 \<Longrightarrow> walk m root p = Some t \<Longrightarrow> bit (m t i) 0 \<Longrightarrow> \<not> bit (m t i) 7 \<Longrightarrow>
       bit (m t i) 1 \<and> \<not> bit (m t i) 63"
  shows "tree_ok m root"
  using assms unfolding tree_ok_def by blast

section \<open>Writing one entry\<close>

text \<open>
  The two common arguments: what does not pass through the written entry \<open>(t, i)\<close>, reached by the
  path \<open>p\<close>, is as before. Tables outside the tree may change freely.
\<close>

definition agree_but :: "(u64 \<Rightarrow> nat \<Rightarrow> u64) \<Rightarrow> (u64 \<Rightarrow> nat \<Rightarrow> u64) \<Rightarrow> u64 \<Rightarrow> u64 \<Rightarrow> nat \<Rightarrow> bool" where
  "agree_but m m' root t i \<longleftrightarrow>
     (\<forall>u \<in> tables_of m root. \<forall>j < 512. u \<noteq> t \<or> j \<noteq> i \<longrightarrow> m' u j = m u j)"

lemma walk_other:
  assumes ok: "tree_ok m root" and p: "path 3 p" "walk m root p = Some t"
    and ag: "agree_but m m' root t i" and q: "path 3 q" "\<forall>r. q \<noteq> p @ i # r"
  shows "walk m' root q = walk m root q"
  using q
proof (induction q rule: rev_induct)
  case (snoc j q)
  have q3: "path 3 q" and j: "j < 512" using snoc.prems(1) by (auto simp: path_def)
  have "\<forall>r. q \<noteq> p @ i # r" using snoc.prems(2) by fastforce
  then have IH: "walk m' root q = walk m root q" using snoc.IH q3 by blast
  show ?case
  proof (cases "walk m root q")
    case (Some u)
    have "m' u j = m u j"
    proof (cases "u = t \<and> j = i")
      case True
      then have "q = p" using tree_unique [OF ok _ p(2) q3 p(1)] Some by blast
      then show ?thesis using snoc.prems(2) True by fastforce
    next
      case False
      then show ?thesis using ag tables_ofI [OF Some q3] j by (auto simp: agree_but_def)
    qed
    then show ?thesis by (simp add: walk_snoc IH Some)
  qed (simp add: walk_snoc IH)
qed simp

lemma find_entry_other:
  assumes ok: "tree_ok m root" and p: "path 3 p" "walk m root p = Some t"
    and ag: "agree_but m m' root t i"
    and q: "walk m root s = Some u" "path 4 (s @ q)" "length (s @ q) = 4" "\<forall>r. s @ q \<noteq> p @ i # r"
  shows "find_entry m' u q = find_entry m u q"
  using q
proof (induction q arbitrary: s u)
  case (Cons j q)
  have s3: "path 3 s" and j: "j < 512" using Cons.prems by (auto simp: path_def)
  have eq: "m' u j = m u j"
  proof (cases "u = t \<and> j = i")
    case True
    then have "s = p" using tree_unique [OF ok _ p(2) s3 p(1)] Cons.prems(1) by blast
    then show ?thesis using Cons.prems(4) True by simp
  next
    case False
    then show ?thesis using ag tables_ofI [OF Cons.prems(1) s3] j by (auto simp: agree_but_def)
  qed
  show ?case
  proof (cases "bit (m u j) 0 \<and> \<not> bit (m u j) 7 \<and> q \<noteq> []")
    case True
    then have "walk m root (s @ [j]) = Some (table_physical (m u j))"
      using Cons.prems(1) by (simp add: walk_snoc)
    then have "find_entry m' (table_physical (m u j)) q = find_entry m (table_physical (m u j)) q"
      using Cons.prems by (intro Cons.IH [of "s @ [j]"]) simp_all
    with True eq show ?thesis by simp
  qed (use eq in auto)
qed simp

lemma walk_beyond:
  assumes "walk m root (p @ [i]) = Some a" "\<forall>j < 512. \<not> bit (m a j) 0" "path n (p @ i # r)" "r \<noteq> []"
  shows "walk m root (p @ i # r) = None"
proof -
  obtain j r' where r: "r = j # r'" using assms(4) by (cases r) auto
  have "walk m root (p @ i # r) = walk m a r" using walk_append [of m root "p @ [i]" r] assms(1) by simp
  then show ?thesis using assms(2,3) r by (simp add: path_def)
qed

lemma find_beyond:
  assumes "walk m root (p @ [i]) = Some a" "\<forall>j < 512. \<not> bit (m a j) 0" "path n (p @ i # r)" "r \<noteq> []"
  shows "find_entry m root (p @ i # r) = None"
proof -
  obtain j r' where r: "r = j # r'" using assms(4) by (cases r) auto
  have "find_entry m root (p @ i # r) = find_entry m a r"
    using find_entry_append [OF assms(1,4)] by simp
  then show ?thesis using assms(2,3) r by (simp add: path_def)
qed

subsection \<open>Hanging an empty table into the tree\<close>

lemma find_entry_absent:
  "walk m root p = Some t \<Longrightarrow> \<not> bit (m t i) 0 \<Longrightarrow> find_entry m root (p @ i # r) = None"
  by (simp add: find_entry_append)

lemma walk_absent: "walk m root p = Some t \<Longrightarrow> \<not> bit (m t i) 0 \<Longrightarrow> walk m root (p @ i # r) = None"
  by (simp add: walk_append)

lemma attach_table:
  assumes ok: "tree_ok m root" and p: "path 2 p" "walk m root p = Some t" and i: "i < 512"
    and absent: "\<not> bit (m t i) 0" and fresh: "a \<notin> tables_of m root" and frame: "is_frame a"
    and ag: "agree_but m m' root t i" and zero: "\<forall>j < 512. \<not> bit (m' a j) 0"
    and entry: "bit (m' t i) 0" "\<not> bit (m' t i) 7" "table_physical (m' t i) = a"
      "bit (m' t i) 1" "\<not> bit (m' t i) 63"
  shows "walk m' root (p @ [i]) = Some a" "tree_ok m' root" "tables_of m' root = insert a (tables_of m root)"
    "path 4 q \<Longrightarrow> length q = 4 \<Longrightarrow> find_entry m' root q = find_entry m root q"
    "path 3 q \<Longrightarrow> walk m root q = Some u \<Longrightarrow> walk m' root q = Some u"
proof -
  have p3: "path 3 p" using p(1) path_mono by fastforce
  note other = walk_other [OF ok p3 p(2) ag]
  have keep: "walk m' root q = Some u" if q: "path 3 q" "walk m root q = Some u" for q u
  proof -
    have "\<forall>r. q \<noteq> p @ i # r" using walk_absent [of m root p t i] p(2) absent q(2) by auto
    then show ?thesis using other q by simp
  qed
  then show "path 3 q \<Longrightarrow> walk m root q = Some u \<Longrightarrow> walk m' root q = Some u" by blast
  show wa: "walk m' root (p @ [i]) = Some a" using keep [OF p3 p(2)] entry by (simp add: walk_snoc)
  have pi: "path 3 (p @ [i])" using path_snoc [OF p(1) i] by (simp add: numeral_3_eq_3)
  have only: "q = p @ [i] \<and> u = a \<or> walk m root q = Some u"
    if q: "path 3 q" "walk m' root q = Some u" for q u
  proof (cases "\<exists>r. q = p @ i # r")
    case True
    then obtain r where r: "q = p @ i # r" by blast
    then have "r = []" using walk_beyond [OF wa zero, of 3 r] q by auto
    then show ?thesis using r wa q(2) by simp
  next
    case False
    then show ?thesis using other q by simp
  qed
  show "tables_of m' root = insert a (tables_of m root)"
    using keep only wa pi unfolding tables_of_def by blast
  show "find_entry m' root q = find_entry m root q" if q: "path 4 q" "length q = 4" for q
  proof (cases "\<exists>r. q = p @ i # r")
    case True
    then obtain r where r: "q = p @ i # r" by blast
    then have "r \<noteq> []" using q p(1) by (auto simp: path_def)
    then show ?thesis using find_beyond [OF wa zero, of 4 r] find_entry_absent [OF p(2) absent] q(1) r by simp
  next
    case False
    then show ?thesis using find_entry_other [OF ok p3 p(2) ag, of "[]" root q] q by simp
  qed
  have uniq: "q = q'" if "path 3 q" "path 3 q'" "walk m' root q = Some u" "walk m' root q' = Some u" for q q' u
    using only [OF that(1,3)] only [OF that(2,4)] tree_unique [OF ok _ _ that(1,2)]
      tables_ofI [OF _ that(1)] tables_ofI [OF _ that(2)] fresh by blast
  have "bit (m' u j) 1 \<and> \<not> bit (m' u j) 63"
    if q: "path 2 q" "j < 512" "walk m' root q = Some u" "bit (m' u j) 0" "\<not> bit (m' u j) 7" for q u j
  proof -
    have q3: "path 3 q" using q(1) path_mono by fastforce
    show ?thesis
    proof (cases "u = a")
      case False
      then have u: "walk m root q = Some u" using only [OF q3 q(3)] by blast
      show ?thesis
      proof (cases "u = t \<and> j = i")
        case False
        then have "m' u j = m u j" using ag tables_ofI [OF u q3] q(2) by (auto simp: agree_but_def)
        then show ?thesis using tree_perms [OF ok q(1,2) u] q(4,5) by simp
      qed (use entry in simp)
    qed (use zero q in simp)
  qed
  then show "tree_ok m' root" using uniq by (intro tree_okI [OF tree_frame [OF ok]])
qed

subsection \<open>Taking an empty table out\<close>

lemma detach_table:
  assumes ok: "tree_ok m root" and p: "path 2 p" "walk m root p = Some t" and i: "i < 512"
    and a: "walk m root (p @ [i]) = Some a" and empty: "\<forall>j < 512. \<not> bit (m a j) 0"
    and ag: "agree_but m m' root t i" and absent: "\<not> bit (m' t i) 0"
  shows "tree_ok m' root" "tables_of m' root = tables_of m root - {a}"
    "path 4 q \<Longrightarrow> length q = 4 \<Longrightarrow> find_entry m' root q = find_entry m root q"
    "path 3 q \<Longrightarrow> walk m' root q = (if \<exists>r. q = p @ i # r then None else walk m root q)"
proof -
  have p3: "path 3 p" using p(1) path_mono by fastforce
  have pi: "path 3 (p @ [i])" using path_snoc [OF p(1) i] by (simp add: numeral_3_eq_3)
  note other = walk_other [OF ok p3 p(2) ag]
  have pt: "walk m' root p = Some t" using other [OF p3] p(2) by simp
  have w: "walk m' root q = (if \<exists>r. q = p @ i # r then None else walk m root q)" if "path 3 q" for q
  proof (cases "\<exists>r. q = p @ i # r")
    case True
    then show ?thesis using walk_absent [OF pt absent] by auto
  next
    case False
    then show ?thesis using other [OF that] by simp
  qed
  then show "path 3 q \<Longrightarrow> walk m' root q = (if \<exists>r. q = p @ i # r then None else walk m root q)" by blast
  have sub: "walk m root q = Some u \<and> (\<forall>r. q \<noteq> p @ i # r)" if "path 3 q" "walk m' root q = Some u" for q u
    using that w [OF that(1)] by (simp split: if_splits)
  show "tables_of m' root = tables_of m root - {a}"
  proof (intro equalityI subsetI)
    fix u assume "u \<in> tables_of m' root"
    then obtain q where q: "path 3 q" "walk m' root q = Some u" by (auto simp: tables_of_def)
    have "q \<noteq> p @ [i]" using sub [OF q] by simp
    then have "u \<noteq> a" using sub [OF q] tree_unique [OF ok a _ pi q(1)] by blast
    then show "u \<in> tables_of m root - {a}" using sub [OF q] q(1) by (auto simp: tables_of_def)
  next
    fix u assume "u \<in> tables_of m root - {a}"
    then obtain q where q: "path 3 q" "walk m root q = Some u" "u \<noteq> a" by (auto simp: tables_of_def)
    have "q \<noteq> p @ i # r" for r
      using walk_beyond [OF a empty, of 3 r] q a by (cases "r = []") auto
    then show "u \<in> tables_of m' root" using w [OF q(1)] q by (auto simp: tables_of_def)
  qed
  show "find_entry m' root q = find_entry m root q" if q: "path 4 q" "length q = 4" for q
  proof (cases "\<exists>r. q = p @ i # r")
    case True
    then obtain r where r: "q = p @ i # r" by blast
    then have "r \<noteq> []" using q p(1) by (auto simp: path_def)
    then show ?thesis using find_beyond [OF a empty, of 4 r] find_entry_absent [OF pt absent] q(1) r by simp
  next
    case False
    then show ?thesis using find_entry_other [OF ok p3 p(2) ag, of "[]" root q] q by simp
  qed
  have "bit (m' u j) 1 \<and> \<not> bit (m' u j) 63"
    if q: "path 2 q" "j < 512" "walk m' root q = Some u" "bit (m' u j) 0" "\<not> bit (m' u j) 7" for q u j
  proof -
    have q3: "path 3 q" using q(1) path_mono by fastforce
    note u = sub [OF q3 q(3), THEN conjunct1]
    have "u \<noteq> t \<or> j \<noteq> i" using absent q(4) by auto
    then have "m' u j = m u j" using ag tables_ofI [OF u q3] q(2) by (auto simp: agree_but_def)
    then show ?thesis using tree_perms [OF ok q(1,2) u] q(4,5) by simp
  qed
  moreover have "q = q'" if "path 3 q" "path 3 q'" "walk m' root q = Some u" "walk m' root q' = Some u" for q q' u
    using sub [OF that(1,3)] sub [OF that(2,4)] tree_unique [OF ok _ _ that(1,2)] by blast
  ultimately show "tree_ok m' root" by (intro tree_okI [OF tree_frame [OF ok]])
qed

subsection \<open>Writing a leaf\<close>

lemma write_leaf:
  assumes ok: "tree_ok m root" and p: "path 3 p" "length p = 3" "walk m root p = Some t" and i: "i < 512"
    and ag: "agree_but m m' root t i"
  shows "path 3 q \<Longrightarrow> walk m' root q = walk m root q" "tree_ok m' root" "tables_of m' root = tables_of m root"
    "path 4 q \<Longrightarrow> length q = 4 \<Longrightarrow> find_entry m' root q =
       (if q = p @ [i] then if bit (m' t i) 0 then Some (m' t i, 0) else None else find_entry m root q)"
proof -
  have w: "walk m' root q = walk m root q" if "path 3 q" for q
  proof -
    have "\<forall>r. q \<noteq> p @ i # r" using that p(2) by (auto simp: path_def)
    then show ?thesis by (rule walk_other [OF ok p(1,3) ag that])
  qed
  then show "path 3 q \<Longrightarrow> walk m' root q = walk m root q" by blast
  show "tables_of m' root = tables_of m root" using w by (auto simp: tables_of_def)
  have perms: "bit (m' u j) 1 \<and> \<not> bit (m' u j) 63"
    if q: "path 2 q" "j < 512" "walk m' root q = Some u" "bit (m' u j) 0" "\<not> bit (m' u j) 7" for q u j
  proof -
    have q3: "path 3 q" using q(1) path_mono by fastforce
    have u: "walk m root q = Some u" using w [OF q3] q(3) by simp
    have "u \<noteq> t" using tree_unique [OF ok u _ q3 p(1)] p(2,3) q(1) by (auto simp: path_def)
    then have "m' u j = m u j" using ag tables_ofI [OF u q3] q(2) by (auto simp: agree_but_def)
    then show ?thesis using tree_perms [OF ok q(1,2) u] q(4,5) by simp
  qed
  have "q = q'" if "path 3 q" "path 3 q'" "walk m' root q = Some u" "walk m' root q' = Some u" for q q' u
    by (rule tree_unique [OF ok _ _ that(1,2)]) (use w that in simp_all)
  then show "tree_ok m' root" using perms by (intro tree_okI [OF tree_frame [OF ok]])
  show "find_entry m' root q =
       (if q = p @ [i] then if bit (m' t i) 0 then Some (m' t i, 0) else None else find_entry m root q)"
    if q: "path 4 q" "length q = 4" for q
  proof (cases "q = p @ [i]")
    case True
    then show ?thesis using w [OF p(1)] p(3) by (simp add: find_entry_append)
  next
    case False
    then have "\<forall>r. q \<noteq> p @ i # r" using q p(2) by auto
    then show ?thesis using find_entry_other [OF ok p(1,3) ag, of "[]" root q] q False by simp
  qed
qed

subsection \<open>Setting the user bit on the way\<close>

lemma set_user_same_tree:
  assumes ok: "tree_ok m root" and p: "path 2 p" "walk m root p = Some t" and i: "i < 512"
    and e: "bit (m t i) 0" "\<not> bit (m t i) 7" and ag: "agree_but m m' root t i"
    and new: "m' t i = m t i OR VMM_USER"
  shows "same_tree m m' root"
proof -
  have p3: "path 3 p" using p(1) path_mono by fastforce
  have "same_entry (length q < 3) (m u j) (m' u j)" if q: "path 3 q" "walk m root q = Some u" "j < 512" for q u j
  proof (cases "u = t \<and> j = i")
    case True
    then have "q = p" using tree_unique [OF ok _ p(2) q(1) p3] q(2) by blast
    then show ?thesis using True p(1) e new by (simp add: same_entry_def path_def)
  next
    case False
    then have "m' u j = m u j" using ag tables_ofI [OF q(2,1)] q(3) by (auto simp: agree_but_def)
    then show ?thesis by (simp add: same_entry_def)
  qed
  then show ?thesis by (simp add: same_tree_def)
qed

end
