(* ===== verification/Vmm_Map.thy ===== *)
theory Vmm_Map
  imports Page_Tree
begin

text \<open>
  Correctness of mapping and unmapping: the page tables of a space refine a partial function from
  index paths (equivalently pages) to leaf entries. A successful map is a point update of it, a
  failed one changes nothing and gives back every frame it took, an unmap is a point deletion that
  returns exactly the tables it emptied.
\<close>

section \<open>The invariant of a space\<close>

text \<open>
  The tables under the root form a tree, and the frame allocator will not hand out any of them.
\<close>

definition space_inv :: "mm_state \<Rightarrow> u64 \<Rightarrow> bool" where
  "space_inv st root \<longleftrightarrow> pmm_inv (mm_pmm st) \<and> tree_ok (mm_frames st) root \<and>
     free_frames (mm_pmm st) \<inter> tables_of (mm_frames st) root = {}"

definition view :: "mm_state \<Rightarrow> u64 \<Rightarrow> nat list \<Rightarrow> (u64 \<times> nat) option" where
  "view st root q = (if path 4 q \<and> length q = 4 then find_entry (mm_frames st) root q else None)"

definition same_regs :: "mm_state \<Rightarrow> mm_state \<Rightarrow> bool" where
  "same_regs st st' \<longleftrightarrow> mm_kernel_pml4 st' = mm_kernel_pml4 st \<and> mm_spaces st' = mm_spaces st \<and>
     mm_cr3 st' = mm_cr3 st"

lemma same_regs_refl [simp]: "same_regs st st"
  by (simp add: same_regs_def)

lemma same_regs_trans: "same_regs a b \<Longrightarrow> same_regs b c \<Longrightarrow> same_regs a c"
  by (simp add: same_regs_def)

lemma space_invD:
  assumes "space_inv st root"
  shows "pmm_inv (mm_pmm st)" "tree_ok (mm_frames st) root"
    "free_frames (mm_pmm st) \<inter> tables_of (mm_frames st) root = {}"
  using assms by (simp_all add: space_inv_def)

lemma write_entry_fields [simp]:
  "mm_pmm (write_entry t i e st) = mm_pmm st"
  "mm_frames (write_entry t i e st) = (mm_frames st)(t := (mm_frames st t)(i := e))"
  "same_regs (write_entry t i e st) = same_regs st" "same_regs s (write_entry t i e st) = same_regs s st"
  "mm_flushed (write_entry t i e st) = mm_flushed st"
  by (simp_all add: write_entry_def same_regs_def fun_eq_iff)

lemma mm_free_page_fields [simp]:
  "mm_frames (mm_free_page a st) = mm_frames st"
  "mm_pmm (mm_free_page a st) = snd (pmm_free_page a (mm_pmm st))"
  "same_regs s (mm_free_page a st) = same_regs s st"
  by (simp_all add: mm_free_page_def same_regs_def)

lemma invlpg_fields [simp]:
  "mm_frames (invlpg r a st) = mm_frames st" "mm_pmm (invlpg r a st) = mm_pmm st"
  "same_regs s (invlpg r a st) = same_regs s st"
  by (simp_all add: invlpg_def same_regs_def)

lemma space_inv_cong:
  "mm_pmm st' = mm_pmm st \<Longrightarrow> mm_frames st' = mm_frames st \<Longrightarrow> space_inv st' root = space_inv st root"
  by (simp add: space_inv_def)

lemma fold_clear:
  "mm_frames (fold (\<lambda>i. write_entry t i 0) [0 ..< n] st) =
     (mm_frames st)(t := (\<lambda>i. if i < n then 0 else mm_frames st t i)) \<and>
   mm_pmm (fold (\<lambda>i. write_entry t i 0) [0 ..< n] st) = mm_pmm st \<and>
   same_regs st (fold (\<lambda>i. write_entry t i 0) [0 ..< n] st)"
  by (induction n) (auto simp: fun_eq_iff less_Suc_eq)

lemma clear_table_fields [simp]:
  "mm_frames (clear_table t st) = (mm_frames st)(t := (\<lambda>i. if i < 512 then 0 else mm_frames st t i))"
  "mm_pmm (clear_table t st) = mm_pmm st" "same_regs st (clear_table t st)"
  using fold_clear [of t 512 st] by (simp_all only: clear_table_def ENTRY_COUNT_def)

section \<open>Creating and dropping a table\<close>

definition table_entry :: "u64 \<Rightarrow> u64 \<Rightarrow> u64" where
  "table_entry a flags = a OR VMM_PRESENT OR VMM_WRITABLE OR (flags AND VMM_USER)"

lemma table_entry_bits:
  assumes "is_frame a"
  shows "bit (table_entry a flags) 0" "\<not> bit (table_entry a flags) 7" "table_physical (table_entry a flags) = a"
    "bit (table_entry a flags) 1" "\<not> bit (table_entry a flags) 63"
proof -
  have n: "bit a n \<Longrightarrow> 12 \<le> n \<and> n < 52" for n using is_frame_bit [OF assms] .
  show "bit (table_entry a flags) 0" "bit (table_entry a flags) 1"
    "\<not> bit (table_entry a flags) 7" "\<not> bit (table_entry a flags) 63"
    using n [of 7] n [of 63] by (auto simp: table_entry_def entry_bits)
  show "table_physical (table_entry a flags) = a"
    by (rule bit_word_eqI) (use n in \<open>auto simp: table_entry_def entry_bits\<close>)
qed

lemma pmm_alloc_frame:
  assumes "pmm_inv s" "pmm_alloc_page s = (a, t)" "a \<noteq> PMM_INVALID_ADDRESS"
  shows "is_frame a" "pmm_inv t" "frame_refs s a = 0" "frame_refs t = (frame_refs s)(a := 1)"
    "a \<in> free_frames s" "free_frames t = free_frames s - {a}"
  using alloc_page_with_reserve_refs(4) [of s 0 a t] assms pmm_kernel.alloc_avail [OF assms]
    pmm_kernel.alloc_invar [OF assms(1,2)]
  by (simp_all add: pmm_alloc_page_def is_frame_iff)

text \<open>New tables come from the free frames, and no other frame changes its reference count.\<close>

definition grown :: "mm_state \<Rightarrow> u64 \<Rightarrow> mm_state \<Rightarrow> bool" where
  "grown st root st' \<longleftrightarrow>
     tables_of (mm_frames st') root \<subseteq> tables_of (mm_frames st) root \<union> free_frames (mm_pmm st) \<and>
     free_frames (mm_pmm st') \<subseteq> free_frames (mm_pmm st) \<and>
     (\<forall>a. a \<notin> free_frames (mm_pmm st) \<longrightarrow> frame_refs (mm_pmm st') a = frame_refs (mm_pmm st) a)"

lemma grown_refl: "grown st root st"
  by (simp add: grown_def)

lemma grown_trans: "grown st root st1 \<Longrightarrow> grown st1 root st2 \<Longrightarrow> grown st root st2"
  unfolding grown_def by (intro conjI allI impI) (blast, blast, metis subsetD)

lemma create_table_True:
  assumes inv: "space_inv st root" and p: "path 2 p" "walk (mm_frames st) root p = Some t" and i: "i < 512"
    and absent: "\<not> bit (mm_frames st t i) 0" and ct: "create_table t i flags st = (True, st')"
  obtains a where "is_frame a" "a \<notin> tables_of (mm_frames st) root" "mm_frames st' t i = table_entry a flags"
    "walk (mm_frames st') root (p @ [i]) = Some a" "\<And>j. j < 512 \<Longrightarrow> mm_frames st' a j = 0"
    "agree_but (mm_frames st) (mm_frames st') root t i" "same_regs st st'"
    "frame_refs (mm_pmm st) a = 0" "frame_refs (mm_pmm st') = (frame_refs (mm_pmm st))(a := 1)"
    "space_inv st' root" "view st' root = view st root"
    "\<And>q u. path 3 q \<Longrightarrow> walk (mm_frames st) root q = Some u \<Longrightarrow> walk (mm_frames st') root q = Some u"
    "grown st root st'"
proof -
  note I = space_invD [OF inv]
  obtain a s where a: "pmm_alloc_page (mm_pmm st) = (a, s)" "a \<noteq> PMM_INVALID_ADDRESS"
    and st': "st' = write_entry t i (table_entry a flags) (clear_table a (st\<lparr>mm_pmm := s\<rparr>))"
    using ct by (auto simp: create_table_def mm_alloc_page_def table_entry_def split: prod.splits if_splits)
  note A = pmm_alloc_frame [OF I(1) a]
  have p3: "path 3 p" using p(1) path_mono by fastforce
  have fresh: "a \<notin> tables_of (mm_frames st) root" using A(5) I(3) by blast
  then have ne: "t \<noteq> a" using tables_ofI [OF p(2) p3] by auto
  have zero: "mm_frames st' a j = 0" if "j < 512" for j using that ne by (simp add: st')
  have ti: "mm_frames st' t i = table_entry a flags" by (simp add: st')
  have ag: "agree_but (mm_frames st) (mm_frames st') root t i"
    using fresh by (auto simp: agree_but_def st')
  have E: "bit (mm_frames st' t i) 0" "\<not> bit (mm_frames st' t i) 7" "table_physical (mm_frames st' t i) = a"
    "bit (mm_frames st' t i) 1" "\<not> bit (mm_frames st' t i) 63"
    using table_entry_bits [OF A(1)] by (simp_all add: ti)
  note T = attach_table [OF I(2) p i absent fresh A(1) ag _ E]
  have z: "\<forall>j < 512. \<not> bit (mm_frames st' a j) 0" using zero by simp
  have ps: "mm_pmm st' = s" by (simp add: st')
  have "space_inv st' root"
    using T(2,3) [OF z] A I(3) by (auto simp: space_inv_def ps)
  moreover have "view st' root = view st root" using T(4) [OF z] by (auto simp: view_def fun_eq_iff)
  moreover have "same_regs (st\<lparr>mm_pmm := s\<rparr>) st'" by (simp add: st')
  then have "same_regs st st'" by (simp add: same_regs_def)
  moreover have "grown st root st'" using T(3) [OF z] A(4-6) by (auto simp: grown_def ps)
  ultimately show ?thesis
    using that [OF A(1) fresh ti T(1) [OF z] zero ag _ A(3)] T(5) [OF z] A(4) ps by simp
qed

lemma create_table_False:
  assumes "pmm_inv (mm_pmm st)" "create_table t i flags st = (False, st')"
  shows "st' = st"
proof -
  obtain a s where a: "pmm_alloc_page (mm_pmm st) = (a, s)" by fastforce
  with assms(2) have "a = PMM_INVALID_ADDRESS" "st' = st\<lparr>mm_pmm := s\<rparr>"
    by (auto simp: create_table_def mm_alloc_page_def split: if_splits)
  then show ?thesis using pmm_kernel.alloc_fails [OF assms(1)] a by simp
qed

lemma drop_table:
  assumes inv: "space_inv st root" and p: "path 2 p" "walk (mm_frames st) root p = Some t" and i: "i < 512"
    and a: "walk (mm_frames st) root (p @ [i]) = Some a" and empty: "\<forall>j < 512. \<not> bit (mm_frames st a j) 0"
  defines "st' \<equiv> mm_free_page a (write_entry t i 0 st)"
  shows "space_inv st' root" "view st' root = view st root"
    "frame_refs (mm_pmm st') = (frame_refs (mm_pmm st))(a := frame_refs (mm_pmm st) a - 1)"
    "tables_of (mm_frames st') root = tables_of (mm_frames st) root - {a}"
    "path 3 q \<Longrightarrow> walk (mm_frames st') root q = (if \<exists>r. q = p @ i # r then None else walk (mm_frames st) root q)"
proof -
  note I = space_invD [OF inv]
  have nt: "a \<notin> {TOP_PAGE}"
    using walk_frame [OF a tree_frame [OF I(2)]] is_frame_not_top by simp
  have ag: "agree_but (mm_frames st) (mm_frames st') root t i"
    by (auto simp: agree_but_def st'_def)
  have ab: "\<not> bit (mm_frames st' t i) 0" by (simp add: st'_def)
  note D = detach_table [OF I(2) p i a empty ag ab]
  show "view st' root = view st root" using D(3) by (auto simp: view_def fun_eq_iff)
  show "frame_refs (mm_pmm st') = (frame_refs (mm_pmm st))(a := frame_refs (mm_pmm st) a - 1)"
    using pmm_kernel.free_refs [OF I(1) nt] by (simp add: st'_def)
  show "tables_of (mm_frames st') root = tables_of (mm_frames st) root - {a}" by (rule D(2))
  show "path 3 q \<Longrightarrow> walk (mm_frames st') root q = (if \<exists>r. q = p @ i # r then None else walk (mm_frames st) root q)"
    by (rule D(4))
  have "mm_pmm st' = snd (pmm_free_page a (mm_pmm st))" by (simp add: st'_def)
  then show "space_inv st' root"
    using pmm_kernel.free_invar [OF I(1) nt] pmm_kernel.free_keeps_owned [OF I(1) nt I(3)] D(1,2)
    by (simp add: space_inv_def)
qed

section \<open>The descent that creates tables\<close>

lemma rollback_append: "rollback_tables (ns @ ms) st = rollback_tables ms (rollback_tables ns st)"
  by (induction ns st rule: rollback_tables.induct) auto

text \<open>
  The state after undoing a descent differs from the one before it only in frames that are not
  tables of the space: same tree, same reference counts.
\<close>

definition undone :: "mm_state \<Rightarrow> u64 \<Rightarrow> mm_state \<Rightarrow> bool" where
  "undone st root st' \<longleftrightarrow> space_inv st' root \<and> same_tree (mm_frames st) (mm_frames st') root \<and>
     frame_refs (mm_pmm st') = frame_refs (mm_pmm st) \<and> same_regs st st'"

lemma undone_refl: "space_inv st root \<Longrightarrow> undone st root st"
  by (simp add: undone_def)

text \<open>What is known after a descent: the recorded creations \<open>ns\<close> can be undone.\<close>

definition descended :: "mm_state \<Rightarrow> u64 \<Rightarrow> (u64 \<times> nat \<times> u64) list \<Rightarrow> mm_state \<Rightarrow> bool" where
  "descended st root ns st' \<longleftrightarrow> space_inv st' root \<and> view st' root = view st root \<and> same_regs st st' \<and> grown st root st' \<and>
     (\<forall>q u. path 3 q \<longrightarrow> walk (mm_frames st) root q = Some u \<longrightarrow> walk (mm_frames st') root q = Some u) \<and>
     undone st root (rollback_tables ns st')"

lemma descended_refl: "space_inv st root \<Longrightarrow> descended st root [] st"
  by (simp add: descended_def undone_refl grown_refl)

lemma undo_create:
  assumes inv: "space_inv st root" and p: "path 2 p" "walk (mm_frames st) root p = Some t" and i: "i < 512"
    and absent: "\<not> bit (mm_frames st t i) 0"
    and ag: "agree_but (mm_frames st) (mm_frames st1) root t i"
    and keep: "\<And>q u. path 3 q \<Longrightarrow> walk (mm_frames st) root q = Some u \<Longrightarrow> walk (mm_frames st1) root q = Some u"
    and a: "walk (mm_frames st1) root (p @ [i]) = Some a" "\<And>j. j < 512 \<Longrightarrow> mm_frames st1 a j = 0"
    and refs: "frame_refs (mm_pmm st) a = 0" "frame_refs (mm_pmm st1) = (frame_refs (mm_pmm st))(a := 1)"
    and regs: "same_regs st st1" and un: "undone st1 root st2"
  shows "undone st root (mm_free_page a (write_entry t i 0 st2))"
proof -
  have i2: "space_inv st2 root" and tree: "same_tree (mm_frames st1) (mm_frames st2) root"
    and r2: "frame_refs (mm_pmm st2) = frame_refs (mm_pmm st1)" "same_regs st1 st2"
    using un by (simp_all add: undone_def)
  have p3: "path 3 p" and pi: "path 3 (p @ [i])" using p(1) i by (auto simp: path_def)
  have w: "walk (mm_frames st2) root p = Some t" "walk (mm_frames st2) root (p @ [i]) = Some a"
    using same_tree_walk [OF tree p3] same_tree_walk [OF tree pi] keep [OF p3 p(2)] a(1) by simp_all
  have se: "same_entry (length q < 3) (mm_frames st1 u j) (mm_frames st2 u j)"
    if "path 3 q" "walk (mm_frames st1) root q = Some u" "j < 512" for q u j
    using tree that by (auto simp: same_tree_def)
  have empty: "\<forall>j < 512. \<not> bit (mm_frames st2 a j) 0"
    using same_entryD(1) [OF se [OF pi a(1)]] a(2) by simp
  let ?st3 = "mm_free_page a (write_entry t i 0 st2)"
  note D = drop_table [OF i2 p(1) w(1) i w(2) empty]
  have "same_entry (length q < 3) (mm_frames st u j) (mm_frames ?st3 u j)"
    if q: "path 3 q" "walk (mm_frames st) root q = Some u" "j < 512" for q u j
  proof (cases "u = t \<and> j = i")
    case True
    then show ?thesis using absent by (simp add: same_entry_def)
  next
    case False
    then have "mm_frames ?st3 u j = mm_frames st2 u j" "mm_frames st1 u j = mm_frames st u j"
      using ag tables_ofI [OF q(2,1)] q(3) by (auto simp: agree_but_def)
    then show ?thesis using se [OF q(1) keep [OF q(1,2)] q(3)] by simp
  qed
  then have "same_tree (mm_frames st) (mm_frames ?st3) root" by (simp add: same_tree_def)
  moreover have "frame_refs (mm_pmm ?st3) = frame_refs (mm_pmm st)"
    using D(3) refs r2(1) by (simp add: fun_upd_idem_iff)
  moreover have "same_regs st ?st3" using same_regs_trans [OF regs r2(2)] by simp
  ultimately show ?thesis using D(1) by (simp add: undone_def)
qed

lemma walk_create_spec:
  assumes "space_inv st root" "walk (mm_frames st) root p = Some t" "path 3 (p @ is)"
    "walk_create is flags t created st = (r, created', st')"
  shows "\<exists>ns. created' = ns @ created \<and> descended st root ns st' \<and>
    (\<forall>t'. r = Some t' \<longrightarrow> walk (mm_frames st') root (p @ is) = Some t')"
  using assms
proof (induction "is" flags t created st arbitrary: p rule: walk_create.induct)
  case (1 flags table created st)
  then show ?case using descended_refl by auto
next
  case (2 i "is" flags t created st)
  let ?e = "mm_frames st t i"
  have p2: "path 2 p" and p3: "path 3 p" and i: "i < 512" using "2.prems"(3) by (auto simp: path_def)
  have pis: "path 3 ((p @ [i]) @ is)" using "2.prems"(3) by simp
  consider (absent) "\<not> bit ?e 0" | (huge) "bit ?e 0" "bit ?e 7" | (table) "bit ?e 0" "\<not> bit ?e 7" by blast
  then show ?case
  proof cases
    case absent
    show ?thesis
    proof (cases "create_table t i flags st")
      case (Pair ok st1)
      show ?thesis
      proof (cases ok)
        case False
        then have "st1 = st" using create_table_False [OF space_invD(1) [OF "2.prems"(1)]] Pair by simp
        then have "r = None" "created' = created" "st' = st"
          using "2.prems"(4) absent Pair False by (auto simp: Let_def)
        then show ?thesis using descended_refl [OF "2.prems"(1)] by simp
      next
        case True
        then have ct: "create_table t i flags st = (True, st1)" using Pair by simp
        obtain a where a: "is_frame a" "mm_frames st1 t i = table_entry a flags"
          "walk (mm_frames st1) root (p @ [i]) = Some a" "\<And>j. j < 512 \<Longrightarrow> mm_frames st1 a j = 0"
          "agree_but (mm_frames st) (mm_frames st1) root t i" "same_regs st st1"
          "frame_refs (mm_pmm st) a = 0" "frame_refs (mm_pmm st1) = (frame_refs (mm_pmm st))(a := 1)"
          "space_inv st1 root" "view st1 root = view st root" "grown st root st1"
          and keep: "\<And>q u. path 3 q \<Longrightarrow> walk (mm_frames st) root q = Some u \<Longrightarrow> walk (mm_frames st1) root q = Some u"
          using create_table_True [OF "2.prems"(1) p2 "2.prems"(2) i absent ct] by metis
        have ch: "table_physical (mm_frames st1 t i) = a" using table_entry_bits(3) [OF a(1)] a(2) by simp
        have rec: "walk_create is flags a ((t, i, a) # created) st1 = (r, created', st')"
          using "2.prems"(4) absent Pair True ch by (simp add: Let_def)
        obtain ns where ns: "created' = ns @ (t, i, a) # created" "descended st1 root ns st'"
          "\<forall>t'. r = Some t' \<longrightarrow> walk (mm_frames st') root ((p @ [i]) @ is) = Some t'"
          using "2.IH"(1) [OF refl _ ct [symmetric] refl _ a(9) _ pis] absent ch a(3) rec by auto
        have "undone st root (rollback_tables (ns @ [(t, i, a)]) st')"
          using undo_create [OF "2.prems"(1) p2 "2.prems"(2) i absent a(5) keep a(3,4,7,8,6)] ns(2)
          by (simp add: rollback_append descended_def)
        then have "descended st root (ns @ [(t, i, a)]) st'"
          using ns(2) keep a(10) same_regs_trans [OF a(6)] grown_trans [OF a(11)] by (simp add: descended_def)
        then show ?thesis using ns by (intro exI [of _ "ns @ [(t, i, a)]"]) simp
      qed
    qed
  next
    case huge
    then have "r = None" "created' = created" "st' = st" using "2.prems"(4) by (simp_all add: Let_def)
    then show ?thesis using descended_refl [OF "2.prems"(1)] by simp
  next
    case table
    then have "walk (mm_frames st) root (p @ [i]) = Some (table_physical ?e)"
      using "2.prems"(2) by (simp add: walk_snoc)
    then show ?thesis using "2.IH"(2) [OF refl _ _ "2.prems"(1) _ pis] table "2.prems"(4) by (auto simp: Let_def)
  qed
qed

section \<open>Marking the way for user access\<close>

lemma mark_user_spec:
  assumes "space_inv st root" "walk (mm_frames st) root p = Some t" "path 3 (p @ is)"
    "walk (mm_frames st) root (p @ is) = Some u"
  shows "same_tree (mm_frames st) (mm_frames (mark_user is t st)) root \<and>
    mm_pmm (mark_user is t st) = mm_pmm st \<and> same_regs st (mark_user is t st) \<and>
    (\<forall>k < length is. \<forall>v. walk (mm_frames st) root (p @ take k is) = Some v \<longrightarrow>
       bit (mm_frames (mark_user is t st) v (is ! k)) 2)"
  using assms
proof (induction "is" t st arbitrary: p rule: mark_user.induct)
  case (2 i "is" t st)
  let ?e = "mm_frames st t i"
  define st1 where "st1 = write_entry t i (?e OR VMM_USER) st"
  have f1: "mm_pmm st1 = mm_pmm st" "same_regs st st1" "mm_frames st1 t i = ?e OR VMM_USER"
    by (simp_all add: st1_def)
  note I = space_invD [OF "2.prems"(1)]
  have p2: "path 2 p" and p3: "path 3 p" and i: "i < 512" using "2.prems"(3) by (auto simp: path_def)
  have e: "bit ?e 0" "\<not> bit ?e 7"
    using "2.prems"(2,4) by (auto simp: walk_append split: if_splits)
  have ag: "agree_but (mm_frames st) (mm_frames st1) root t i" by (auto simp: agree_but_def st1_def)
  have s1: "same_tree (mm_frames st) (mm_frames st1) root"
    by (rule set_user_same_tree [OF I(2) p2 "2.prems"(2) i e ag f1(3)])
  have inv1: "space_inv st1 root"
    using I same_tree_ok [OF s1 I(2)] same_tree_tables [OF s1] unfolding space_inv_def
    by (simp only: f1)
  have w1: "walk (mm_frames st1) root q = walk (mm_frames st) root q" if "path 3 q" for q
    by (rule same_tree_walk [OF s1 that])
  have ch: "table_physical (mm_frames st1 t i) = table_physical ?e" by (simp add: f1 table_physical_user)
  have wpi: "walk (mm_frames st1) root (p @ [i]) = Some (table_physical (mm_frames st1 t i))"
    using w1 [of "p @ [i]"] p2 i e "2.prems"(2) ch by (auto simp: path_def walk_snoc)
  have wu: "walk (mm_frames st1) root ((p @ [i]) @ is) = Some u"
    using w1 [of "p @ i # is"] "2.prems"(3,4) by simp
  note IH = "2.IH" [OF st1_def inv1 wpi _ wu]
  let ?st2 = "mark_user is (table_physical (mm_frames st1 t i)) st1"
  have eq: "mark_user (i # is) t st = ?st2" by (simp add: Let_def st1_def)
  have s2: "same_tree (mm_frames st1) (mm_frames ?st2) root" using IH "2.prems"(3) by simp
  have "bit (mm_frames ?st2 v ((i # is) ! k)) 2"
    if k: "k < length (i # is)" "walk (mm_frames st) root (p @ take k (i # is)) = Some v" for k v
  proof (cases k)
    case 0
    then have "v = t" using k(2) "2.prems"(2) by simp
    moreover have "same_entry (length p < 3) (mm_frames st1 t i) (mm_frames ?st2 t i)"
      using s2 w1 [OF p3] "2.prems"(2) p3 i by (simp add: same_tree_def)
    moreover have "bit (mm_frames st1 t i) 2" "bit (mm_frames st1 t i) 0" using e by (auto simp: f1 entry_bits)
    ultimately show ?thesis using 0 by (auto simp: same_entry_def entry_bits)
  next
    case (Suc k')
    then have "path 3 (p @ take k (i # is))" using "2.prems"(3) by (auto simp: path_def dest: in_set_takeD)
    then show ?thesis using IH k Suc "2.prems"(3) w1 by simp
  qed
  moreover have "same_tree (mm_frames st) (mm_frames ?st2) root" by (rule same_tree_trans [OF s1 s2])
  moreover have "same_regs st ?st2" using IH same_regs_trans [OF f1(2)] "2.prems"(3) by simp
  ultimately show ?case using IH "2.prems"(3) f1(1) unfolding eq by simp
qed simp

section \<open>Mapping a page\<close>

lemma indices_4: "indices va = take 3 (indices va) @ [indices va ! 3]" "length (indices va) = 4"
  by (simp_all add: indices_def numeral_3_eq_3)

lemma indices_path: "path 4 (indices va)" "path 3 (take 3 (indices va))" "indices va ! 3 < 512"
proof -
  have lt: "unat (x AND 0x1FF :: u64) < 512" for x
    using unat_and_mask_u64 [of x 9] by (simp add: mask_eq_exp_minus_1)
  then show p: "path 4 (indices va)" by (simp add: path_def indices_def)
  then show "path 3 (take 3 (indices va))" by (auto simp: path_def dest: in_set_takeD)
  show "indices va ! 3 < 512" using lt by (simp add: indices_def numeral_3_eq_3)
qed

lemma leaf_entry_bits:
  assumes "is_frame pa"
  shows "bit (leaf_entry pa flags) 0" "\<not> bit (leaf_entry pa flags) 7" "table_physical (leaf_entry pa flags) = pa"
    "bit (leaf_entry pa flags) 1 = bit flags 1" "bit (leaf_entry pa flags) 2 = bit flags 2"
    "bit (leaf_entry pa flags) 9 = bit flags 9" "bit (leaf_entry pa flags) 63 = bit flags 63"
proof -
  have n: "bit pa n \<Longrightarrow> 12 \<le> n \<and> n < 52" for n using is_frame_bit [OF assms] .
  show "bit (leaf_entry pa flags) 0" "\<not> bit (leaf_entry pa flags) 7"
    "bit (leaf_entry pa flags) 1 = bit flags 1" "bit (leaf_entry pa flags) 2 = bit flags 2"
    "bit (leaf_entry pa flags) 9 = bit flags 9" "bit (leaf_entry pa flags) 63 = bit flags 63"
    using n [of 1] n [of 2] n [of 7] n [of 9] n [of 63] by (auto simp: leaf_entry_def entry_bits)
  show "table_physical (leaf_entry pa flags) = pa"
    by (rule bit_word_eqI) (use n in \<open>auto simp: leaf_entry_def entry_bits\<close>)
qed

lemma same_tree_find:
  "same_tree m m' root \<Longrightarrow> path 4 q \<Longrightarrow> length q = 4 \<Longrightarrow> find_entry m' root q = find_entry m root q"
  using same_tree_find_entry [of m m' root "[]" q root] by fastforce

lemma map_page_locked_True:
  assumes inv: "space_inv st (space_pml4 st space)" and pa: "is_frame pa"
    and map: "map_page_locked space va pa flags st = (True, st')"
  defines "root \<equiv> space_pml4 st space"
  obtains t where "\<not> map_rejected space va pa flags" "space_inv st' root" "same_regs st st'"
    "view st root (indices va) = None"
    "view st' root = (view st root)(indices va := Some (leaf_entry pa flags, 0))"
    "walk (mm_frames st') root (take 3 (indices va)) = Some t"
    "mm_frames st' t (indices va ! 3) = leaf_entry pa flags"
    "\<And>k v. bit flags 2 \<Longrightarrow> k < 3 \<Longrightarrow> walk (mm_frames st') root (take k (indices va)) = Some v \<Longrightarrow>
       bit (mm_frames st' v (indices va ! k)) 2"
    "grown st root st'"
proof -
  let ?up = "take 3 (indices va)" and ?l = "indices va ! 3"
  have nr: "\<not> map_rejected space va pa flags" using map by (auto simp: map_page_locked_def)
  obtain r created st1 where wc: "walk_create ?up flags root [] st = (r, created, st1)" by (metis prod_cases3)
  have r: "walk_create ?up flags root [] st = (Some (the r), created, st1)" "\<not> bit (mm_frames st1 (the r) ?l) 0"
    using map nr wc by (auto simp: map_page_locked_def Let_def root_def split: option.splits if_splits)
  define t where "t = the r"
  define st2 where "st2 = write_entry t ?l (leaf_entry pa flags) st1"
  define st3 where "st3 = (if bit flags 2 then mark_user ?up root st2 else st2)"
  have st': "st' = invlpg root va st3"
    using map nr r by (auto simp: map_page_locked_def Let_def root_def st2_def st3_def t_def)
  have d: "descended st root created st1" and w1: "walk (mm_frames st1) root ?up = Some t"
    using walk_create_spec [OF inv, of "[]" "space_pml4 st space" ?up flags "[]"] indices_path(2) r(1)
    by (auto simp: root_def t_def)
  note I1 = space_invD [of st1 root]
  have i1: "space_inv st1 root" and v1: "view st1 root = view st root" and g1: "same_regs st st1"
    and n1: "grown st root st1"
    using d by (simp_all add: descended_def)
  have up: "path 3 ?up" "length ?up = 3" "path 4 (indices va)" "?up @ [?l] = indices va"
    using indices_path indices_4 [of va] by auto
  have ag: "agree_but (mm_frames st1) (mm_frames st2) root t ?l" by (auto simp: agree_but_def st2_def)
  note W = write_leaf [OF I1(2) [OF i1] up(1,2) w1 indices_path(3) ag]
  have new: "mm_frames st2 t ?l = leaf_entry pa flags" "mm_pmm st2 = mm_pmm st1" "same_regs st1 st2"
    by (simp_all add: st2_def)
  have i2: "space_inv st2 root" using I1 [OF i1] W(2,3) by (simp add: space_inv_def new(2))
  have v2: "view st2 root = (view st1 root)(indices va := Some (leaf_entry pa flags, 0))"
    using W(4) up indices_4(2) leaf_entry_bits(1) [OF pa] by (auto simp: view_def fun_eq_iff new(1))
  have w2: "walk (mm_frames st2) root ?up = Some t" using W(1) [OF up(1)] w1 by simp
  have "find_entry (mm_frames st1) root (?up @ [?l]) = None"
    using find_entry_absent [OF w1, of ?l "[]"] r(2) by (simp add: t_def)
  then have v0: "view st root (indices va) = None" using up(4) v1 by (metis view_def)
  have M: "same_tree (mm_frames st2) (mm_frames st3) root \<and> mm_pmm st3 = mm_pmm st2 \<and> same_regs st2 st3 \<and>
    (bit flags 2 \<longrightarrow> (\<forall>k < 3. \<forall>v. walk (mm_frames st2) root (take k ?up) = Some v \<longrightarrow>
       bit (mm_frames st3 v (?up ! k)) 2))"
    using mark_user_spec [OF i2, of "[]" root ?up t] up(1,2) w2 by (simp add: st3_def)
  have "tree_ok (mm_frames st3) root" "tables_of (mm_frames st3) root = tables_of (mm_frames st2) root"
    using M same_tree_ok same_tree_tables space_invD(2) [OF i2] by blast+
  then have i3: "space_inv st' root" and n3: "grown st root st'"
    using space_invD [OF i2] M W(3) n1 by (simp_all add: space_inv_def grown_def st' new(2))
  have w3: "walk (mm_frames st') root q = walk (mm_frames st2) root q" if "path 3 q" for q
    using same_tree_walk [of _ _ root, OF _ that] M by (simp add: st')
  have "view st' root = view st2 root"
    using same_tree_find [of "mm_frames st2" "mm_frames st3" root] M
    by (auto simp: view_def fun_eq_iff st')
  then have v3: "view st' root = (view st root)(indices va := Some (leaf_entry pa flags, 0))"
    using v1 v2 by simp
  have "same_entry (length ?up < 3) (mm_frames st2 t ?l) (mm_frames st3 t ?l)"
    using M up(1) w2 indices_path(3) unfolding same_tree_def by blast
  then have l3: "mm_frames st' t ?l = leaf_entry pa flags"
    using same_entryD(6) leaf_entry_bits(1) [OF pa] up(2) by (simp add: st' new(1))
  have "bit (mm_frames st' v (indices va ! k)) 2"
    if k: "bit flags 2" "k < 3" "walk (mm_frames st') root (take k (indices va)) = Some v" for k v
  proof -
    have "path 3 (take k (indices va))" using up(3) k(2) by (auto simp: path_def dest: in_set_takeD)
    then have "walk (mm_frames st2) root (take k ?up) = Some v" using k w3 by (simp add: min_absorb1)
    then show ?thesis using M k by (simp add: st')
  qed
  moreover have "same_regs st st'" unfolding st' invlpg_fields(3)
    using g1 new(3) M same_regs_trans by blast
  ultimately show ?thesis
    using that [OF nr i3 _ v0 v3 _ l3] w3 [OF up(1)] w2 n3 by simp
qed

lemma map_page_locked_False:
  assumes inv: "space_inv st (space_pml4 st space)" and map: "map_page_locked space va pa flags st = (False, st')"
  shows "undone st (space_pml4 st space) st'"
proof (cases "map_rejected space va pa flags")
  case True
  then show ?thesis using map undone_refl [OF inv] by (simp add: map_page_locked_def)
next
  case False
  let ?up = "take 3 (indices va)"
  obtain r created st1 where wc: "walk_create ?up flags (space_pml4 st space) [] st = (r, created, st1)"
    by (metis prod_cases3)
  have "st' = rollback_tables created st1"
    using map False wc by (auto simp: map_page_locked_def Let_def split: option.splits if_splits)
  then show ?thesis
    using walk_create_spec [OF inv, of "[]" "space_pml4 st space" ?up flags "[]"] indices_path(2) wc
    by (auto simp: descended_def)
qed

lemma undone_view: "undone st root st' \<Longrightarrow> view st' root = view st root"
  using same_tree_find by (auto simp: undone_def view_def fun_eq_iff)

section \<open>Unmapping a page\<close>

lemma path_take: "path n p \<Longrightarrow> path n (take k p)"
  by (auto simp: path_def dest: in_set_takeD)

lemma find_entry_leaf:
  "find_entry m t (p @ [i]) = Some (e, 0) \<longleftrightarrow> (\<exists>u. walk m t p = Some u \<and> m u i = e \<and> bit e 0)"
  by (induction p arbitrary: t) auto

definition tables_along :: "(u64 \<Rightarrow> nat \<Rightarrow> u64) \<Rightarrow> u64 \<Rightarrow> nat list \<Rightarrow> u64 list" where
  "tables_along m root p = map (\<lambda>k. the (walk m root (take k p))) [0 ..< Suc (length p)]"

lemma tables_along_Cons:
  "bit (m t i) 0 \<Longrightarrow> \<not> bit (m t i) 7 \<Longrightarrow>
   tables_along m t (i # is) = t # tables_along m (table_physical (m t i)) is"
  unfolding tables_along_def by (subst upt_conv_Cons) (simp_all add: map_Suc_upt [symmetric] del: upt_Suc)

lemma tables_along_snoc:
  "walk m root (p @ [i]) = Some t \<Longrightarrow> tables_along m root (p @ [i]) = tables_along m root p @ [t]"
  by (simp add: tables_along_def)

lemma tables_along_cong:
  "(\<And>k. k \<le> length p \<Longrightarrow> walk m' root (take k p) = walk m root (take k p)) \<Longrightarrow>
   tables_along m' root p = tables_along m root p"
  by (auto simp: tables_along_def simp del: upt_Suc)

lemma walk_tables_walk:
  "walk_tables st is t visited =
     (case walk (mm_frames st) t is of None \<Rightarrow> None
      | Some u \<Rightarrow> Some (rev (tables_along (mm_frames st) t is) @ visited))"
  by (induction st "is" t visited rule: walk_tables.induct)
    (auto simp: Let_def tables_along_Cons split: option.split, simp add: tables_along_def)

lemma tables_along_last: "walk m root p = Some t \<Longrightarrow> \<exists>ts. rev (tables_along m root p) = t # ts"
  by (simp add: tables_along_def)

lemma table_is_empty_iff: "table_is_empty st t \<longleftrightarrow> (\<forall>j < 512. \<not> bit (mm_frames st t j) 0)"
  by (auto simp: table_is_empty_def list_all_iff ENTRY_COUNT_def)

text \<open>
  Removing tables: the entries seen by translations stay, and every table that left the tree lost
  one reference, no other frame did.
\<close>

definition pruned :: "mm_state \<Rightarrow> u64 \<Rightarrow> mm_state \<Rightarrow> bool" where
  "pruned st root st' \<longleftrightarrow> space_inv st' root \<and> view st' root = view st root \<and> same_regs st st' \<and>
     tables_of (mm_frames st') root \<subseteq> tables_of (mm_frames st) root \<and>
     frame_refs (mm_pmm st') = (\<lambda>a. if a \<in> tables_of (mm_frames st) root - tables_of (mm_frames st') root
        then frame_refs (mm_pmm st) a - 1 else frame_refs (mm_pmm st) a)"

lemma pruned_refl: "space_inv st root \<Longrightarrow> pruned st root st"
  by (simp add: pruned_def)

lemma collapse_tables_clears:
  "mm_frames (collapse_tables visited is st) t j = mm_frames st t j \<or> mm_frames (collapse_tables visited is st) t j = 0"
  by (induction visited "is" st rule: collapse_tables.induct) (auto simp: Let_def split: if_splits)

lemma walk_cleared:
  "(\<And>t j. m' t j = m t j \<or> m' t j = 0) \<Longrightarrow> walk m' t p = Some u \<Longrightarrow> walk m t p = Some u"
proof (induction p arbitrary: t)
  case (Cons i p)
  have b: "bit (m' t i) 0" "\<not> bit (m' t i) 7" "walk m' (table_physical (m' t i)) p = Some u"
    using Cons.prems(2) by (auto split: if_splits)
  then have "m' t i = m t i" using Cons.prems(1) [of t i] by auto
  then show ?case using b Cons.IH [OF Cons.prems(1)] by simp
qed simp

text \<open>No table on a path, the root apart, is left empty.\<close>

definition no_empty_table :: "(u64 \<Rightarrow> nat \<Rightarrow> u64) \<Rightarrow> u64 \<Rightarrow> nat list \<Rightarrow> bool" where
  "no_empty_table m root p \<longleftrightarrow> (\<forall>k t. 0 < k \<longrightarrow> k \<le> length p \<longrightarrow> walk m root (take k p) = Some t \<longrightarrow> (\<exists>j < 512. bit (m t j) 0))"

lemma walk_inner:
  assumes "walk m root p = Some t" "k < length p" "walk m root (take k p) = Some u"
  shows "bit (m u (p ! k)) 0"
proof -
  have "walk m root (take k p @ p ! k # drop (Suc k) p) = Some t" using assms(1,2) by (simp add: id_take_nth_drop [symmetric])
  then show ?thesis using assms(3) by (auto simp: walk_append split: if_splits)
qed

lemma collapse_tables_stop:
  assumes t: "walk (mm_frames st) root (p @ [i]) = Some t" and "\<not> table_is_empty st t"
  shows "collapse_tables (rev (tables_along (mm_frames st) root (p @ [i]))) (rev (p @ [i])) st = st"
proof -
  obtain u where u: "walk (mm_frames st) root p = Some u" using t by (auto elim: walk_snocE)
  then show ?thesis using tables_along_last [OF u] tables_along_snoc [OF t] assms(2) by auto
qed

lemma collapse_tables_step:
  assumes inv: "space_inv st root" and p: "path 3 (p @ [i])" and t: "walk (mm_frames st) root (p @ [i]) = Some t"
    and "table_is_empty st t"
  obtains st2 u where
    "collapse_tables (rev (tables_along (mm_frames st) root (p @ [i]))) (rev (p @ [i])) st =
       collapse_tables (rev (tables_along (mm_frames st2) root p)) (rev p) st2"
    "path 3 p" "walk (mm_frames st2) root p = Some u" "walk (mm_frames st2) root (p @ [i]) = None" "pruned st root st2"
proof -
  have p2: "path 2 p" and p3: "path 3 p" and i: "i < 512" using p by (auto simp: path_def)
  obtain u where u: "walk (mm_frames st) root p = Some u" "t = table_physical (mm_frames st u i)"
    using t by (auto elim: walk_snocE)
  obtain ts where ts: "rev (tables_along (mm_frames st) root p) = u # ts" using tables_along_last [OF u(1)] by blast
  have vis: "rev (tables_along (mm_frames st) root (p @ [i])) = t # u # ts" using tables_along_snoc [OF t] ts by simp
  have empty: "\<forall>j < 512. \<not> bit (mm_frames st t j) 0" using assms(4) by (simp add: table_is_empty_iff)
  define st2 where "st2 = mm_free_page t (write_entry u i 0 st)"
  note D = drop_table [OF inv p2 u(1) i t empty, folded st2_def]
  have w: "walk (mm_frames st2) root (take k p) = walk (mm_frames st) root (take k p)" for k
  proof -
    have "\<forall>r. take k p \<noteq> p @ i # r"
    proof (intro allI notI)
      fix r assume "take k p = p @ i # r"
      then have "length (take k p) = length (p @ i # r)" by (rule arg_cong)
      then show False by simp
    qed
    then show ?thesis using D(5) path_take [OF p3] by simp
  qed
  have "tables_along (mm_frames st2) root p = tables_along (mm_frames st) root p"
    by (rule tables_along_cong) (rule w)
  then have c: "collapse_tables (rev (tables_along (mm_frames st) root (p @ [i]))) (rev (p @ [i])) st =
      collapse_tables (rev (tables_along (mm_frames st2) root p)) (rev p) st2"
    using assms(4) vis ts u(2) by (simp add: Let_def st2_def)
  have w2: "walk (mm_frames st2) root p = Some u" using w [of "length p"] u(1) by simp
  then have "walk (mm_frames st2) root (p @ [i]) = None" by (simp add: walk_append st2_def)
  moreover have "same_regs st st2" by (simp add: st2_def)
  moreover have "t \<in> tables_of (mm_frames st) root" by (rule tables_ofI [OF t p])
  ultimately show ?thesis using D(1-4) by (intro that [OF c p3 w2]) (auto simp: pruned_def fun_eq_iff)
qed

lemma pruned_trans: "pruned st root st2 \<Longrightarrow> pruned st2 root st3 \<Longrightarrow> pruned st root st3"
  by (auto simp: pruned_def fun_eq_iff intro: same_regs_trans)

lemma collapse_tables_spec:
  assumes "space_inv st root" "path 3 p" "walk (mm_frames st) root p = Some t"
  shows "pruned st root (collapse_tables (rev (tables_along (mm_frames st) root p)) (rev p) st)"
  using assms
proof (induction p arbitrary: st t rule: rev_induct)
  case Nil
  then show ?case by (simp add: tables_along_def pruned_refl)
next
  case (snoc i p)
  show ?case
  proof (cases "table_is_empty st t")
    case False
    then show ?thesis using collapse_tables_stop [OF snoc.prems(3)] pruned_refl [OF snoc.prems(1)] by simp
  next
    case True
    from collapse_tables_step [OF snoc.prems True] show ?thesis
      using snoc.IH pruned_trans by (metis pruned_def)
  qed
qed

lemma collapse_tables_no_empty:
  assumes "space_inv st root" "path 3 p" "walk (mm_frames st) root p = Some t"
  shows "no_empty_table (mm_frames (collapse_tables (rev (tables_along (mm_frames st) root p)) (rev p) st)) root p"
  using assms
proof (induction p arbitrary: st t rule: rev_induct)
  case Nil
  then show ?case by (simp add: no_empty_table_def)
next
  case (snoc i p)
  show ?case
  proof (cases "table_is_empty st t")
    case False
    have "\<exists>j < 512. bit (mm_frames st v j) 0"
      if k: "k \<le> length (p @ [i])" "walk (mm_frames st) root (take k (p @ [i])) = Some v" for k v
    proof (cases "k = length (p @ [i])")
      case True
      then show ?thesis using k(2) snoc.prems(3) False by (auto simp: table_is_empty_iff)
    next
      case False
      then have l: "k < length (p @ [i])" using k(1) by simp
      have "(p @ [i]) ! k < 512" using snoc.prems(2) l nth_mem [OF l] by (auto simp: path_def)
      then show ?thesis using walk_inner [OF snoc.prems(3) l k(2)] by blast
    qed
    then show ?thesis unfolding collapse_tables_stop [OF snoc.prems(3) False] no_empty_table_def by blast
  next
    case True
    obtain st2 u where c: "collapse_tables (rev (tables_along (mm_frames st) root (p @ [i]))) (rev (p @ [i])) st =
          collapse_tables (rev (tables_along (mm_frames st2) root p)) (rev p) st2" (is "_ = ?st3")
        and p3: "path 3 p" and w: "walk (mm_frames st2) root p = Some u" "walk (mm_frames st2) root (p @ [i]) = None"
        and "pruned st root st2"
      by (rule collapse_tables_step [OF snoc.prems True])
    then have IH: "no_empty_table (mm_frames ?st3) root p" using snoc.IH by (simp add: pruned_def)
    have "walk (mm_frames ?st3) root (p @ [i]) = None"
      using walk_cleared [of "mm_frames ?st3" "mm_frames st2" root "p @ [i]"] collapse_tables_clears w(2)
      by (metis not_None_eq)
    then show ?thesis unfolding c using IH by (auto simp: no_empty_table_def le_Suc_eq)
  qed
qed

lemma vmm_space_unmap_page_cases:
  assumes inv: "space_inv st (space_pml4 st space)" and un: "vmm_space_unmap_page space va st = (pa, st')"
  defines "root \<equiv> space_pml4 st space"
  obtains (refused) "pa = PMM_INVALID_ADDRESS" "st' = st"
      "unmap_rejected space va \<or> (\<forall>e. view st root (indices va) \<noteq> Some (e, 0))"
  | (unmapped) e st1 where "view st root (indices va) = Some (e, 0)" "pa = table_physical e"
      "view st1 root = (view st root)(indices va := None)" "mm_pmm st1 = mm_pmm st" "same_regs st st1"
      "tables_of (mm_frames st1) root = tables_of (mm_frames st) root" "pruned st1 root st'"
      "no_empty_table (mm_frames st') root (take 3 (indices va))"
proof -
  let ?up = "take 3 (indices va)" and ?l = "indices va ! 3"
  have up: "path 3 ?up" "length ?up = 3" "path 4 (indices va)" "length (indices va) = 4" "?up @ [?l] = indices va"
    using indices_path indices_4 [of va] by auto
  have leaf: "view st root (indices va) = Some (e, 0) \<longleftrightarrow>
      (\<exists>u. walk (mm_frames st) root ?up = Some u \<and> mm_frames st u ?l = e \<and> bit e 0)" for e
    using find_entry_leaf [of "mm_frames st" root ?up ?l e] up by (simp add: view_def)
  show ?thesis
  proof (cases "unmap_rejected space va \<or> (\<forall>e. view st root (indices va) \<noteq> Some (e, 0))")
    case True
    have "vmm_space_unmap_page space va st = (PMM_INVALID_ADDRESS, st)"
    proof (cases "walk (mm_frames st) root ?up")
      case (Some t)
      obtain ts where ts: "rev (tables_along (mm_frames st) root ?up) = t # ts"
        using tables_along_last [OF Some] by blast
      have "unmap_rejected space va \<or> \<not> bit (mm_frames st t ?l) 0" using True leaf Some by blast
      then show ?thesis
        using ts Some
        by (elim disjE) (simp_all add: vmm_space_unmap_page_def Let_def walk_tables_walk root_def)
    qed (simp add: vmm_space_unmap_page_def Let_def walk_tables_walk root_def)
    then show ?thesis using refused un True by simp
  next
    case False
    then obtain e where e: "view st root (indices va) = Some (e, 0)" by blast
    then obtain t where t: "walk (mm_frames st) root ?up = Some t" "mm_frames st t ?l = e" "bit e 0"
      using leaf by blast
    obtain ts where ts: "rev (tables_along (mm_frames st) root ?up) = t # ts" using tables_along_last [OF t(1)] by blast
    define st1 where "st1 = invlpg root va (write_entry t ?l 0 st)"
    have res: "pa = table_physical e"
      "st' = collapse_tables (rev (tables_along (mm_frames st) root ?up)) (rev ?up) st1"
      using False un t ts by (auto simp: vmm_space_unmap_page_def Let_def walk_tables_walk root_def st1_def)
    have ag: "agree_but (mm_frames st) (mm_frames st1) root t ?l" by (auto simp: agree_but_def st1_def)
    note I = space_invD [OF inv, folded root_def]
    note W = write_leaf [OF I(2) up(1,2) t(1) indices_path(3) ag]
    have f: "mm_frames st1 t ?l = 0" "mm_pmm st1 = mm_pmm st" "same_regs st st1" by (simp_all add: st1_def)
    have i1: "space_inv st1 root" using I W(2,3) by (simp add: space_inv_def f)
    have v1: "view st1 root = (view st root)(indices va := None)"
      using W(4) up by (auto simp: view_def fun_eq_iff f)
    have "tables_along (mm_frames st1) root ?up = tables_along (mm_frames st) root ?up"
      using W(1) path_take [OF up(1)] by (intro tables_along_cong) blast
    then have "pruned st1 root st'" "no_empty_table (mm_frames st') root ?up"
      using collapse_tables_spec [OF i1 up(1)] collapse_tables_no_empty [OF i1 up(1)] W(1) [OF up(1)] t(1) res(2)
      by simp_all
    then show ?thesis using unmapped [OF e res(1) v1 f(2,3) W(3)] by blast
  qed
qed

section \<open>Translation\<close>

text \<open>What a query reports of a leaf entry \<open>e\<close> when all tables above it grant user access.\<close>

definition leaf_flags :: "u64 \<Rightarrow> u64" where
  "leaf_flags e = VMM_PRESENT OR
     (e AND (VMM_WRITABLE OR VMM_USER OR VMM_NO_EXECUTE OR VMM_COPY_ON_WRITE))"

lemma page_bits:
  "(e AND PAGE_ADDRESS_MASK) AND NOT (push_bit 12 1 - 1 :: u64) = table_physical e"
proof -
  have eq: "push_bit 12 1 - 1 = (mask 12 :: u64)" by (simp add: mask_eq_exp_minus_1 push_bit_of_1)
  show ?thesis unfolding eq
    by (intro bit_word_eqI) (auto simp: entry_bits bit_mask_iff simp del: mask_numeral)
qed

lemma query_walk_leaf:
  assumes ok: "tree_ok (mm_frames st) root" and q: "path 4 q" "length q = 4"
    and t: "walk (mm_frames st) root (take 3 q) = Some t" "mm_frames st t (q ! 3) = e" "bit e 0"
    and user: "\<And>k v. bit e 2 \<Longrightarrow> k < 3 \<Longrightarrow> walk (mm_frames st) root (take k q) = Some v \<Longrightarrow>
       bit (mm_frames st v (q ! k)) 2"
  shows "query_walk st va True q root (VMM_WRITABLE OR VMM_USER) 0 =
    Some (table_physical e + (va AND 4095), leaf_flags e)"
proof -
  obtain a b c d where q4: "q = [a, b, c, d]" using q(2) by (auto simp: numeral_eq_Suc length_Suc_conv)
  let ?m = "mm_frames st"
  obtain t1 t2 where w: "walk ?m root [a] = Some t1" "walk ?m root [a, b] = Some t2"
    using t(1) by (auto simp: q4 split: if_splits)
  have e1: "bit (?m root a) 0" "\<not> bit (?m root a) 7" "t1 = table_physical (?m root a)"
    and e2: "bit (?m t1 b) 0" "\<not> bit (?m t1 b) 7" "t2 = table_physical (?m t1 b)"
    and e3: "bit (?m t2 c) 0" "\<not> bit (?m t2 c) 7" "t = table_physical (?m t2 c)"
    using w t(1) by (auto simp: q4 split: if_splits)
  have lt: "a < 512" "b < 512" "c < 512" using q(1) by (auto simp: q4 path_def)
  have p1: "bit (?m root a) 1 \<and> \<not> bit (?m root a) 63" "bit (?m t1 b) 1 \<and> \<not> bit (?m t1 b) 63"
    "bit (?m t2 c) 1 \<and> \<not> bit (?m t2 c) 63"
    using tree_perms [OF ok _ lt(1), of "[]"] tree_perms [OF ok _ lt(2) w(1)]
      tree_perms [OF ok _ lt(3) w(2)] e1 e2 e3 lt by (auto simp: path_def)
  have u: "bit e 2 \<Longrightarrow> bit (?m root a) 2" "bit e 2 \<Longrightarrow> bit (?m t1 b) 2" "bit e 2 \<Longrightarrow> bit (?m t2 c) 2"
    using user [of 0 root] user [of 1 t1] user [of 2 t2] w by (auto simp: q4 numeral_2_eq_2)
  have td: "?m t d = e" using t(2) by (simp add: q4)
  let ?WU = "VMM_WRITABLE OR VMM_USER"
  have "VMM_PRESENT OR (((((?WU AND (?m root a AND ?WU)) AND (?m t1 b AND ?WU)) AND (?m t2 c AND ?WU)) AND (e AND ?WU))) OR
      ((((0 OR (?m root a AND VMM_NO_EXECUTE)) OR (?m t1 b AND VMM_NO_EXECUTE)) OR (?m t2 c AND VMM_NO_EXECUTE)) OR (e AND VMM_NO_EXECUTE)) OR
      (e AND VMM_COPY_ON_WRITE) = leaf_flags e"
    by (rule bit_word_eqI) (use p1 u in \<open>auto simp: leaf_flags_def entry_bits\<close>)
  moreover have "va AND (push_bit 12 1 - 1) = va AND 4095" by (simp add: push_bit_of_1)
  ultimately show ?thesis
    using e1 e2 e3 td t(3) page_bits [of e] by (simp add: q4 Let_def)
qed

lemma query_walk_found:
  "query_walk st va root is t eff nx = Some (pa, f) \<Longrightarrow> \<not> bit nx 1 \<Longrightarrow>
   \<exists>e k. find_entry (mm_frames st) t is = Some (e, k) \<and> (bit f 1 \<longrightarrow> bit e 1) \<and> (bit e 63 \<longrightarrow> bit f 63)"
proof (induction st va root "is" t eff nx rule: query_walk.induct)
  case (2 st va root i "is" t eff nx)
  let ?e = "mm_frames st t i"
  have e0: "bit ?e 0" using "2.prems"(1) by (auto simp: Let_def split: if_splits)
  have nx: "\<not> bit (nx OR (?e AND VMM_NO_EXECUTE)) 1" using "2.prems"(2) by (simp add: entry_bits)
  show ?case
  proof (cases "is = [] \<or> bit ?e 7")
    case True
    then have "f = VMM_PRESENT OR (eff AND (?e AND (VMM_WRITABLE OR VMM_USER))) OR
        (nx OR (?e AND VMM_NO_EXECUTE)) OR (?e AND VMM_COPY_ON_WRITE)"
      using "2.prems"(1) e0 by (simp add: Let_def split: if_splits)
    then have "bit f 1 \<longrightarrow> bit ?e 1" "bit ?e 63 \<longrightarrow> bit f 63"
      using "2.prems"(2) by (simp_all add: entry_bits)
    then show ?thesis using True e0 by auto
  next
    case False
    then show ?thesis using "2.IH" [OF refl _ refl refl _ _ nx] "2.prems"(1) e0
      by (simp add: Let_def split: if_splits)
  qed
qed simp

section \<open>Copy on write\<close>

lemma fold_copy:
  fixes st :: mm_state
  assumes "s \<noteq> d"
  defines "f \<equiv> \<lambda>n. fold (\<lambda>i st. write_entry d i (mm_frames st s i) st) [0 ..< n] st"
  shows "mm_frames (f n) = (mm_frames st)(d := (\<lambda>i. if i < n then mm_frames st s i else mm_frames st d i)) \<and>
    mm_pmm (f n) = mm_pmm st \<and> same_regs st (f n)"
proof (induction n)
  case (Suc n)
  have "f (Suc n) = write_entry d n (mm_frames (f n) s n) (f n)" by (simp add: f_def)
  with Suc assms(1) show ?case by (auto simp: fun_eq_iff less_Suc_eq)
qed (simp add: f_def)

lemma copy_frame_fields:
  assumes "s \<noteq> d"
  shows "mm_frames (copy_frame s d st) = (mm_frames st)(d := (\<lambda>i. if i < 512 then mm_frames st s i else mm_frames st d i))"
    "mm_pmm (copy_frame s d st) = mm_pmm st" "same_regs st (copy_frame s d st)"
  using fold_copy [OF assms, of 512 st] by (simp_all only: copy_frame_def ENTRY_COUNT_def)

definition cow_entry :: "u64 \<Rightarrow> bool" where
  "cow_entry e \<longleftrightarrow> bit e 0 \<and> bit e 2 \<and> bit e 9 \<and> \<not> bit e 1"

lemma cow_entry_test:
  "\<not> (e AND (VMM_PRESENT OR VMM_USER OR VMM_COPY_ON_WRITE) \<noteq> (VMM_PRESENT OR VMM_USER OR VMM_COPY_ON_WRITE) \<or>
      e AND VMM_WRITABLE \<noteq> 0) \<longleftrightarrow> cow_entry e"
proof -
  let ?w = "VMM_PRESENT OR VMM_USER OR VMM_COPY_ON_WRITE"
  have "e AND ?w = ?w \<longleftrightarrow> bit e 0 \<and> bit e 2 \<and> bit e 9"
  proof
    assume eq: "e AND ?w = ?w"
    have "bit (e AND ?w) k = bit ?w k" for k by (simp only: eq)
    from this [of 0] this [of 2] this [of 9] show "bit e 0 \<and> bit e 2 \<and> bit e 9" by (simp add: entry_bits)
  qed (auto intro!: bit_word_eqI simp: entry_bits)
  then show ?thesis by (auto simp: cow_entry_def)
qed

text \<open>The entry a resolved page gets, on the frame \<open>a\<close>.\<close>

definition resolved_entry :: "u64 \<Rightarrow> u64 \<Rightarrow> u64" where
  "resolved_entry e a = (((a OR (e AND NOT PAGE_ADDRESS_MASK)) OR VMM_WRITABLE) AND NOT VMM_COPY_ON_WRITE)"

lemma resolved_entry_same: "resolved_entry e (table_physical e) = (e OR VMM_WRITABLE) AND NOT VMM_COPY_ON_WRITE"
  by (rule bit_word_eqI) (auto simp: resolved_entry_def entry_bits)

lemma resolved_entry_bits:
  assumes a: "is_frame a" and e: "cow_entry e"
  shows "table_physical (resolved_entry e a) = a" "bit (resolved_entry e a) 0" "bit (resolved_entry e a) 1"
    "bit (resolved_entry e a) 2" "\<not> bit (resolved_entry e a) 9" "bit (resolved_entry e a) 63 = bit e 63"
proof -
  have n: "bit a n \<Longrightarrow> 12 \<le> n \<and> n < 52" for n using is_frame_bit [OF a] .
  show "bit (resolved_entry e a) 0" "bit (resolved_entry e a) 1" "bit (resolved_entry e a) 2"
    "\<not> bit (resolved_entry e a) 9" "bit (resolved_entry e a) 63 = bit e 63"
    using e n [of 9] n [of 63] by (auto simp: resolved_entry_def cow_entry_def entry_bits)
  show "table_physical (resolved_entry e a) = a"
    by (rule bit_word_eqI) (use n n [of 9] in \<open>auto simp: resolved_entry_def entry_bits\<close>)
qed

lemma invlpg_space [simp]:
  "space_inv (invlpg r a st) root = space_inv st root" "view (invlpg r a st) root = view st root"
  by (simp_all add: space_inv_def view_def fun_eq_iff)

lemma pmm_alloc_user_frame:
  assumes "pmm_inv s" "pmm_alloc_user_page s = (a, t)" "a \<noteq> PMM_INVALID_ADDRESS"
  shows "is_frame a" "pmm_inv t" "frame_refs s a = 0" "frame_refs t = (frame_refs s)(a := 1)"
    "a \<in> free_frames s" "free_frames t = free_frames s - {a}"
  using alloc_page_with_reserve_refs(4) [of s PMM_KERNEL_RESERVE_PAGES a t] assms
    pmm_user.alloc_avail [OF assms] pmm_user.alloc_invar [OF assms(1,2)]
  by (simp_all add: pmm_alloc_user_page_def is_frame_iff)

lemma page_references_refs: "is_frame a \<Longrightarrow> unat (pmm_page_references s a) = frame_refs s a"
  by (simp add: frame_refs_def is_frame_not_top)

text \<open>
  What resolving a write fault does: the page's leaf points to the frame \<open>a\<close>, which is the old
  frame if nobody shared it and a fresh copy of it otherwise.
\<close>

definition cow_resolved :: "mm_state \<Rightarrow> u64 \<Rightarrow> nat list \<Rightarrow> u64 \<Rightarrow> u64 \<Rightarrow> mm_state \<Rightarrow> bool" where
  "cow_resolved st root q e a st' \<longleftrightarrow> view st root q = Some (e, 0) \<and> cow_entry e \<and> is_frame a \<and>
     space_inv st' root \<and> view st' root = (view st root)(q := Some (resolved_entry e a, 0)) \<and>
     tables_of (mm_frames st') root = tables_of (mm_frames st) root \<and>
     (\<forall>j < 512. mm_frames st' a j = mm_frames st (table_physical e) j \<and>
                mm_frames st' (table_physical e) j = mm_frames st (table_physical e) j) \<and>
     (if frame_refs (mm_pmm st) (table_physical e) = 1
      then a = table_physical e \<and> mm_pmm st' = mm_pmm st
      else a \<in> free_frames (mm_pmm st) \<and>
        frame_refs (mm_pmm st') = (frame_refs (mm_pmm st))
          (a := 1, table_physical e := frame_refs (mm_pmm st) (table_physical e) - 1))"

lemma resolve_cow_unfold:
  assumes sp: "space \<noteq> Null_Space" "address_is_canonical va"
    and t: "walk (mm_frames st) (space_pml4 st space) (take 3 (indices va)) = Some t"
  defines "e \<equiv> mm_frames st t (indices va ! 3)" and "root \<equiv> space_pml4 st space"
  shows "vmm_space_resolve_cow space va st =
    (if \<not> cow_entry e \<or> pmm_page_references (mm_pmm st) (table_physical e) = 0 then (Cow_Unhandled, st)
     else if pmm_page_references (mm_pmm st) (table_physical e) = 1
     then (Cow_Resolved, invlpg root (va AND NOT (4096 - 1))
        (write_entry t (indices va ! 3) (resolved_entry e (table_physical e)) st))
     else (case pmm_alloc_user_page (mm_pmm st) of (a, s) \<Rightarrow>
        if a = PMM_INVALID_ADDRESS then (Cow_Out_Of_Memory, st\<lparr>mm_pmm := s\<rparr>)
        else (Cow_Resolved, invlpg root (va AND NOT (4096 - 1))
          (write_entry t (indices va ! 3) (resolved_entry e a)
            (mm_free_page (table_physical e) (copy_frame (table_physical e) a (st\<lparr>mm_pmm := s\<rparr>)))))))"
proof -
  obtain ts where ts: "rev (tables_along (mm_frames st) root (take 3 (indices va))) = t # ts"
    using tables_along_last [OF t] unfolding root_def by blast
  have w: "walk_tables st (take 3 (indices va)) root [] = Some (t # ts)"
    using t ts by (simp add: walk_tables_walk root_def)
  note c = cow_entry_test [of e]
  show ?thesis
  proof (cases "cow_entry e")
    case True
    then have n: "\<not> (e AND (VMM_PRESENT OR VMM_USER OR VMM_COPY_ON_WRITE) \<noteq> VMM_PRESENT OR VMM_USER OR VMM_COPY_ON_WRITE \<or>
      e AND VMM_WRITABLE \<noteq> 0)" using c by blast
    show ?thesis
      unfolding vmm_space_resolve_cow_def Let_def root_def [symmetric] w option.case list.sel e_def [symmetric]
        if_not_P [OF n] resolved_entry_same
      using sp True by (cases "pmm_alloc_user_page (mm_pmm st)") (simp add: resolved_entry_def)
  next
    case False
    then have n: "e AND (VMM_PRESENT OR VMM_USER OR VMM_COPY_ON_WRITE) \<noteq> VMM_PRESENT OR VMM_USER OR VMM_COPY_ON_WRITE \<or>
      e AND VMM_WRITABLE \<noteq> 0" using c by blast
    show ?thesis
      unfolding vmm_space_resolve_cow_def Let_def root_def [symmetric] w option.case list.sel e_def [symmetric]
        if_P [OF n] using sp False by simp
  qed
qed

lemma resolve_cow_leaf:
  assumes "vmm_space_resolve_cow space va st = (r, st')" "r \<noteq> Cow_Unhandled"
  obtains t where "space \<noteq> Null_Space" "address_is_canonical va"
    "walk (mm_frames st) (space_pml4 st space) (take 3 (indices va)) = Some t"
proof -
  have "space \<noteq> Null_Space" "address_is_canonical va"
    using assms by (auto simp: vmm_space_resolve_cow_def split: if_splits)
  moreover have "walk (mm_frames st) (space_pml4 st space) (take 3 (indices va)) \<noteq> None"
  proof
    assume "walk (mm_frames st) (space_pml4 st space) (take 3 (indices va)) = None"
    then have "vmm_space_resolve_cow space va st = (Cow_Unhandled, st)"
      by (simp add: vmm_space_resolve_cow_def walk_tables_walk)
    with assms show False by simp
  qed
  ultimately show ?thesis using that by blast
qed

lemma write_leaf_view:
  assumes inv: "space_inv st root" and t: "walk (mm_frames st) root (take 3 (indices va)) = Some t"
    and st1: "mm_frames st1 = (mm_frames st)(a := h)" "a \<notin> tables_of (mm_frames st) root"
    and e: "bit e 0" and pm: "pmm_inv (mm_pmm st1)" "free_frames (mm_pmm st1) \<inter> tables_of (mm_frames st) root = {}"
  defines "st2 \<equiv> write_entry t (indices va ! 3) e st1"
  shows "space_inv st2 root" "view st2 root = (view st root)(indices va := Some (e, 0))"
    "tables_of (mm_frames st2) root = tables_of (mm_frames st) root"
proof -
  let ?up = "take 3 (indices va)" and ?l = "indices va ! 3"
  have up: "path 3 ?up" "length ?up = 3" "path 4 (indices va)" "length (indices va) = 4" "?up @ [?l] = indices va"
    using indices_path indices_4 [of va] by auto
  have ne: "t \<noteq> a" using tables_ofI [OF t up(1)] st1(2) by auto
  have ag: "agree_but (mm_frames st) (mm_frames st2) root t ?l"
    using st1(2) by (auto simp: agree_but_def st2_def st1(1))
  have f: "mm_frames st2 t ?l = e" "mm_pmm st2 = mm_pmm st1" by (simp_all add: st2_def)
  note W = write_leaf [OF space_invD(2) [OF inv] up(1,2) t indices_path(3) ag]
  show "space_inv st2 root" using W(2,3) pm by (simp add: space_inv_def f)
  show "tables_of (mm_frames st2) root = tables_of (mm_frames st) root" by (rule W(3))
  show "view st2 root = (view st root)(indices va := Some (e, 0))"
    using W(4) up e by (auto simp: view_def fun_eq_iff f)
qed

text \<open>A fault that copy-on-write explains: the address has a 4 KiB copy-on-write entry, and its frame is in use.\<close>

definition cow_fault :: "mm_state \<Rightarrow> space_ptr \<Rightarrow> u64 \<Rightarrow> u64 \<Rightarrow> bool" where
  "cow_fault st space va e \<longleftrightarrow> space \<noteq> Null_Space \<and> address_is_canonical va \<and>
     view st (space_pml4 st space) (indices va) = Some (e, 0) \<and> cow_entry e \<and>
     0 < frame_refs (mm_pmm st) (table_physical e)"

lemma vmm_space_resolve_cow_spec:
  assumes inv: "space_inv st (space_pml4 st space)" and res: "vmm_space_resolve_cow space va st = (r, st')"
    and data: "\<And>e. cow_fault st space va e \<Longrightarrow> table_physical e \<notin> tables_of (mm_frames st) (space_pml4 st space)"
  shows "(r \<noteq> Cow_Resolved \<longrightarrow> st' = st) \<and>
    (r = Cow_Resolved \<longrightarrow> (\<exists>e a. cow_resolved st (space_pml4 st space) (indices va) e a st'))"
proof (cases "r = Cow_Unhandled")
  case True
  then show ?thesis
    using res by (auto simp: vmm_space_resolve_cow_def Let_def split: if_splits option.splits prod.splits)
next
  case False
  define root where "root = space_pml4 st space"
  obtain t where sp: "space \<noteq> Null_Space" "address_is_canonical va"
    and t: "walk (mm_frames st) root (take 3 (indices va)) = Some t"
    using resolve_cow_leaf [OF res False] unfolding root_def by blast
  define e where "e = mm_frames st t (indices va ! 3)"
  define old where "old = table_physical e"
  note U = resolve_cow_unfold [OF sp t [unfolded root_def], folded root_def e_def old_def]
  have c: "cow_entry e" "pmm_page_references (mm_pmm st) old \<noteq> 0" using res False U by (auto split: if_splits)
  note I = space_invD [OF inv, folded root_def]
  have refs: "unat (pmm_page_references (mm_pmm st) old) = frame_refs (mm_pmm st) old"
    by (rule page_references_refs) (simp add: old_def)
  have e0: "bit e 0" using c(1) by (simp add: cow_entry_def)
  have "find_entry (mm_frames st) root (take 3 (indices va) @ [indices va ! 3]) = Some (e, 0)"
    using t e0 by (auto simp: find_entry_leaf e_def)
  then have v: "view st root (indices va) = Some (e, 0)"
    using indices_path(1) [of va] indices_4 [of va] by (simp add: view_def)
  have pos: "frame_refs (mm_pmm st) old \<noteq> 0" using c(2) refs by (metis unat_eq_0)
  have nt: "old \<notin> tables_of (mm_frames st) root"
    using data [of e] v sp c(1) pos by (simp add: root_def old_def cow_fault_def)
  have tt: "t \<in> tables_of (mm_frames st) root" by (rule tables_ofI [OF t indices_path(2)])
  have fo: "is_frame old" by (simp add: old_def)
  show ?thesis
  proof (cases "pmm_page_references (mm_pmm st) old = 1")
    case True
    have r1: "frame_refs (mm_pmm st) old = 1" using True refs by simp
    have st': "r = Cow_Resolved" "st' = invlpg root (va AND NOT (4096 - 1))
        (write_entry t (indices va ! 3) (resolved_entry e old) st)"
      using res U c True by simp_all
    have id: "mm_frames st = (mm_frames st)(old := mm_frames st old)" by simp
    note V = write_leaf_view [OF inv [folded root_def] t id nt resolved_entry_bits(2) [OF fo c(1)] I(1,3)]
    have "cow_resolved st root (indices va) e old st'"
      using V v c(1) r1 nt tt fo unfolding cow_resolved_def old_def [symmetric] st'(2) by auto
    then show ?thesis using st'(1) by (auto simp: root_def)
  next
    case False
    obtain a s where al: "pmm_alloc_user_page (mm_pmm st) = (a, s)" by fastforce
    show ?thesis
    proof (cases "a = PMM_INVALID_ADDRESS")
      case True
      then have "s = mm_pmm st" using pmm_user.alloc_fails [OF I(1)] al by blast
      then show ?thesis using res U c False al True by simp
    next
      case ok: False
      note A = pmm_alloc_user_frame [OF I(1) al ok]
      define st1 where "st1 = mm_free_page old (copy_frame old a (st\<lparr>mm_pmm := s\<rparr>))"
      have st': "r = Cow_Resolved" "st' = invlpg root (va AND NOT (4096 - 1))
          (write_entry t (indices va ! 3) (resolved_entry e a) st1)"
        using res U c False al ok by (simp_all add: st1_def)
      have at: "a \<notin> tables_of (mm_frames st) root" using A(5) I(3) by blast
      have ao: "a \<noteq> old" using A(3) pos by auto
      have f1: "mm_frames st1 = (mm_frames st)(a := (\<lambda>i. if i < 512 then mm_frames st old i else mm_frames st a i))"
        "mm_pmm st1 = snd (pmm_free_page old s)"
        using copy_frame_fields [of old a] ao by (simp_all add: st1_def cong: if_cong)
      have nto: "old \<notin> {TOP_PAGE}" using is_frame_not_top [OF fo] by simp
      have inv1: "pmm_inv (mm_pmm st1)" using pmm_user.free_invar [OF A(2) nto] by (simp add: f1)
      have own: "free_frames (mm_pmm st1) \<inter> tables_of (mm_frames st) root = {}"
        using pmm_user.free_avail [OF A(2) nto] A(6) I(3) nt by (auto simp: f1)
      note V = write_leaf_view [OF inv [folded root_def] t f1(1) at resolved_entry_bits(2) [OF A(1) c(1)] inv1 own]
      have "frame_refs (mm_pmm st) old \<noteq> 1" using False refs by (metis unat_1 word_unat_eq_iff)
      moreover have "frame_refs (mm_pmm st1) = (frame_refs (mm_pmm st))(a := 1, old := frame_refs (mm_pmm st) old - 1)"
        using pmm_user.free_refs [OF A(2) nto] A(4) ao by (simp add: f1(2))
      moreover have "mm_frames st' a j = mm_frames st old j \<and> mm_frames st' old j = mm_frames st old j" if "j < 512" for j
        using that ao at nt tt by (auto simp: st'(2) f1(1))
      ultimately have "cow_resolved st root (indices va) e a st'"
        using V v c(1) A(1,5) unfolding cow_resolved_def old_def [symmetric]
        by (simp add: st'(2))
      then show ?thesis using st'(1) by (auto simp: root_def)
    qed
  qed
qed

lemma resolve_cow_unhandled:
  assumes "\<And>e. \<not> cow_fault st space va e"
  shows "vmm_space_resolve_cow space va st = (Cow_Unhandled, st)"
proof -
  have "r = Cow_Unhandled" if res: "vmm_space_resolve_cow space va st = (r, st')" for r st'
  proof (rule ccontr)
    assume n: "r \<noteq> Cow_Unhandled"
    obtain t where sp: "space \<noteq> Null_Space" "address_is_canonical va"
      and t: "walk (mm_frames st) (space_pml4 st space) (take 3 (indices va)) = Some t"
      by (rule resolve_cow_leaf [OF res n])
    define e where "e = mm_frames st t (indices va ! 3)"
    have c: "cow_entry e" "pmm_page_references (mm_pmm st) (table_physical e) \<noteq> 0"
      using res n resolve_cow_unfold [OF sp t] by (auto simp: e_def split: if_splits)
    have "find_entry (mm_frames st) (space_pml4 st space) (take 3 (indices va) @ [indices va ! 3]) = Some (e, 0)"
      using t c(1) by (auto simp: find_entry_leaf e_def cow_entry_def)
    then have "view st (space_pml4 st space) (indices va) = Some (e, 0)"
      using indices_path(1) [of va] indices_4 [of va] by (simp add: view_def)
    moreover have "0 < frame_refs (mm_pmm st) (table_physical e)"
      using c(2) page_references_refs [of "table_physical e" "mm_pmm st"] unat_eq_0
      by (metis gr0I is_frame_table_physical)
    ultimately show False using assms sp c(1) by (auto simp: cow_fault_def)
  qed
  moreover have "st' = st" if "vmm_space_resolve_cow space va st = (Cow_Unhandled, st')" for st'
    using that by (auto simp: vmm_space_resolve_cow_def Let_def split: if_splits option.splits prod.splits)
  ultimately show ?thesis by (cases "vmm_space_resolve_cow space va st") auto
qed

lemma resolve_cow_handled:
  assumes inv: "space_inv st (space_pml4 st space)" and f: "cow_fault st space va e"
  shows "fst (vmm_space_resolve_cow space va st) =
    (if frame_refs (mm_pmm st) (table_physical e) = 1 \<or> 1024 < card (free_set (mm_pmm st))
     then Cow_Resolved else Cow_Out_Of_Memory)"
proof -
  have sp: "space \<noteq> Null_Space" "address_is_canonical va" and c: "cow_entry e"
    and v: "view st (space_pml4 st space) (indices va) = Some (e, 0)"
    and pos: "0 < frame_refs (mm_pmm st) (table_physical e)" using f by (auto simp: cow_fault_def)
  have "find_entry (mm_frames st) (space_pml4 st space) (take 3 (indices va) @ [indices va ! 3]) = Some (e, 0)"
    using v indices_path(1) [of va] indices_4 [of va] by (simp add: view_def)
  then obtain t where t: "walk (mm_frames st) (space_pml4 st space) (take 3 (indices va)) = Some t"
      "mm_frames st t (indices va ! 3) = e"
    using find_entry_leaf [of "mm_frames st" "space_pml4 st space" "take 3 (indices va)" "indices va ! 3" e]
      indices_path(2) [of va] indices_4 [of va] by auto
  have refs: "unat (pmm_page_references (mm_pmm st) (table_physical e)) = frame_refs (mm_pmm st) (table_physical e)"
    by (rule page_references_refs) simp
  obtain a s where al: "pmm_alloc_user_page (mm_pmm st) = (a, s)" by fastforce
  have p: "pmm_inv (mm_pmm st)" by (rule space_invD(1) [OF inv])
  have "a = PMM_INVALID_ADDRESS \<longleftrightarrow> free_pages (mm_pmm st) \<le> PMM_KERNEL_RESERVE_PAGES"
    using alloc_page_with_reserve_refs(2) [OF p] al by (simp add: pmm_alloc_user_page_def)
  then have "a = PMM_INVALID_ADDRESS \<longleftrightarrow> card (free_set (mm_pmm st)) \<le> 1024"
    using pmm_invD(5) [OF p] by (simp add: word_le_nat_alt PMM_KERNEL_RESERVE_PAGES_def)
  moreover have "pmm_page_references (mm_pmm st) (table_physical e) \<noteq> 0" using pos refs by auto
  moreover have "pmm_page_references (mm_pmm st) (table_physical e) = 1 \<longleftrightarrow> frame_refs (mm_pmm st) (table_physical e) = 1"
    using refs by (metis unat_1 word_unat_eq_iff)
  ultimately show ?thesis using resolve_cow_unfold [OF sp t(1)] t(2) c al by auto
qed

section \<open>Mapping succeeds when it can\<close>

text \<open>No large page stands in the way of the path.\<close>

fun clear_way :: "(u64 \<Rightarrow> nat \<Rightarrow> u64) \<Rightarrow> u64 \<Rightarrow> nat list \<Rightarrow> bool" where
  "clear_way m t [] = True"
| "clear_way m t (i # is) =
     (\<not> bit (m t i) 0 \<or> (\<not> bit (m t i) 7 \<and> clear_way m (table_physical (m t i)) is))"

lemma create_table_pages:
  assumes inv: "pmm_inv (mm_pmm st)" and free: "0 < card (free_set (mm_pmm st))"
  obtains st1 where "create_table t i flags st = (True, st1)"
    "card (free_set (mm_pmm st1)) + 1 = card (free_set (mm_pmm st))"
proof -
  obtain a s where a: "pmm_alloc_page (mm_pmm st) = (a, s)" by fastforce
  note A = alloc_page_with_reserve_refs [OF inv a [unfolded pmm_alloc_page_def]]
  have ok: "a \<noteq> PMM_INVALID_ADDRESS"
    using A(2) free pmm_invD(5) [OF inv] by (auto simp: word_le_nat_alt)
  have "unat (free_pages s) + 1 = unat (free_pages (mm_pmm st))"
  proof -
    have "free_pages (mm_pmm st) \<noteq> 0" using free pmm_invD(5) [OF inv] by auto
    then show ?thesis using A(4) ok free pmm_invD(5) [OF inv] by (simp add: unat_minus_one)
  qed
  then have "card (free_set s) + 1 = card (free_set (mm_pmm st))"
    using pmm_invD(5) [OF inv] pmm_invD(5) [OF A(1)] by simp
  with ok a that show ?thesis
    by (simp add: create_table_def mm_alloc_page_def)
qed

lemma walk_create_succeeds:
  assumes "space_inv st root" "walk (mm_frames st) root p = Some t" "path 3 (p @ is)"
    "clear_way (mm_frames st) t is" "length is \<le> card (free_set (mm_pmm st))"
  shows "fst (walk_create is flags t created st) \<noteq> None"
  using assms
proof (induction "is" flags t created st arbitrary: p rule: walk_create.induct)
  case (2 i "is" flags t created st)
  let ?e = "mm_frames st t i"
  have p2: "path 2 p" and i: "i < 512" using "2.prems"(3) by (auto simp: path_def)
  have pis: "path 3 ((p @ [i]) @ is)" using "2.prems"(3) by simp
  show ?case
  proof (cases "bit ?e 0")
    case True
    then have "walk (mm_frames st) root (p @ [i]) = Some (table_physical ?e)"
      using "2.prems"(2,4) by (simp add: walk_snoc)
    then show ?thesis using "2.IH"(2) [OF refl _ _ "2.prems"(1) _ pis] "2.prems"(4,5) True by (simp add: Let_def)
  next
    case absent: False
    have "0 < card (free_set (mm_pmm st))" using "2.prems"(5) by simp
    then obtain st1 where ct: "create_table t i flags st = (True, st1)"
      "card (free_set (mm_pmm st1)) + 1 = card (free_set (mm_pmm st))"
      using create_table_pages [OF space_invD(1) [OF "2.prems"(1)]] by blast
    obtain a where a: "is_frame a" "mm_frames st1 t i = table_entry a flags"
      "walk (mm_frames st1) root (p @ [i]) = Some a" "\<And>j. j < 512 \<Longrightarrow> mm_frames st1 a j = 0" "space_inv st1 root"
      using create_table_True [OF "2.prems"(1) p2 "2.prems"(2) i absent ct(1)] by metis
    have ch: "table_physical (mm_frames st1 t i) = a" using table_entry_bits(3) [OF a(1)] a(2) by simp
    have "clear_way (mm_frames st1) a is"
    proof (cases "is")
      case (Cons j js)
      then have "j < 512" using "2.prems"(3) by (simp add: path_def)
      then show ?thesis using a(4) Cons by simp
    qed simp
    then have "fst (walk_create is flags a ((t, i, a) # created) st1) \<noteq> None"
      using "2.IH"(1) [OF refl _ ct(1) [symmetric] refl _ a(5) _ pis] absent ch a(3) ct(2) "2.prems"(5) by auto
    then show ?thesis using absent ct(1) ch by (simp add: Let_def)
  qed
qed simp

lemma create_table_cost:
  assumes inv: "pmm_inv (mm_pmm st)" and ct: "create_table t i flags st = (ok, st1)"
  shows "pmm_inv (mm_pmm st1)" "card (free_set (mm_pmm st)) \<le> card (free_set (mm_pmm st1)) + 1"
proof -
  obtain a s where a: "pmm_alloc_page (mm_pmm st) = (a, s)" by fastforce
  note A = alloc_page_with_reserve_refs [OF inv a [unfolded pmm_alloc_page_def]]
  have "mm_pmm st1 = s" using ct a by (auto simp: create_table_def mm_alloc_page_def split: if_splits)
  then show "pmm_inv (mm_pmm st1)" using A(1) by simp
  show "card (free_set (mm_pmm st)) \<le> card (free_set (mm_pmm st1)) + 1"
  proof (cases "card (free_set (mm_pmm st)) = 0")
    case False
    then show ?thesis using create_table_pages [OF inv, of t i flags] ct by (metis less_or_eq_imp_le neq0_conv prod.inject)
  qed simp
qed

lemma walk_create_cost:
  "pmm_inv (mm_pmm st) \<Longrightarrow> walk_create is flags t created st = (r, created', st') \<Longrightarrow>
   card (free_set (mm_pmm st)) \<le> card (free_set (mm_pmm st')) + length is"
proof (induction "is" flags t created st rule: walk_create.induct)
  case (2 i "is" flags t created st)
  obtain ok st1 where ct: "create_table t i flags st = (ok, st1)" by fastforce
  note C = create_table_cost [OF "2.prems"(1) ct]
  show ?case
  proof (cases "bit (mm_frames st t i) 0")
    case True
    then show ?thesis using "2.IH"(2) [OF refl] "2.prems" by (auto simp: Let_def split: if_splits)
  next
    case False
    then show ?thesis
      using "2.IH"(1) [OF refl _ ct [symmetric] _ refl] "2.prems"(2) C ct by (cases ok) (auto simp: Let_def)
  qed
qed simp

lemma mark_user_pmm: "mm_pmm (mark_user is t st) = mm_pmm st"
  by (induction "is" t st rule: mark_user.induct) (simp_all add: Let_def)

lemma map_page_locked_cost:
  assumes inv: "pmm_inv (mm_pmm st)" and map: "map_page_locked space va pa flags st = (True, st')"
  shows "card (free_set (mm_pmm st)) \<le> card (free_set (mm_pmm st')) + 3"
proof -
  let ?up = "take 3 (indices va)"
  obtain r created st1 where wc: "walk_create ?up flags (space_pml4 st space) [] st = (r, created, st1)"
    by (metis prod_cases3)
  have "mm_pmm st' = mm_pmm st1"
    using map wc by (auto simp: map_page_locked_def Let_def mark_user_pmm split: if_splits option.splits)
  then show ?thesis using walk_create_cost [OF inv wc] indices_4(2) [of va] by simp
qed

lemma map_page_locked_succeeds:
  assumes inv: "space_inv st (space_pml4 st space)" and ok: "\<not> map_rejected space va pa flags"
    and free: "3 \<le> card (free_set (mm_pmm st))"
    and way: "clear_way (mm_frames st) (space_pml4 st space) (take 3 (indices va))"
    and unmapped: "view st (space_pml4 st space) (indices va) = None"
  shows "fst (map_page_locked space va pa flags st)"
proof -
  let ?up = "take 3 (indices va)" and ?l = "indices va ! 3" and ?root = "space_pml4 st space"
  obtain r created st1 where wc: "walk_create ?up flags ?root [] st = (r, created, st1)" by (metis prod_cases3)
  have "fst (walk_create ?up flags ?root [] st) \<noteq> None"
    using walk_create_succeeds [OF inv, of "[]" ?root ?up] indices_path(2) free way indices_4(2) by simp
  then obtain t where r: "r = Some t" using wc by auto
  have d: "descended st ?root created st1" "walk (mm_frames st1) ?root ?up = Some t"
    using walk_create_spec [OF inv, of "[]" ?root ?up flags "[]"] indices_path(2) wc r by auto
  have "find_entry (mm_frames st1) ?root (?up @ [?l]) \<noteq> Some (mm_frames st1 t ?l, 0)"
  proof -
    have "view st1 ?root (indices va) = None" using d(1) unmapped by (simp add: descended_def)
    then show ?thesis using indices_path(1) [of va] indices_4 [of va] by (simp add: view_def)
  qed
  then have "\<not> bit (mm_frames st1 t ?l) 0" using d(2) by (auto simp: find_entry_leaf)
  then show ?thesis using ok wc r by (simp add: map_page_locked_def Let_def)
qed

lemma same_page:
  assumes "drop_bit 12 va' = drop_bit 12 (va :: u64)"
  shows "indices va' = indices va" "address_is_canonical va' = address_is_canonical va"
proof -
  have d: "drop_bit n va' = drop_bit n va" if "12 \<le> n" for n
  proof -
    have "drop_bit n x = drop_bit (n - 12) (drop_bit 12 x)" for x :: u64 using that by (simp add: drop_bit_drop_bit)
    then show ?thesis using assms by metis
  qed
  show "indices va' = indices va" by (simp add: indices_def d)
  have "bit va' 47 = bit va 47"
    using arg_cong [OF d [of 47], of "\<lambda>x. bit x 0"] by (simp only: bit_drop_bit_eq comp_apply) simp
  then show "address_is_canonical va' = address_is_canonical va"
    unfolding address_is_canonical_def and_push_bit_1_eq_0 using d [of 48] by simp
qed

lemma leaf_flags_entry:
  assumes "is_frame pa"
  shows "leaf_flags (leaf_entry pa flags) =
    VMM_PRESENT OR (flags AND (VMM_WRITABLE OR VMM_USER OR VMM_NO_EXECUTE OR VMM_COPY_ON_WRITE))"
proof -
  have n: "bit pa n \<Longrightarrow> 12 \<le> n \<and> n < 52" for n using is_frame_bit [OF assms] .
  show ?thesis
    by (rule bit_word_eqI) (use n [of 1] n [of 2] n [of 9] n [of 63] in \<open>auto simp: leaf_flags_def leaf_entry_def entry_bits\<close>)
qed

section \<open>W xor X\<close>

text \<open>
  No leaf of a space is both writable and executable, and a leaf that a write fault can make
  writable is not executable.
\<close>

definition wx_ok :: "mm_state \<Rightarrow> u64 \<Rightarrow> bool" where
  "wx_ok st root \<longleftrightarrow> (\<forall>q e k. view st root q = Some (e, k) \<longrightarrow> bit e 1 \<or> bit e 9 \<longrightarrow> bit e 63)"

text \<open>The frame of a copy-on-write leaf is in use, and is not a table of the space.\<close>

definition cow_held :: "mm_state \<Rightarrow> u64 \<Rightarrow> bool" where
  "cow_held st root \<longleftrightarrow> (\<forall>q e k. view st root q = Some (e, k) \<longrightarrow> bit e 9 \<longrightarrow>
     0 < frame_refs (mm_pmm st) (table_physical e) \<and> table_physical e \<notin> tables_of (mm_frames st) root)"

lemma cow_held_upd:
  assumes "cow_held st root" "view st' root = (view st root)(q := v)"
    "\<And>e k. v = Some (e, k) \<Longrightarrow> bit e 9 \<Longrightarrow>
       0 < frame_refs (mm_pmm st') (table_physical e) \<and> table_physical e \<notin> tables_of (mm_frames st') root"
    "\<And>a. 0 < frame_refs (mm_pmm st) a \<Longrightarrow> a \<notin> tables_of (mm_frames st) root \<Longrightarrow>
       0 < frame_refs (mm_pmm st') a \<and> a \<notin> tables_of (mm_frames st') root"
  shows "cow_held st' root"
  using assms unfolding cow_held_def by (metis fun_upd_apply)

lemma wx_ok_upd:
  assumes "wx_ok st root" "view st' root = (view st root)(q := v)"
    "\<And>e k. v = Some (e, k) \<Longrightarrow> bit e 1 \<or> bit e 9 \<Longrightarrow> bit e 63"
  shows "wx_ok st' root"
  using assms unfolding wx_ok_def by (metis fun_upd_apply)

lemma wx_query:
  assumes wx: "wx_ok st root" and q: "query_root root va st = Some (pa, f)"
  shows "bit f 1 \<longrightarrow> bit f 63"
proof -
  obtain e k where e: "find_entry (mm_frames st) root (indices va) = Some (e, k)"
    "bit f 1 \<longrightarrow> bit e 1" "bit e 63 \<longrightarrow> bit f 63"
    using query_walk_found [of st va True "indices va" root "VMM_WRITABLE OR VMM_USER" 0 pa f] q
    by (auto simp: query_root_def split: if_splits)
  then have "view st root (indices va) = Some (e, k)" using indices_path(1) indices_4(2) by (simp add: view_def)
  then show ?thesis using wx e unfolding wx_ok_def by blast
qed

lemma map_page_locked_query:
  assumes "space_inv st (space_pml4 st space)" "is_frame pa"
    "map_page_locked space va pa flags st = (True, st')" "drop_bit 12 va' = drop_bit 12 va"
  shows "vmm_space_query space va' st' = Some (pa + (va' AND 4095),
    VMM_PRESENT OR (flags AND (VMM_WRITABLE OR VMM_USER OR VMM_NO_EXECUTE OR VMM_COPY_ON_WRITE)))"
proof (rule map_page_locked_True [OF assms(1,2) assms(3)])
  fix t
  let ?root = "space_pml4 st space" and ?e = "leaf_entry pa flags"
  assume ok: "\<not> map_rejected space va pa flags" and inv: "space_inv st' ?root" and regs: "same_regs st st'"
    and t: "walk (mm_frames st') ?root (take 3 (indices va)) = Some t" "mm_frames st' t (indices va ! 3) = ?e"
    and user: "\<And>k v. bit flags 2 \<Longrightarrow> k < 3 \<Longrightarrow> walk (mm_frames st') ?root (take k (indices va)) = Some v \<Longrightarrow>
       bit (mm_frames st' v (indices va ! k)) 2"
  have r: "space_pml4 st' space = ?root" using regs by (simp add: space_pml4_def same_regs_def split: space_ptr.split)
  have c: "space \<noteq> Null_Space" "address_is_canonical va'"
    using ok same_page(2) [OF assms(4)] by (auto simp: map_rejected_def)
  note L = leaf_entry_bits [OF assms(2)]
  have "query_walk st' va' True (indices va) ?root (VMM_WRITABLE OR VMM_USER) 0 =
      Some (table_physical ?e + (va' AND 4095), leaf_flags ?e)"
    by (rule query_walk_leaf [OF space_invD(2) [OF inv] indices_path(1) indices_4(2) t L(1)])
      (use user L(5) in auto)
  then show ?thesis
    using c by (simp add: vmm_space_query_def query_root_def r same_page(1) [OF assms(4)] L(3)
        leaf_flags_entry [OF assms(2)])
qed

section \<open>Properties\<close>

text \<open>
  A kernel with an empty root table on the 8 MiB machine, for the examples. A second, user, space
  object lives at heap address 0x40 with its root at 0x20000000.
\<close>

definition demo_mm :: mm_state where
  "demo_mm = \<lparr>mm_pmm = demo_big, mm_frames = (\<lambda>_ _. 0), mm_kernel_pml4 = 0x10000000,
     mm_spaces = (\<lambda>_. 0x20000000), mm_cr3 = 0x10000000, mm_flushed = []\<rparr>"

lemma demo_big_free: "free_set demo_big = {2 ..< 2048}"
proof -
  have "unat (page_count demo_big) = 2048" by (simp add: demo_big_def)
  then show ?thesis by (auto simp: free_set_def demo_big_test)
qed

lemma empty_root_inv:
  assumes pm: "pmm_inv (mm_pmm st)" "unat (page_count (mm_pmm st)) * 4096 \<le> unat root"
    and root: "is_frame root" and z: "\<And>i. mm_frames st root i = 0"
  shows "space_inv st root" "view st root q = None" "clear_way (mm_frames st) root q"
proof -
  have w: "walk (mm_frames st) root p = (if p = [] then Some root else None)" for p
    using z by (cases p) auto
  have "tree_ok (mm_frames st) root" by (rule tree_okI [OF root]) (auto simp: w z split: if_splits)
  moreover have "root \<notin> free_frames (mm_pmm st)"
  proof
    assume "root \<in> free_frames (mm_pmm st)"
    then obtain p where p: "p < unat (page_count (mm_pmm st))" "root = word_of_nat p * 4096"
      by (auto simp: free_frames_def free_set_def)
    then show False using unat_frame_address [of p] pmm_invD(7) [OF pm(1)] pm(2) by simp
  qed
  ultimately show "space_inv st root" using pm by (auto simp: space_inv_def tables_of_def w split: if_splits)
  show "view st root q = None" "clear_way (mm_frames st) root q"
    using z by (cases q; auto simp: view_def)+
qed

lemma demo_mm_inv:
  "space_inv demo_mm 0x10000000" "view demo_mm 0x10000000 q = None"
  "space_inv demo_mm 0x20000000" "view demo_mm 0x20000000 q = None"
  "clear_way (mm_frames demo_mm) 0x20000000 q" "clear_way (mm_frames demo_mm) 0x10000000 q"
proof -
  have "page_count demo_big = 2048" by (simp add: demo_big_def)
  then have b: "unat (page_count (mm_pmm demo_mm)) * 4096 = 0x800000" by (simp add: demo_mm_def)
  have i: "pmm_inv (mm_pmm demo_mm)" by (simp add: demo_mm_def demo_big_inv)
  show "space_inv demo_mm 0x10000000" "view demo_mm 0x10000000 q = None"
    "clear_way (mm_frames demo_mm) 0x10000000 q"
    using empty_root_inv [OF i, of "0x10000000"] b by (simp_all add: is_frame_iff) (simp_all add: demo_mm_def)
  show "space_inv demo_mm 0x20000000" "view demo_mm 0x20000000 q = None"
    "clear_way (mm_frames demo_mm) 0x20000000 q"
    using empty_root_inv [OF i, of "0x20000000"] b by (simp_all add: is_frame_iff) (simp_all add: demo_mm_def)
qed

lemma demo_map:
  "fst (vmm_space_map_page (Heap_Space 0x40) 0x400000 0x30000000
     (VMM_USER OR VMM_WRITABLE OR VMM_NO_EXECUTE) demo_mm)"
proof -
  let ?f = "VMM_USER OR VMM_WRITABLE OR VMM_NO_EXECUTE"
  have r: "space_pml4 demo_mm (Heap_Space 0x40) = 0x20000000" by (simp add: space_pml4_def demo_mm_def)
  have "3 \<le> card (free_set (mm_pmm demo_mm))" by (simp add: demo_mm_def demo_big_free)
  moreover have "\<not> map_rejected (Heap_Space 0x40) 0x400000 0x30000000 ?f"
    by (simp add: map_rejected_def address_is_canonical_def PMM_INVALID_ADDRESS_def entry_bits)
  ultimately show ?thesis
    using map_page_locked_succeeds [of demo_mm "Heap_Space 0x40" "0x400000" "0x30000000" ?f] demo_mm_inv
    by (simp add: vmm_space_map_page_def r)
qed

text \<open>
  A page shared by two users: a frame with two references, mapped copy-on-write in the user space.
\<close>

definition shared_frame :: u64 where
  "shared_frame = fst (pmm_alloc_user_page demo_big)"

definition demo_shared :: mm_state where
  "demo_shared = demo_mm\<lparr>mm_pmm := snd (pmm_retain_page shared_frame (snd (pmm_alloc_user_page demo_big)))\<rparr>"

definition demo_cow :: mm_state where
  "demo_cow = snd (vmm_space_map_page (Heap_Space 0x40) 0x400000 shared_frame
     (VMM_USER OR VMM_NO_EXECUTE OR VMM_COPY_ON_WRITE) demo_shared)"

lemma demo_shared_pmm:
  "is_frame shared_frame" "pmm_inv (mm_pmm demo_shared)" "frame_refs (mm_pmm demo_shared) shared_frame = 2"
  "shared_frame \<notin> free_frames (mm_pmm demo_shared)" "card (free_set (mm_pmm demo_shared)) = 2045"
  "unat (page_count (mm_pmm demo_shared)) = 2048" "shared_frame \<noteq> 0x20000000"
proof -
  define a s where "a = fst (pmm_alloc_user_page demo_big)" and "s = snd (pmm_alloc_user_page demo_big)"
  have al: "pmm_alloc_user_page demo_big = (a, s)" by (simp add: a_def s_def)
  note R = alloc_page_with_reserve_refs [OF demo_big_inv al [unfolded pmm_alloc_user_page_def]]
  have fp: "free_pages demo_big = 2046" by (simp add: demo_big_def)
  then have ok: "a \<noteq> PMM_INVALID_ADDRESS" using R(2) by (simp add: PMM_KERNEL_RESERVE_PAGES_def)
  note A = pmm_alloc_user_frame [OF demo_big_inv al ok]
  obtain t where t: "pmm_retain_page a s = (True, t)" "pmm_inv t" "frame_refs t = (frame_refs s)(a := frame_refs s a + 1)"
    using pmm_user.retain_live [OF A(2), of a] A(4) by auto
  have g: "free_set t = free_set s" "page_count t = page_count s" "free_pages t = free_pages s"
    using t(1) by (auto simp: pmm_retain_page_def Let_def free_set_def bitmap_test_def split: if_splits)
  have sh: "mm_pmm demo_shared = t" "shared_frame = a"
    using t(1) by (simp_all add: demo_shared_def shared_frame_def a_def s_def)
  show "is_frame shared_frame" "pmm_inv (mm_pmm demo_shared)" using A(1) t(2) by (simp_all add: sh)
  show "frame_refs (mm_pmm demo_shared) shared_frame = 2" using t(3) A(4) by (simp add: sh)
  show "shared_frame \<notin> free_frames (mm_pmm demo_shared)" using A(6) g(1) by (simp add: sh free_frames_def)
  have "free_pages s = 2045" using R(4) ok fp by simp
  then show "card (free_set (mm_pmm demo_shared)) = 2045" using pmm_invD(5) [OF t(2)] g by (simp add: sh)
  have "page_count demo_big = 2048" by (simp add: demo_big_def)
  then show "unat (page_count (mm_pmm demo_shared)) = 2048" using R(4) ok g(2) by (simp add: sh same_layout_def)
  obtain p where "a = word_of_nat p * 4096" "p < 2048"
    using A(5) demo_big_free by (auto simp: free_frames_def)
  then have "unat shared_frame < 0x800000" using unat_frame_address [of p] by (simp add: sh)
  moreover have "unat (0x20000000 :: u64) = 0x20000000" by simp
  ultimately have "unat shared_frame \<noteq> unat (0x20000000 :: u64)" by linarith
  then show "shared_frame \<noteq> 0x20000000" by (rule contrapos_nn) (rule arg_cong)
qed

lemma demo_shared_inv:
  "space_pml4 demo_shared (Heap_Space 0x40) = 0x20000000" "space_inv demo_shared 0x20000000"
  "view demo_shared 0x20000000 q = None" "clear_way (mm_frames demo_shared) 0x20000000 q"
  "tables_of (mm_frames demo_shared) 0x20000000 = {0x20000000}"
proof -
  note P = demo_shared_pmm
  have z: "mm_frames demo_shared = (\<lambda>_ _. 0)" by (simp add: demo_shared_def demo_mm_def)
  show "space_pml4 demo_shared (Heap_Space 0x40) = 0x20000000"
    by (simp add: space_pml4_def demo_shared_def demo_mm_def)
  show "space_inv demo_shared 0x20000000" "view demo_shared 0x20000000 q = None"
    "clear_way (mm_frames demo_shared) 0x20000000 q"
    using empty_root_inv [OF P(2), of "0x20000000"] P(6) by (simp_all add: is_frame_iff z)
  have "walk (\<lambda>_ _. 0) 0x20000000 p = (if p = [] then Some 0x20000000 else None)" for p by (cases p) auto
  then show "tables_of (mm_frames demo_shared) 0x20000000 = {0x20000000}"
    by (auto simp: tables_of_def z path_def split: if_splits)
qed

lemma demo_cow:
  "space_pml4 demo_cow (Heap_Space 0x40) = 0x20000000" "space_inv demo_cow 0x20000000"
  "view demo_cow 0x20000000 (indices 0x400000) =
     Some (leaf_entry shared_frame (VMM_USER OR VMM_NO_EXECUTE OR VMM_COPY_ON_WRITE), 0)"
  "frame_refs (mm_pmm demo_cow) shared_frame = 2" "1024 < card (free_set (mm_pmm demo_cow))"
  "shared_frame \<notin> tables_of (mm_frames demo_cow) 0x20000000"
proof -
  let ?f = "VMM_USER OR VMM_NO_EXECUTE OR VMM_COPY_ON_WRITE"
  note P = demo_shared_pmm and I = demo_shared_inv
  have a: "shared_frame mod 4096 = 0" "shared_frame \<noteq> PMM_INVALID_ADDRESS"
    using is_frame_not_invalid [OF P(1)] P(1) by (simp_all add: is_frame_iff)
  have "\<not> map_rejected (Heap_Space 0x40) 0x400000 shared_frame ?f"
    using a by (simp add: map_rejected_def address_is_canonical_def entry_bits)
  then have "fst (map_page_locked (Heap_Space 0x40) 0x400000 shared_frame ?f demo_shared)"
    using map_page_locked_succeeds [of demo_shared "Heap_Space 0x40" "0x400000" shared_frame ?f] P(5) I by simp
  then have m: "map_page_locked (Heap_Space 0x40) 0x400000 shared_frame ?f demo_shared = (True, demo_cow)"
    by (cases "map_page_locked (Heap_Space 0x40) 0x400000 shared_frame ?f demo_shared")
      (simp add: demo_cow_def vmm_space_map_page_def)
  obtain i: "space_inv demo_cow 0x20000000" and r: "same_regs demo_shared demo_cow"
    and v: "view demo_cow 0x20000000 (indices 0x400000) = Some (leaf_entry shared_frame ?f, 0)"
    and g: "grown demo_shared 0x20000000 demo_cow"
    by (rule map_page_locked_True [of demo_shared "Heap_Space 0x40", OF _ P(1) m]) (use I(1,2) in simp_all)
  show "space_pml4 demo_cow (Heap_Space 0x40) = 0x20000000"
    using r I(1) by (simp add: space_pml4_def same_regs_def)
  show "space_inv demo_cow 0x20000000" "view demo_cow 0x20000000 (indices 0x400000) = Some (leaf_entry shared_frame ?f, 0)"
    by (fact i v)+
  show "frame_refs (mm_pmm demo_cow) shared_frame = 2" using g P(3,4) by (simp add: grown_def)
  show "1024 < card (free_set (mm_pmm demo_cow))" using map_page_locked_cost [OF P(2) m] P(5) by simp
  show "shared_frame \<notin> tables_of (mm_frames demo_cow) 0x20000000" using g P(4,7) I(5) by (auto simp: grown_def)
qed

text \<open>C7. Mapping a page is a point update: when it succeeds the page was not mapped before, now has
  exactly the requested leaf entry, no other page of the space changed its entry, and the tables
  still form a tree no frame of which can be allocated.\<close>

theorem vmm_map_page_refines:
  assumes "space_inv st (space_pml4 st space)" "is_frame pa"
    "vmm_space_map_page space va pa flags st = (True, st')"
  shows "space_inv st' (space_pml4 st space) \<and> view st (space_pml4 st space) (indices va) = None \<and>
    view st' (space_pml4 st space) =
      (view st (space_pml4 st space))(indices va := Some (leaf_entry pa flags, 0))"
  by (rule map_page_locked_True [OF assms(1,2) assms(3) [unfolded vmm_space_map_page_def]]) blast

theorem vmm_map_page_refines_witness:
  "view (snd (vmm_space_map_page (Heap_Space 0x40) 0x400000 0x30000000
     (VMM_USER OR VMM_WRITABLE OR VMM_NO_EXECUTE) demo_mm)) 0x20000000 (indices 0x400000) =
   Some (leaf_entry 0x30000000 (VMM_USER OR VMM_WRITABLE OR VMM_NO_EXECUTE), 0)"
proof -
  let ?f = "VMM_USER OR VMM_WRITABLE OR VMM_NO_EXECUTE"
  obtain ok st' where m: "vmm_space_map_page (Heap_Space 0x40) 0x400000 0x30000000 ?f demo_mm = (ok, st')"
    by fastforce
  have r: "space_pml4 demo_mm (Heap_Space 0x40) = 0x20000000" by (simp add: space_pml4_def demo_mm_def)
  show ?thesis
    using vmm_map_page_refines [of demo_mm "Heap_Space 0x40" "0x30000000" "0x400000" ?f st'] demo_mm_inv(3) demo_map m
    by (simp add: r is_frame_iff)
qed

text \<open>C8. After a successful map every address of the page translates to the frame plus its
  offset, and the query reports exactly the writable, user, no-execute and copy-on-write bits that
  were asked for.\<close>

theorem vmm_map_page_query:
  assumes "space_inv st (space_pml4 st space)" "is_frame pa"
    "vmm_space_map_page space va pa flags st = (True, st')" "drop_bit 12 va' = drop_bit 12 va"
  shows "vmm_space_query space va' st' = Some (pa + (va' AND 4095),
    VMM_PRESENT OR (flags AND (VMM_WRITABLE OR VMM_USER OR VMM_NO_EXECUTE OR VMM_COPY_ON_WRITE)))"
  by (rule map_page_locked_query [OF assms(1,2) assms(3) [unfolded vmm_space_map_page_def] assms(4)])

theorem vmm_map_page_query_witness:
  "vmm_space_query (Heap_Space 0x40) 0x400123 (snd (vmm_space_map_page (Heap_Space 0x40) 0x400000 0x30000000
     (VMM_USER OR VMM_WRITABLE OR VMM_NO_EXECUTE) demo_mm)) =
   Some (0x30000123, VMM_PRESENT OR VMM_USER OR VMM_WRITABLE OR VMM_NO_EXECUTE)"
proof -
  let ?f = "VMM_USER OR VMM_WRITABLE OR VMM_NO_EXECUTE"
  obtain ok st' where m: "vmm_space_map_page (Heap_Space 0x40) 0x400000 0x30000000 ?f demo_mm = (ok, st')"
    by fastforce
  have r: "space_pml4 demo_mm (Heap_Space 0x40) = 0x20000000" by (simp add: space_pml4_def demo_mm_def)
  have "VMM_PRESENT OR (?f AND (VMM_WRITABLE OR VMM_USER OR VMM_NO_EXECUTE OR VMM_COPY_ON_WRITE)) =
      VMM_PRESENT OR VMM_USER OR VMM_WRITABLE OR VMM_NO_EXECUTE"
    by (rule bit_word_eqI) (auto simp: entry_bits)
  moreover have "drop_bit 12 0x400123 = (drop_bit 12 0x400000 :: u64)" by (simp add: drop_bit_eq_div)
  ultimately show ?thesis
    using vmm_map_page_query [of demo_mm "Heap_Space 0x40" "0x30000000" "0x400000" ?f st' "0x400123"]
      demo_mm_inv(3) demo_map m
    by (simp add: r is_frame_iff)
qed

text \<open>C9. A map that fails, for whatever reason and however far it got, leaves every translation of
  the space as it was and holds on to no frame: all reference counts are as before.\<close>

theorem vmm_map_page_fail_unchanged:
  assumes "space_inv st (space_pml4 st space)" "vmm_space_map_page space va pa flags st = (False, st')"
  shows "space_inv st' (space_pml4 st space) \<and> view st' (space_pml4 st space) = view st (space_pml4 st space) \<and>
    frame_refs (mm_pmm st') = frame_refs (mm_pmm st)"
  using map_page_locked_False [OF assms(1) assms(2) [unfolded vmm_space_map_page_def]] undone_view
  by (simp add: undone_def)

theorem vmm_map_page_fail_unchanged_witness:
  "view (snd (vmm_space_map_page (Heap_Space 0x40) 0x400000 0x30000001 0 demo_mm)) 0x20000000 =
   view demo_mm 0x20000000"
proof -
  have r: "space_pml4 demo_mm (Heap_Space 0x40) = 0x20000000" by (simp add: space_pml4_def demo_mm_def)
  have "map_rejected (Heap_Space 0x40) 0x400000 0x30000001 0" by (simp add: map_rejected_def)
  then have "vmm_space_map_page (Heap_Space 0x40) 0x400000 0x30000001 0 demo_mm = (False, demo_mm)"
    by (simp add: vmm_space_map_page_def map_page_locked_def)
  then show ?thesis
    using vmm_map_page_fail_unchanged [of demo_mm "Heap_Space 0x40" "0x400000" "0x30000001" 0 demo_mm]
      demo_mm_inv(3) by (simp add: r)
qed

text \<open>C10. Mapping does not fail without cause: with three free frames, no large page in the way and
  the page not mapped, an accepted request succeeds.\<close>

theorem vmm_map_page_succeeds:
  assumes "space_inv st (space_pml4 st space)" "\<not> map_rejected space va pa flags"
    "3 \<le> card (free_set (mm_pmm st))"
    "clear_way (mm_frames st) (space_pml4 st space) (take 3 (indices va))"
    "view st (space_pml4 st space) (indices va) = None"
  shows "fst (vmm_space_map_page space va pa flags st)"
  using map_page_locked_succeeds [OF assms] by (simp add: vmm_space_map_page_def)

theorem vmm_map_page_succeeds_witness:
  "fst (vmm_space_map_page (Heap_Space 0x40) 0x400000 0x30000000 (VMM_USER OR VMM_NO_EXECUTE) demo_mm)"
proof -
  have r: "space_pml4 demo_mm (Heap_Space 0x40) = 0x20000000" by (simp add: space_pml4_def demo_mm_def)
  have "\<not> map_rejected (Heap_Space 0x40) 0x400000 0x30000000 (VMM_USER OR VMM_NO_EXECUTE)"
    by (simp add: map_rejected_def address_is_canonical_def PMM_INVALID_ADDRESS_def entry_bits)
  moreover have "3 \<le> card (free_set (mm_pmm demo_mm))" by (simp add: demo_mm_def demo_big_free)
  ultimately show ?thesis
    using vmm_map_page_succeeds [of demo_mm "Heap_Space 0x40" "0x400000" "0x30000000" "VMM_USER OR VMM_NO_EXECUTE"]
      demo_mm_inv by (simp add: r)
qed

text \<open>C11. Unmapping a mapped page is a point deletion that returns the frame the page had and keeps every
  other page's entry. The tables of the space only shrink, each table given back loses one reference and
  no other frame does, and no table on the path of the page, the root apart, is left without a present
  entry. If the page has no 4 KiB mapping or the request is refused, nothing changes.\<close>

theorem vmm_unmap_page_refines:
  assumes "space_inv st (space_pml4 st space)" "vmm_space_unmap_page space va st = (pa, st')"
  defines "root \<equiv> space_pml4 st space"
  shows "if unmap_rejected space va \<or> (\<forall>e. view st root (indices va) \<noteq> Some (e, 0))
    then pa = PMM_INVALID_ADDRESS \<and> st' = st
    else (\<exists>e. view st root (indices va) = Some (e, 0) \<and> pa = table_physical e) \<and>
      space_inv st' root \<and> view st' root = (view st root)(indices va := None) \<and>
      tables_of (mm_frames st') root \<subseteq> tables_of (mm_frames st) root \<and>
      no_empty_table (mm_frames st') root (take 3 (indices va)) \<and>
      frame_refs (mm_pmm st') = (\<lambda>a. if a \<in> tables_of (mm_frames st) root - tables_of (mm_frames st') root
        then frame_refs (mm_pmm st) a - 1 else frame_refs (mm_pmm st) a)"
  using assms(1,2)
proof (cases rule: vmm_space_unmap_page_cases)
  case refused
  then show ?thesis by (simp add: root_def)
next
  case (unmapped e st1)
  have "\<not> unmap_rejected space va"
    using assms(2) unmapped(2) is_frame_not_invalid [OF is_frame_table_physical [of e]]
    by (auto simp: vmm_space_unmap_page_def)
  moreover have "\<not> (\<forall>e. view st root (indices va) \<noteq> Some (e, 0))" using unmapped(1) by (simp add: root_def)
  ultimately show ?thesis
    using unmapped by (simp add: pruned_def root_def cong: if_cong)
qed

theorem vmm_unmap_page_refines_witness:
  "vmm_space_unmap_page (Heap_Space 0x40) 0x400000 demo_mm = (PMM_INVALID_ADDRESS, demo_mm) \<and>
   fst (vmm_space_unmap_page (Heap_Space 0x40) 0x400000 (snd (vmm_space_map_page (Heap_Space 0x40)
     0x400000 0x30000000 (VMM_USER OR VMM_WRITABLE OR VMM_NO_EXECUTE) demo_mm))) = 0x30000000"
proof -
  let ?f = "VMM_USER OR VMM_WRITABLE OR VMM_NO_EXECUTE"
  have r: "space_pml4 demo_mm (Heap_Space 0x40) = 0x20000000" by (simp add: space_pml4_def demo_mm_def)
  obtain p u where u: "vmm_space_unmap_page (Heap_Space 0x40) 0x400000 demo_mm = (p, u)" by fastforce
  have 1: "p = PMM_INVALID_ADDRESS \<and> u = demo_mm"
    using vmm_unmap_page_refines [of demo_mm "Heap_Space 0x40" "0x400000" p u] demo_mm_inv(3,4) u by (simp add: r)
  obtain st' where m: "map_page_locked (Heap_Space 0x40) 0x400000 0x30000000 ?f demo_mm = (True, st')"
    using demo_map
    by (cases "map_page_locked (Heap_Space 0x40) 0x400000 0x30000000 ?f demo_mm")
      (simp add: vmm_space_map_page_def)
  have f: "is_frame 0x30000000" by (simp add: is_frame_iff)
  obtain "space_inv st' 0x20000000" "same_regs demo_mm st'"
    "view st' 0x20000000 (indices 0x400000) = Some (leaf_entry 0x30000000 ?f, 0)"
    by (rule map_page_locked_True [of demo_mm "Heap_Space 0x40", OF _ f m]) (use demo_mm_inv(3) in \<open>simp_all add: r\<close>)
  moreover from this(2) have "space_pml4 st' (Heap_Space 0x40) = 0x20000000"
    using r by (simp add: space_pml4_def same_regs_def)
  moreover have "\<not> unmap_rejected (Heap_Space 0x40) 0x400000"
    by (simp add: unmap_rejected_def address_is_canonical_def)
  moreover obtain q v where "vmm_space_unmap_page (Heap_Space 0x40) 0x400000 st' = (q, v)" by fastforce
  ultimately show ?thesis
    using vmm_unmap_page_refines [of st' "Heap_Space 0x40" "0x400000" q v] 1 u m leaf_entry_bits(3) [OF f]
    by (simp add: vmm_space_map_page_def)
qed

text \<open>C12. A write fault is resolved exactly if the address has a 4 KiB copy-on-write entry for user mode
  whose frame is in use, and the frame is not shared or there are more free frames than the 1024 the kernel
  keeps back; a shared frame without free frames gives the out-of-memory result and any other fault is left
  unhandled, both with the state unchanged. Resolving makes the page writable with unchanged contents. The
  page keeps its frame if it was the only user; otherwise it gets a fresh frame with a copy, the other users
  keep the old frame with its contents, and the old frame loses exactly one reference. The frame of the
  faulting page is assumed not to be one of the page tables of the space.\<close>

theorem vmm_resolve_cow_correct:
  assumes "space_inv st (space_pml4 st space)" "vmm_space_resolve_cow space va st = (r, st')"
    "\<And>e. cow_fault st space va e \<Longrightarrow> table_physical e \<notin> tables_of (mm_frames st) (space_pml4 st space)"
  shows "if \<exists>e. cow_fault st space va e
    then \<exists>e. cow_fault st space va e \<and>
      (if frame_refs (mm_pmm st) (table_physical e) = 1 \<or> 1024 < card (free_set (mm_pmm st))
       then r = Cow_Resolved \<and> (\<exists>a. cow_resolved st (space_pml4 st space) (indices va) e a st')
       else r = Cow_Out_Of_Memory \<and> st' = st)
    else r = Cow_Unhandled \<and> st' = st"
proof (cases "\<exists>e. cow_fault st space va e")
  case True
  then obtain e where e: "cow_fault st space va e" by blast
  then have u: "cow_fault st space va e'' \<Longrightarrow> e'' = e" for e'' by (simp add: cow_fault_def)
  have v: "view st (space_pml4 st space) (indices va) = Some (e, 0)" using e by (simp add: cow_fault_def)
  have r: "r = (if frame_refs (mm_pmm st) (table_physical e) = 1 \<or> 1024 < card (free_set (mm_pmm st))
      then Cow_Resolved else Cow_Out_Of_Memory)"
    using resolve_cow_handled [OF assms(1) e] assms(2) by simp
  have "(r \<noteq> Cow_Resolved \<longrightarrow> st' = st) \<and>
      (r = Cow_Resolved \<longrightarrow> (\<exists>e a. cow_resolved st (space_pml4 st space) (indices va) e a st'))"
    by (rule vmm_space_resolve_cow_spec [OF assms(1,2)]) (rule assms(3))
  then show ?thesis using e r v by (auto simp: cow_resolved_def)
next
  case False
  then show ?thesis using resolve_cow_unhandled [of st space va] assms(2) by simp
qed

theorem vmm_resolve_cow_correct_witness:
  "\<exists>st' e. vmm_space_resolve_cow (Heap_Space 0x40) 0x400000 demo_cow = (Cow_Resolved, st') \<and>
     view st' 0x20000000 (indices 0x400000) = Some (e, 0) \<and> bit e 1 \<and> table_physical e \<noteq> shared_frame \<and>
     mm_frames st' (table_physical e) 7 = mm_frames demo_cow shared_frame 7 \<and>
     frame_refs (mm_pmm st') shared_frame = 1"
proof -
  let ?e = "leaf_entry shared_frame (VMM_USER OR VMM_NO_EXECUTE OR VMM_COPY_ON_WRITE)"
  note D = demo_cow and L = leaf_entry_bits [OF demo_shared_pmm(1)]
  obtain r st' where res: "vmm_space_resolve_cow (Heap_Space 0x40) 0x400000 demo_cow = (r, st')" by fastforce
  have f: "cow_fault demo_cow (Heap_Space 0x40) 0x400000 e \<longleftrightarrow> e = ?e" for e
    using D L by (auto simp: cow_fault_def cow_entry_def address_is_canonical_def entry_bits)
  have "r = Cow_Resolved \<and> (\<exists>a. cow_resolved demo_cow 0x20000000 (indices 0x400000) ?e a st')"
    using vmm_resolve_cow_correct [of demo_cow "Heap_Space 0x40" "0x400000" r st'] D res by (simp add: f L(3))
  then obtain a where r: "r = Cow_Resolved" and c: "cow_resolved demo_cow 0x20000000 (indices 0x400000) ?e a st'" by blast
  have ne: "a \<noteq> shared_frame"
    using c D(4) L(3) pmm_user.avail_unreferenced [OF space_invD(1) [OF D(2)]] by (auto simp: cow_resolved_def)
  have "cow_entry ?e" "is_frame a" using c by (simp_all add: cow_resolved_def)
  note E = resolved_entry_bits [OF this(2,1)]
  show ?thesis
    using res r c ne E D(4) L(3) by (intro exI [of _ st'] exI [of _ "resolved_entry ?e a"]) (simp add: cow_resolved_def)
qed

section \<open>Any sequence of operations on a space\<close>

text \<open>
  The operations that change the mappings of one space. A caller maps frames of the physical address
  space. One that maps a frame copy-on-write makes the page no-execute, holds a reference on the frame
  and does not pass a page table of the space; the fork of a space, the only caller that uses the flag,
  takes a writable page of the parent, which is no-execute, and retains its frame first.
\<close>

inductive space_step :: "space_ptr \<Rightarrow> mm_state \<Rightarrow> mm_state \<Rightarrow> bool" for space where
  step_map: "is_frame pa \<Longrightarrow>
    (bit flags 9 \<longrightarrow> bit flags 63 \<and> 0 < frame_refs (mm_pmm st) pa \<and>
       pa \<notin> tables_of (mm_frames st) (space_pml4 st space)) \<Longrightarrow>
    vmm_space_map_page space va pa flags st = (ok, st') \<Longrightarrow> space_step space st st'"
| step_unmap: "vmm_space_unmap_page space va st = (pa, st') \<Longrightarrow> space_step space st st'"
| step_cow: "vmm_space_resolve_cow space va st = (r, st') \<Longrightarrow> space_step space st st'"
| step_activate: "vmm_space_activate any st = st' \<Longrightarrow> space_step space st st'"

inductive_cases space_stepE: "space_step space st st'"

lemma same_regs_pml4: "same_regs st st' \<Longrightarrow> space_pml4 st' space = space_pml4 st space"
  by (simp add: space_pml4_def same_regs_def split: space_ptr.split)

lemma copy_frame_regs: "same_regs s (copy_frame a d st) = same_regs s st"
proof -
  have "same_regs s (fold (\<lambda>i st. write_entry d i (mm_frames st a i) st) xs st) = same_regs s st" for xs
    by (induction xs arbitrary: st) simp_all
  then show ?thesis by (simp add: copy_frame_def)
qed

lemma resolve_cow_regs: "vmm_space_resolve_cow space va st = (r, st') \<Longrightarrow> same_regs st st'"
proof -
  assume res: "vmm_space_resolve_cow space va st = (r, st')"
  have upd: "same_regs st (st\<lparr>mm_pmm := p\<rparr>)" for p by (simp add: same_regs_def)
  show ?thesis
  proof (cases "r = Cow_Unhandled")
    case True
    then show ?thesis
      using res by (auto simp: vmm_space_resolve_cow_def Let_def split: if_splits option.splits prod.splits)
  next
    case False
    obtain t where "space \<noteq> Null_Space" "address_is_canonical va"
      "walk (mm_frames st) (space_pml4 st space) (take 3 (indices va)) = Some t"
      by (rule resolve_cow_leaf [OF res False])
    from res [unfolded resolve_cow_unfold [OF this]] show ?thesis
      by (cases "pmm_alloc_user_page (mm_pmm st)") (auto simp: copy_frame_regs upd split: if_splits)
  qed
qed

lemma unmap_regs:
  assumes "space_inv st (space_pml4 st space)" "vmm_space_unmap_page space va st = (pa, st')"
  shows "same_regs st st'"
  using assms by (cases rule: vmm_space_unmap_page_cases) (auto simp: pruned_def intro: same_regs_trans)

definition kept :: "mm_state \<Rightarrow> u64 \<Rightarrow> mm_state \<Rightarrow> bool" where
  "kept st root st' \<longleftrightarrow> space_inv st' root \<and> wx_ok st' root \<and> cow_held st' root \<and> same_regs st st'"

lemma map_kept:
  assumes inv: "space_inv st (space_pml4 st space)" "wx_ok st (space_pml4 st space)" "cow_held st (space_pml4 st space)"
    and f: "is_frame pa" "bit flags 9 \<longrightarrow> bit flags 63 \<and> 0 < frame_refs (mm_pmm st) pa \<and>
       pa \<notin> tables_of (mm_frames st) (space_pml4 st space)"
    and m: "map_page_locked space va pa flags st = (ok, st')"
  shows "kept st (space_pml4 st space) st'"
proof (cases ok)
  case True
  then have m: "map_page_locked space va pa flags st = (True, st')" using m by simp
  show ?thesis
  proof (rule map_page_locked_True [OF inv(1) f(1) m])
    let ?root = "space_pml4 st space"
    assume nr: "\<not> map_rejected space va pa flags" and i: "space_inv st' ?root" "same_regs st st'"
      and v: "view st' ?root = (view st ?root)(indices va := Some (leaf_entry pa flags, 0))"
      and g: "grown st ?root st'"
    note L = leaf_entry_bits [OF f(1)]
    have "bit flags 1 \<longrightarrow> bit flags 63" using nr by (auto simp: map_rejected_def)
    then have "wx_ok st' ?root" using L f(2) by (intro wx_ok_upd [OF inv(2) v]) auto
    moreover have held: "0 < frame_refs (mm_pmm st') a \<and> a \<notin> tables_of (mm_frames st') ?root"
      if "0 < frame_refs (mm_pmm st) a" "a \<notin> tables_of (mm_frames st) ?root" for a
    proof -
      have "a \<notin> free_frames (mm_pmm st)"
        using that pmm_kernel.avail_unreferenced [OF space_invD(1) [OF inv(1)], of a] by auto
      then show ?thesis using that g unfolding grown_def by (metis Un_iff subsetD)
    qed
    have "cow_held st' ?root"
      by (rule cow_held_upd [OF inv(3) v]) (use L f(2) held in auto)
    ultimately show ?thesis using i by (simp add: kept_def)
  qed
next
  case False
  then have u: "undone st (space_pml4 st space) st'" using m map_page_locked_False [OF inv(1)] by simp
  then have "tables_of (mm_frames st') (space_pml4 st space) = tables_of (mm_frames st) (space_pml4 st space)"
    using same_tree_tables by (simp add: undone_def)
  then show ?thesis
    using u undone_view [OF u] inv(2,3) by (simp add: kept_def undone_def wx_ok_def cow_held_def)
qed

lemma unmap_kept:
  assumes inv: "space_inv st (space_pml4 st space)" "wx_ok st (space_pml4 st space)" "cow_held st (space_pml4 st space)"
    and u: "vmm_space_unmap_page space va st = (pa, st')"
  shows "kept st (space_pml4 st space) st'"
  using inv(1) u
proof (cases rule: vmm_space_unmap_page_cases)
  case refused
  then show ?thesis using inv by (simp add: kept_def)
next
  case (unmapped e st1)
  let ?root = "space_pml4 st space"
  have v: "view st' ?root = (view st ?root)(indices va := None)"
    using unmapped by (simp add: pruned_def)
  have "cow_held st' ?root"
    by (rule cow_held_upd [OF inv(3) v]) (use unmapped in \<open>auto simp: pruned_def\<close>)
  then show ?thesis
    using wx_ok_upd [OF inv(2) v] unmapped(7) unmap_regs [OF inv(1) u] by (simp add: kept_def pruned_def)
qed

lemma cow_kept:
  assumes inv: "space_inv st (space_pml4 st space)" "wx_ok st (space_pml4 st space)" "cow_held st (space_pml4 st space)"
    and c: "vmm_space_resolve_cow space va st = (r, st')"
  shows "kept st (space_pml4 st space) st'"
proof -
  let ?root = "space_pml4 st space"
  have d: "cow_fault st space va e \<Longrightarrow> table_physical e \<notin> tables_of (mm_frames st) ?root" for e
    using inv(3) unfolding cow_fault_def cow_held_def cow_entry_def by blast
  show ?thesis
  proof (cases "r = Cow_Resolved")
    case False
    then show ?thesis using vmm_space_resolve_cow_spec [OF inv(1) c d] inv by (simp add: kept_def)
  next
    case True
    then obtain e a where c': "cow_resolved st ?root (indices va) e a st'"
      using vmm_space_resolve_cow_spec [OF inv(1) c d] by auto
    then have v: "view st' ?root = (view st ?root)(indices va := Some (resolved_entry e a, 0))"
      and e: "cow_entry e" "view st ?root (indices va) = Some (e, 0)" "is_frame a"
      and t: "tables_of (mm_frames st') ?root = tables_of (mm_frames st) ?root"
      by (simp_all add: cow_resolved_def)
    note E = resolved_entry_bits [OF e(3,1)]
    have "bit e 63" using e inv(2) unfolding wx_ok_def cow_entry_def by blast
    then have "wx_ok st' ?root" using E by (intro wx_ok_upd [OF inv(2) v]) auto
    moreover have "0 < frame_refs (mm_pmm st) (table_physical e)"
      using inv(3) e unfolding cow_held_def cow_entry_def by blast
    then have "0 < frame_refs (mm_pmm st') b" if "0 < frame_refs (mm_pmm st) b" for b
      using c' that by (auto simp: cow_resolved_def split: if_splits)
    then have "cow_held st' ?root" using t E by (intro cow_held_upd [OF inv(3) v]) auto
    ultimately show ?thesis using c' resolve_cow_regs [OF c] by (simp add: kept_def cow_resolved_def)
  qed
qed

lemma activate_space:
  "space_inv (vmm_space_activate any st) root = space_inv st root" "wx_ok (vmm_space_activate any st) root = wx_ok st root"
  "cow_held (vmm_space_activate any st) root = cow_held st root"
  "space_pml4 (vmm_space_activate any st) space = space_pml4 st space"
  by (simp_all add: vmm_space_activate_def space_inv_def wx_ok_def cow_held_def view_def space_pml4_def split: space_ptr.split)

lemma space_step_inv:
  assumes step: "space_step space st st'" and inv: "space_inv st (space_pml4 st space)" "wx_ok st (space_pml4 st space)"
    "cow_held st (space_pml4 st space)"
  shows "space_inv st' (space_pml4 st space) \<and> wx_ok st' (space_pml4 st space) \<and> cow_held st' (space_pml4 st space) \<and>
    space_pml4 st' space = space_pml4 st space"
  using step
proof cases
  case (step_map pa flags va ok)
  then have "kept st (space_pml4 st space) st'"
    using map_kept [OF inv] by (simp add: vmm_space_map_page_def)
  then show ?thesis using same_regs_pml4 by (simp add: kept_def)
next
  case (step_unmap va pa)
  then show ?thesis using unmap_kept [OF inv] same_regs_pml4 by (simp add: kept_def)
next
  case (step_cow va r)
  then show ?thesis using cow_kept [OF inv] same_regs_pml4 by (simp add: kept_def)
next
  case (step_activate any)
  then show ?thesis using inv activate_space by auto
qed

lemma space_steps_inv:
  assumes "(space_step space)\<^sup>*\<^sup>* st st'" and inv: "space_inv st (space_pml4 st space)" "wx_ok st (space_pml4 st space)"
    "cow_held st (space_pml4 st space)"
  shows "space_inv st' (space_pml4 st space) \<and> wx_ok st' (space_pml4 st space) \<and> cow_held st' (space_pml4 st space) \<and>
    space_pml4 st' space = space_pml4 st space"
  using assms(1)
proof (induction rule: rtranclp_induct)
  case base
  then show ?case using inv by simp
next
  case (step u v)
  then show ?case using space_step_inv [OF step(2)] by simp
qed



text \<open>C36. The no-execute condition on copy-on-write maps is needed: the map operation refuses a writable
  page that is executable but accepts a copy-on-write page that is, and the first write fault on such a page
  makes it writable and executable.\<close>

theorem vmm_cow_map_executable:
  assumes "space_inv st (space_pml4 st space)" "is_frame pa" "pa \<notin> tables_of (mm_frames st) (space_pml4 st space)"
    "0 < frame_refs (mm_pmm st) pa" "frame_refs (mm_pmm st) pa = 1 \<or> 1027 < card (free_set (mm_pmm st))"
    "vmm_space_map_page space va pa (VMM_USER OR VMM_COPY_ON_WRITE) st = (True, st1)"
  shows "\<exists>st2 e. vmm_space_resolve_cow space va st1 = (Cow_Resolved, st2) \<and>
    view st2 (space_pml4 st space) (indices va) = Some (e, 0) \<and> bit e 1 \<and> \<not> bit e 63"
proof -
  let ?root = "space_pml4 st space" and ?e = "leaf_entry pa (VMM_USER OR VMM_COPY_ON_WRITE)"
  have m: "map_page_locked space va pa (VMM_USER OR VMM_COPY_ON_WRITE) st = (True, st1)"
    using assms(6) by (simp add: vmm_space_map_page_def)
  obtain i: "\<not> map_rejected space va pa (VMM_USER OR VMM_COPY_ON_WRITE)" "space_inv st1 ?root" "same_regs st st1"
    and v: "view st1 ?root = (view st ?root)(indices va := Some (?e, 0))" and g: "grown st ?root st1"
    by (rule map_page_locked_True [OF assms(1,2) m])
  note L = leaf_entry_bits [OF assms(2)]
  have r: "space_pml4 st1 space = ?root" by (rule same_regs_pml4 [OF i(3)])
  have nf: "pa \<notin> free_frames (mm_pmm st)"
    using assms(4) pmm_kernel.avail_unreferenced [OF space_invD(1) [OF assms(1)], of pa] by auto
  then have p: "pa \<notin> tables_of (mm_frames st1) ?root" "frame_refs (mm_pmm st1) pa = frame_refs (mm_pmm st) pa"
    using g assms(3) by (auto simp: grown_def)
  have c: "cow_fault st1 space va e \<longleftrightarrow> e = ?e" for e
  proof -
    have "space \<noteq> Null_Space" "address_is_canonical va" using i(1) unfolding map_rejected_def by blast+
    moreover have "cow_entry ?e" using L by (simp add: cow_entry_def entry_bits)
    ultimately show ?thesis using v r p(2) assms(4) L(3) by (auto simp: cow_fault_def)
  qed
  have d: "cow_fault st1 space va e \<Longrightarrow> table_physical e \<notin> tables_of (mm_frames st1) (space_pml4 st1 space)" for e
    using c p(1) L(3) r by simp
  have "frame_refs (mm_pmm st1) pa = 1 \<or> 1024 < card (free_set (mm_pmm st1))"
    using assms(5) p(2) map_page_locked_cost [OF space_invD(1) [OF assms(1)] m] by auto
  then have "fst (vmm_space_resolve_cow space va st1) = Cow_Resolved"
    using resolve_cow_handled [of st1 space va ?e] c i(2) L(3) r by simp
  then obtain st2 where st2: "vmm_space_resolve_cow space va st1 = (Cow_Resolved, st2)" by (metis prod.collapse)
  obtain e a where ea: "cow_resolved st1 ?root (indices va) e a st2"
    using vmm_space_resolve_cow_spec [OF _ st2 d] i(2) r by auto
  then have e: "e = ?e" "cow_entry e" "is_frame a" using v by (simp_all add: cow_resolved_def)
  note E = resolved_entry_bits [OF e(3,2)]
  have "\<not> bit (resolved_entry e a) 63" using E(6) L(7) e(1) by (simp add: entry_bits)
  then show ?thesis using st2 ea E(3) unfolding cow_resolved_def by (metis fun_upd_same)
qed

theorem vmm_cow_map_executable_witness:
  "\<exists>st1 st2 e. vmm_space_map_page (Heap_Space 0x40) 0x400000 shared_frame (VMM_USER OR VMM_COPY_ON_WRITE)
       demo_shared = (True, st1) \<and>
     vmm_space_resolve_cow (Heap_Space 0x40) 0x400000 st1 = (Cow_Resolved, st2) \<and>
     view st2 0x20000000 (indices 0x400000) = Some (e, 0) \<and> bit e 1 \<and> \<not> bit e 63"
proof -
  let ?f = "VMM_USER OR VMM_COPY_ON_WRITE"
  note P = demo_shared_pmm and I = demo_shared_inv
  have a: "shared_frame mod 4096 = 0" "shared_frame \<noteq> PMM_INVALID_ADDRESS"
    using is_frame_not_invalid [OF P(1)] P(1) by (simp_all add: is_frame_iff)
  have "\<not> map_rejected (Heap_Space 0x40) 0x400000 shared_frame ?f"
    using a by (simp add: map_rejected_def address_is_canonical_def entry_bits)
  then have "fst (map_page_locked (Heap_Space 0x40) 0x400000 shared_frame ?f demo_shared)"
    using map_page_locked_succeeds [of demo_shared "Heap_Space 0x40" "0x400000" shared_frame ?f] P(5) I by simp
  then obtain st1 where m: "vmm_space_map_page (Heap_Space 0x40) 0x400000 shared_frame ?f demo_shared = (True, st1)"
    by (metis (full_types) prod.collapse vmm_space_map_page_def)
  then show ?thesis
    using vmm_cow_map_executable [of demo_shared "Heap_Space 0x40" shared_frame "0x400000" st1] P I by fastforce
qed

end
