(* ===== verification/Block_List.thy ===== *)
theory Block_List
  imports ConeOS_Prelude
begin

text \<open>
  The abstract heap that \<^verbatim>\<open>kmalloc.c\<close> implements: a sequence of blocks, each a payload size and
  whether it is in use, that tiles the heap with a header of 32 bytes before every payload. First-fit
  allocation, splitting, merging and growing are list operations; what a client sees is the set of live
  payloads.
\<close>

section \<open>Block lists\<close>

type_synonym block = "nat \<times> bool"

definition span :: "block list \<Rightarrow> nat" where
  "span bs = sum_list (map (\<lambda>(size, used). 32 + size) bs)"

lemma span_simps [simp]:
  "span [] = 0" "span ((s, u) # bs) = 32 + s + span bs" "span (as @ bs) = span as + span bs"
  by (simp_all add: span_def)

text \<open>The live payloads of a list that starts at offset \<open>x\<close>: offset and size.\<close>

fun live_blocks :: "nat \<Rightarrow> block list \<Rightarrow> (nat \<times> nat) set" where
  "live_blocks x [] = {}"
| "live_blocks x ((s, u) # bs) = (if u then {(x + 32, s)} else {}) \<union> live_blocks (x + 32 + s) bs"

lemma live_blocks_append [simp]:
  "live_blocks x (as @ bs) = live_blocks x as \<union> live_blocks (x + span as) bs"
proof (induction x as rule: live_blocks.induct)
  case (2 x s u as)
  have "x + 32 + s + span as = x + (32 + s + span as)" by simp
  with 2 show ?case by (simp only: append_Cons live_blocks.simps span_simps Un_assoc)
qed simp

lemma live_blocks_range: "(o', s) \<in> live_blocks x bs \<Longrightarrow> x + 32 \<le> o' \<and> o' + s \<le> x + span bs"
  by (induction x bs rule: live_blocks.induct) (auto split: if_splits)

lemma live_blocks_disjoint:
  "(o1, s1) \<in> live_blocks x bs \<Longrightarrow> (o2, s2) \<in> live_blocks x bs \<Longrightarrow>
   (o1, s1) = (o2, s2) \<or> o1 + s1 + 32 \<le> o2 \<or> o2 + s2 + 32 \<le> o1"
proof (induction x bs rule: live_blocks.induct)
  case (2 x s u bs)
  have r: "(p, l) \<in> live_blocks x ((s, u) # bs) \<Longrightarrow>
      p = x + 32 \<and> l = s \<or> (p, l) \<in> live_blocks (x + 32 + s) bs \<and> x + 32 + s + 32 \<le> p" for p l
    by (auto split: if_splits dest: live_blocks_range)
  from r [OF "2.prems"(1)] r [OF "2.prems"(2)] show ?case using "2.IH" by fastforce
qed simp

lemma live_blocks_finite [simp]: "finite (live_blocks x bs)"
  by (induction x bs rule: live_blocks.induct) auto

lemma card_live_blocks: "card (live_blocks x bs) = length (filter snd bs)"
proof (induction x bs rule: live_blocks.induct)
  case (2 x s u bs)
  have "(x + 32, s) \<notin> live_blocks (x + 32 + s) bs" by (auto dest: live_blocks_range)
  with 2 show ?case by simp
qed simp

text \<open>
  Sizes are multiples of 16 and no two free blocks are neighbours.
\<close>

definition sizes_ok :: "block list \<Rightarrow> bool" where
  "sizes_ok bs \<longleftrightarrow> (\<forall>(s, u) \<in> set bs. 16 \<le> s \<and> s mod 16 = 0)"

fun coalesced :: "block list \<Rightarrow> bool" where
  "coalesced ((s, u) # (t, v) # bs) \<longleftrightarrow> (u \<or> v) \<and> coalesced ((t, v) # bs)"
| "coalesced bs \<longleftrightarrow> True"

lemma sizes_ok_simps [simp]:
  "sizes_ok []" "sizes_ok ((s, u) # bs) \<longleftrightarrow> 16 \<le> s \<and> s mod 16 = 0 \<and> sizes_ok bs"
  "sizes_ok (as @ bs) \<longleftrightarrow> sizes_ok as \<and> sizes_ok bs"
  by (auto simp: sizes_ok_def)

lemma coalesced_Cons: "coalesced (b # bs) \<longleftrightarrow> (bs = [] \<or> snd b \<or> snd (hd bs)) \<and> coalesced bs"
  by (cases b; cases bs) auto

lemma coalesced_append:
  "coalesced (as @ bs) \<longleftrightarrow> coalesced as \<and> coalesced bs \<and> (as = [] \<or> bs = [] \<or> snd (last as) \<or> snd (hd bs))"
  by (induction as) (auto simp: coalesced_Cons hd_append)

lemma sizes_ok_span: "sizes_ok bs \<Longrightarrow> span bs mod 16 = 0"
proof (induction bs)
  case (Cons b bs)
  obtain s u where b: "b = (s, u)" by fastforce
  then have "s mod 16 = 0" "span bs mod 16 = 0" using Cons by auto
  then show ?case unfolding b span_simps by presburger
qed simp

lemma sizes_ok_live: "sizes_ok bs \<Longrightarrow> x mod 16 = 0 \<Longrightarrow> (o', s) \<in> live_blocks x bs \<Longrightarrow> o' mod 16 = 0 \<and> 16 \<le> s"
proof (induction x bs rule: live_blocks.induct)
  case (2 x s u bs)
  have "s mod 16 = 0" "sizes_ok bs" "16 \<le> s" using "2.prems"(1) by auto
  then have "(x + 32 + s) mod 16 = 0" "(x + 32) mod 16 = 0" using "2.prems"(2) by presburger+
  then show ?case using "2.IH" \<open>sizes_ok bs\<close> \<open>16 \<le> s\<close> "2.prems"(3) by (auto split: if_splits)
qed simp

section \<open>Operations\<close>

definition fits :: "nat \<Rightarrow> block \<Rightarrow> bool" where
  "fits n b \<longleftrightarrow> \<not> snd b \<and> n \<le> fst b"

text \<open>Take \<open>n\<close> bytes of a free block of size \<open>s\<close>, splitting off the rest if it can hold a block.\<close>

definition carve :: "nat \<Rightarrow> nat \<Rightarrow> block list" where
  "carve n s = (if n + 48 \<le> s then [(n, True), (s - n - 32, False)] else [(s, True)])"

definition take_block_at :: "nat \<Rightarrow> nat \<Rightarrow> block list \<Rightarrow> block list" where
  "take_block_at k n bs = take k bs @ carve n (fst (bs ! k)) @ drop (Suc k) bs"

definition grow_blocks :: "nat \<Rightarrow> block list \<Rightarrow> block list" where
  "grow_blocks g bs = (if bs \<noteq> [] \<and> \<not> snd (last bs) then butlast bs @ [(fst (last bs) + g, False)]
     else bs @ [(g - 32, False)])"

definition merge_next :: "block list \<Rightarrow> block list \<Rightarrow> block list" where
  "merge_next pre post = (case post of
     (s, u) # (t, False) # rest \<Rightarrow> pre @ (s + 32 + t, u) # rest | _ \<Rightarrow> pre @ post)"

lemma carve_span: "n \<le> s \<Longrightarrow> span (carve n s) = 32 + s"
  by (auto simp: carve_def)

lemma carve_live: "n \<le> s \<Longrightarrow> live_blocks x (carve n s) = {(x + 32, if n + 48 \<le> s then n else s)}"
  by (auto simp: carve_def)

lemma split_at: "k < length bs \<Longrightarrow> bs = take k bs @ (fst (bs ! k), snd (bs ! k)) # drop (Suc k) bs"
  by (simp add: id_take_nth_drop)

lemma take_block_at_props:
  fixes x :: nat
  assumes k: "k < length bs" "fits n (bs ! k)" and n: "16 \<le> n" "n mod 16 = 0"
  defines "bs' \<equiv> take_block_at k n bs" and "x' \<equiv> x + span (take k bs) + 32"
  shows "span bs' = span bs" "sizes_ok bs \<Longrightarrow> sizes_ok bs'" "coalesced bs \<Longrightarrow> coalesced bs'"
    "\<exists>m \<ge> n. live_blocks x bs' = insert (x', m) (live_blocks x bs) \<and> (x', m) \<notin> live_blocks x bs"
proof -
  obtain s where b: "bs ! k = (s, False)" "n \<le> s" using k(2) by (cases "bs ! k") (auto simp: fits_def)
  define as where "as = take k bs"
  define cs where "cs = drop (Suc k) bs"
  have bs: "bs = as @ (s, False) # cs" using split_at [OF k(1)] b by (simp add: as_def cs_def)
  have x': "x' = x + span as + 32" by (simp add: x'_def as_def)
  have bs': "bs' = as @ carve n s @ cs" by (simp add: bs'_def take_block_at_def b as_def cs_def)
  show "span bs' = span bs" using carve_span b(2) by (simp add: bs bs')
  show "sizes_ok bs'" if "sizes_ok bs"
  proof -
    have s: "s mod 16 = 0" "16 \<le> s" using that by (auto simp: bs)
    have "(s - n - 32) mod 16 = 0" if "n + 48 \<le> s" using s n that by presburger
    then show ?thesis using that s n by (auto simp: bs bs' carve_def)
  qed
  show "coalesced bs'" if "coalesced bs"
    using that by (auto simp: bs bs' carve_def coalesced_append coalesced_Cons)
  let ?m = "if n + 48 \<le> s then n else s"
  have "live_blocks x bs' = insert (x', ?m) (live_blocks x bs)"
    using carve_live [OF b(2)] carve_span b(2) by (auto simp: bs bs' x' add.assoc)
  moreover have "(x', ?m) \<notin> live_blocks x bs"
    by (auto simp: bs x' dest: live_blocks_range)
  ultimately show "\<exists>m \<ge> n. live_blocks x bs' = insert (x', m) (live_blocks x bs) \<and> (x', m) \<notin> live_blocks x bs"
    using b(2) by (intro exI [of _ ?m]) auto
qed

lemma grow_blocks_props:
  assumes g: "4096 \<le> g" "g mod 16 = 0"
  shows "span (grow_blocks g bs) = span bs + g" "sizes_ok bs \<Longrightarrow> sizes_ok (grow_blocks g bs)"
    "coalesced bs \<Longrightarrow> coalesced (grow_blocks g bs)"
    "live_blocks x (grow_blocks g bs) = live_blocks x bs"
    "n + 32 \<le> g \<Longrightarrow> \<exists>k < length (grow_blocks g bs). fits n (grow_blocks g bs ! k)"
proof -
  have "span (grow_blocks g bs) = span bs + g \<and> (sizes_ok bs \<longrightarrow> sizes_ok (grow_blocks g bs)) \<and>
    (coalesced bs \<longrightarrow> coalesced (grow_blocks g bs)) \<and> live_blocks x (grow_blocks g bs) = live_blocks x bs \<and>
    (n + 32 \<le> g \<longrightarrow> fits n (last (grow_blocks g bs)))"
  proof (cases "bs \<noteq> [] \<and> \<not> snd (last bs)")
    case True
    then obtain as s where bs: "bs = as @ [(s, False)]" by (metis append_butlast_last_id prod.collapse)
    have "(s + g) mod 16 = 0" if "s mod 16 = 0" using that g by presburger
    then show ?thesis using g by (auto simp: bs grow_blocks_def coalesced_append fits_def)
  next
    case False
    have "(g - 32) mod 16 = 0" "16 \<le> g - 32" using g by presburger+
    then show ?thesis using False g by (auto simp: grow_blocks_def coalesced_append fits_def)
  qed
  moreover have "grow_blocks g bs \<noteq> []" by (simp add: grow_blocks_def)
  ultimately show "span (grow_blocks g bs) = span bs + g" "sizes_ok bs \<Longrightarrow> sizes_ok (grow_blocks g bs)"
    "coalesced bs \<Longrightarrow> coalesced (grow_blocks g bs)" "live_blocks x (grow_blocks g bs) = live_blocks x bs"
    "n + 32 \<le> g \<Longrightarrow> \<exists>k < length (grow_blocks g bs). fits n (grow_blocks g bs ! k)"
    by (auto simp: last_conv_nth intro!: exI [of _ "length (grow_blocks g bs) - 1"])
qed

text \<open>Releasing the block after \<open>pre\<close> and merging it with its free neighbours.\<close>

definition release_between :: "block list \<Rightarrow> nat \<Rightarrow> block list \<Rightarrow> block list" where
  "release_between pre s post =
     (let (s1, rest) = (case post of (t, False) # rest \<Rightarrow> (s + 32 + t, rest) | _ \<Rightarrow> (s, post))
      in if pre \<noteq> [] \<and> \<not> snd (last pre)
         then butlast pre @ (fst (last pre) + 32 + s1, False) # rest
         else pre @ (s1, False) # rest)"

lemma release_between_props:
  defines "bs \<equiv> \<lambda>pre s post. pre @ (s, True) # post"
  assumes "sizes_ok (bs pre s post)" "coalesced (bs pre s post)"
  shows "span (release_between pre s post) = span (bs pre s post)" "sizes_ok (release_between pre s post)"
    "coalesced (release_between pre s post)"
    "live_blocks x (release_between pre s post) = live_blocks x (bs pre s post) - {(x + span pre + 32, s)}"
proof -
  define r where "r = (case post of (t, False) # rest \<Rightarrow> (s + 32 + t, rest) | _ \<Rightarrow> (s, post))"
  obtain s1 rest where r1: "r = (s1, rest)" by fastforce
  have post: "(post = rest \<and> s1 = s \<and> (rest = [] \<or> snd (hd rest))) \<or>
      (\<exists>t. post = (t, False) # rest \<and> s1 = s + 32 + t \<and> (rest = [] \<or> snd (hd rest)))"
    using r1 assms(3) by (auto simp: r_def bs_def coalesced_append coalesced_Cons split: list.splits bool.splits)
  have sz: "s1 mod 16 = 0" "16 \<le> s1" "sizes_ok rest" "32 + s1 + span rest = 32 + s + span post" "coalesced rest"
    using post assms(2,3) by (auto simp: bs_def coalesced_append coalesced_Cons)
  have lp: "live_blocks (y + s) post = live_blocks (y + s1) rest" for y
    using post by (auto simp: add.assoc)
  have mid: "live_blocks x (bs pre s post) - {(x + span pre + 32, s)} =
      live_blocks x pre \<union> live_blocks (x + span pre + 32 + s) post"
    by (auto simp: bs_def add.assoc dest: live_blocks_range)
  have "span (release_between pre s post) = span (bs pre s post) \<and> sizes_ok (release_between pre s post) \<and>
    coalesced (release_between pre s post) \<and>
    live_blocks x (release_between pre s post) = live_blocks x (bs pre s post) - {(x + span pre + 32, s)}"
  proof (cases "pre \<noteq> [] \<and> \<not> snd (last pre)")
    case True
    then obtain as t where pre: "pre = as @ [(t, False)]" by (metis append_butlast_last_id prod.collapse)
    have eq: "release_between pre s post = as @ (t + 32 + s1, False) # rest"
      using True r1 by (simp add: release_between_def r_def [symmetric] pre)
    have t: "t mod 16 = 0" "as = [] \<or> snd (last as)" "sizes_ok as" "coalesced as"
      using assms(2,3) by (auto simp: bs_def pre coalesced_append)
    have "(t + 32 + s1) mod 16 = 0" using t(1) sz(1) by presburger
    moreover have "live_blocks x (release_between pre s post) = live_blocks x pre \<union> live_blocks (x + span pre + 32 + s) post"
      using lp [of "x + span pre + 32"] unfolding eq by (simp add: pre add.assoc)
    ultimately show ?thesis
      using t sz post mid unfolding eq by (auto simp: bs_def pre coalesced_append coalesced_Cons)
  next
    case False
    then have eq: "release_between pre s post = pre @ (s1, False) # rest"
      using r1 by (auto simp: release_between_def r_def [symmetric])
    have t: "sizes_ok pre" "coalesced pre" using assms(2,3) by (auto simp: bs_def coalesced_append)
    have "live_blocks x (release_between pre s post) = live_blocks x pre \<union> live_blocks (x + span pre + 32 + s) post"
      using lp [of "x + span pre + 32"] by (simp add: eq add.assoc)
    then show ?thesis
      using t sz post mid False by (auto simp: eq bs_def coalesced_append coalesced_Cons)
  qed
  then show "span (release_between pre s post) = span (bs pre s post)" "sizes_ok (release_between pre s post)"
    "coalesced (release_between pre s post)"
    "live_blocks x (release_between pre s post) = live_blocks x (bs pre s post) - {(x + span pre + 32, s)}"
    by blast+
qed

end
