(* ===== verification/Heap_Interface.thy ===== *)
theory Heap_Interface
  imports ConeOS_Prelude
begin

text \<open>
  What a client relies on of a heap: allocation and release always return, an allocation adds one
  live payload that overlaps no other, a release of a live pointer removes exactly its payload. The
  provider is the kernel heap (\<^verbatim>\<open>Kmalloc\<close>), which also refuses every pointer that is not live.
\<close>

datatype heap_op = Heap_Alloc u64 | Heap_Free u64

locale block_heap =
  fixes alloc :: "u64 \<Rightarrow> 's \<Rightarrow> (u64 \<times> 's) option"
    and free :: "u64 \<Rightarrow> 's \<Rightarrow> (bool \<times> 's) option"
    and live :: "'s \<Rightarrow> (u64 \<times> nat) set"
    and invar :: "'s \<Rightarrow> bool"
  assumes alloc_returns: "invar s \<Longrightarrow> \<exists>p t. alloc n s = Some (p, t) \<and> invar t \<and>
      (p = 0 \<and> live t = live s \<or>
       p \<noteq> 0 \<and> (\<exists>m \<ge> unat n. live t = insert (p, m) (live s) \<and> (p, m) \<notin> live s))"
    and free_live: "invar s \<Longrightarrow> (p, m) \<in> live s \<Longrightarrow>
      \<exists>t. free p s = Some (True, t) \<and> invar t \<and> live t = live s - {(p, m)}"
    and live_disjoint: "invar s \<Longrightarrow> (p, m) \<in> live s \<Longrightarrow> (q, k) \<in> live s \<Longrightarrow>
      (p, m) = (q, k) \<or> unat p + m \<le> unat q \<or> unat q + k \<le> unat p"
    and live_size: "invar s \<Longrightarrow> (p, m) \<in> live s \<Longrightarrow> p \<noteq> 0 \<and> 0 < m"
begin

lemma live_pointer_unique: "invar s \<Longrightarrow> (p, m) \<in> live s \<Longrightarrow> (p, k) \<in> live s \<Longrightarrow> m = k"
  using live_disjoint [of s p m p k] live_size by fastforce

lemma alloc_free_roundtrip:
  assumes "invar s" "alloc n s = Some (p, t)" "p \<noteq> 0"
  shows "\<exists>u. free p t = Some (True, u) \<and> invar u \<and> live u = live s"
proof -
  from alloc_returns [OF assms(1), of n] assms(2,3) obtain m where
    t: "invar t" "live t = insert (p, m) (live s)" "(p, m) \<notin> live s" by auto
  then show ?thesis using free_live [of t p m] by fastforce
qed

lemma alloc_separate:
  assumes "invar s" "alloc n s = Some (p, t)" "p \<noteq> 0" "(q, k) \<in> live s"
  shows "unat p + unat n \<le> unat q \<or> unat q + k \<le> unat p"
proof -
  from alloc_returns [OF assms(1), of n] assms(2,3) obtain m where
    t: "invar t" "unat n \<le> m" "live t = insert (p, m) (live s)" "(p, m) \<notin> live s" by auto
  then show ?thesis using live_disjoint [of t p m q k] assms(4) by auto
qed

end

text \<open>A heap that also answers for pointers it never handed out.\<close>

locale checked_heap = block_heap alloc free live invar
  for alloc :: "u64 \<Rightarrow> 's \<Rightarrow> (u64 \<times> 's) option"
    and free :: "u64 \<Rightarrow> 's \<Rightarrow> (bool \<times> 's) option"
    and live :: "'s \<Rightarrow> (u64 \<times> nat) set"
    and invar :: "'s \<Rightarrow> bool" +
  assumes free_dead: "invar s \<Longrightarrow> (\<And>m. (p, m) \<notin> live s) \<Longrightarrow> free p s = Some (False, s)"
begin

lemma free_total: "invar s \<Longrightarrow> \<exists>b t. free p s = Some (b, t) \<and> invar t \<and> live t \<subseteq> live s \<and>
    (b \<longleftrightarrow> p \<in> fst ` live s)"
  using free_live [of s p] free_dead [of s p] by (cases "\<exists>m. (p, m) \<in> live s") force+

lemma free_once:
  assumes "invar s" "(p, m) \<in> live s" "free p s = Some (b, t)"
  shows "free p t = Some (False, t)"
proof -
  have t: "invar t" "live t = live s - {(p, m)}" using free_live [OF assms(1,2)] assms(3) by auto
  have "(p, k) \<notin> live t" for k using t(2) live_pointer_unique [OF assms(1,2)] by auto
  then show ?thesis using free_dead [OF t(1)] by blast
qed

definition heap_run :: "heap_op list \<Rightarrow> 's \<Rightarrow> 's option" where
  "heap_run = (\<lambda>ops s. fold (\<lambda>op so. case so of None \<Rightarrow> None | Some s \<Rightarrow>
     (case op of Heap_Alloc n \<Rightarrow> map_option snd (alloc n s) | Heap_Free p \<Rightarrow> map_option snd (free p s))) ops (Some s))"

text \<open>Whatever its clients do, every call returns and the live payloads stay apart.\<close>

lemma run_returns: "invar s \<Longrightarrow> \<exists>t. heap_run ops s = Some t \<and> invar t"
proof (induction ops arbitrary: s)
  case (Cons op ops)
  have "\<exists>t. heap_run [op] s = Some t \<and> invar t"
    using alloc_returns [OF Cons.prems] free_total [OF Cons.prems]
    by (cases op) (fastforce simp: heap_run_def)+
  then obtain t where t: "heap_run [op] s = Some t" "invar t" by blast
  then show ?case using Cons.IH [OF t(2)] by (simp add: heap_run_def)
qed (simp add: heap_run_def)

end

end
