(* ===== verification/Kmalloc.thy ===== *)
theory Kmalloc
  imports Vmm_Map Block_List Heap_Interface "HOL-Library.Monad_Syntax"
begin

text \<open>
  The kernel heap, \<^verbatim>\<open>src/mm/kmalloc.c\<close>. Block headers live in heap memory and are linked by
  pointers: \<open>kh_hdr\<close> is that memory, a header per address, NULL is address 0. Traversals follow the
  next pointers and are \<open>partial_function (option)\<close>, None standing for not returning; the lemmas
  show that they return on every heap the operations build. Growing the heap allocates frames and
  maps them with the physical and virtual memory managers' own operations.
\<close>

section \<open>State\<close>

record block_header =
  bh_size :: u64
  bh_previous :: u64
  bh_next :: u64
  bh_magic :: u32
  bh_state :: u32

record kheap =
  kh_mm :: mm_state
  kh_first :: u64
  kh_mapped :: u64
  kh_active :: u64
  kh_hdr :: "u64 \<Rightarrow> block_header"

definition HEAP_BASE :: u64 where "HEAP_BASE = 0xFFFFD00000000000"
definition HEAP_MAX_SIZE :: u64 where "HEAP_MAX_SIZE = 256 * 1024 * 1024"
definition HEAP_GROW_PAGES :: u64 where "HEAP_GROW_PAGES = 4"
definition BLOCK_MAGIC :: u32 where "BLOCK_MAGIC = 0xC04ECAFE"
definition BLOCK_FREE :: u32 where "BLOCK_FREE = 0"
definition BLOCK_USED :: u32 where "BLOCK_USED = 1"

section \<open>Operations\<close>

definition set_header :: "u64 \<Rightarrow> (block_header \<Rightarrow> block_header) \<Rightarrow> kheap \<Rightarrow> kheap" where
  "set_header b f st = st\<lparr>kh_hdr := (kh_hdr st)(b := f (kh_hdr st b))\<rparr>"

partial_function (option) last_from :: "(u64 \<Rightarrow> block_header) \<Rightarrow> u64 \<Rightarrow> u64 option" where
  "last_from H block = (if bh_next (H block) \<noteq> 0 then last_from H (bh_next (H block)) else Some block)"

definition last_block :: "kheap \<Rightarrow> u64 option" where
  "last_block st = (if kh_first st = 0 then Some 0 else last_from (kh_hdr st) (kh_first st))"

text \<open>The rollback loop of \<open>grow_heap\<close>: unmap and free the pages mapped so far, last first.\<close>

fun unmap_pages :: "nat \<Rightarrow> u64 \<Rightarrow> mm_state \<Rightarrow> mm_state" where
  "unmap_pages 0 old_end mm = mm"
| "unmap_pages (Suc mapped_pages) old_end mm =
     (case vmm_unmap_page (old_end + word_of_nat mapped_pages * 4096) mm of (physical, mm1) \<Rightarrow>
        unmap_pages mapped_pages old_end
          (if physical \<noteq> PMM_INVALID_ADDRESS then mm_free_page physical mm1 else mm1))"

text \<open>The page loop: \<open>remaining\<close> pages to map, \<open>page\<close> already mapped.\<close>

fun map_pages :: "nat \<Rightarrow> nat \<Rightarrow> u64 \<Rightarrow> mm_state \<Rightarrow> bool \<times> mm_state" where
  "map_pages 0 page old_end mm = (True, mm)"
| "map_pages (Suc remaining) page old_end mm =
     (case mm_alloc_page mm of (physical, mm1) \<Rightarrow>
        if physical = PMM_INVALID_ADDRESS then (False, unmap_pages page old_end mm1)
        else
          (case vmm_map_page (old_end + word_of_nat page * 4096) physical
                  (VMM_WRITABLE OR VMM_NO_EXECUTE) mm1 of
             (False, mm2) \<Rightarrow> (False, unmap_pages page old_end (mm_free_page physical mm2))
           | (True, mm2) \<Rightarrow> map_pages remaining (Suc page) old_end mm2))"

definition heap_growth :: "u64 \<Rightarrow> u64" where
  "heap_growth minimum_payload =
     (let required = minimum_payload + 32;
          minimum_growth = HEAP_GROW_PAGES * 4096;
          growth = align_up required 4096
      in if growth < minimum_growth then minimum_growth else growth)"

definition append_free :: "u64 \<Rightarrow> u64 \<Rightarrow> kheap \<Rightarrow> kheap" where
  "append_free growth tail_block st =
     (let old_end = HEAP_BASE + kh_mapped st in
      if tail_block \<noteq> 0 \<and> bh_state (kh_hdr st tail_block) = BLOCK_FREE
      then set_header tail_block (\<lambda>h. h\<lparr>bh_size := bh_size h + growth\<rparr>) st
      else
        let st1 = set_header old_end (\<lambda>_. \<lparr>bh_size = growth - 32, bh_previous = tail_block, bh_next = 0,
              bh_magic = BLOCK_MAGIC, bh_state = BLOCK_FREE\<rparr>) st
        in if tail_block \<noteq> 0 then set_header tail_block (\<lambda>h. h\<lparr>bh_next := old_end\<rparr>) st1
           else st1\<lparr>kh_first := old_end\<rparr>)"

definition grow_heap :: "u64 \<Rightarrow> kheap \<Rightarrow> (bool \<times> kheap) option" where
  "grow_heap minimum_payload st =
     (let growth = heap_growth minimum_payload in
      if HEAP_MAX_SIZE - kh_mapped st < growth then Some (False, st)
      else
        (case map_pages (unat (growth div 4096)) 0 (HEAP_BASE + kh_mapped st) (kh_mm st) of
           (False, mm) \<Rightarrow> Some (False, st\<lparr>kh_mm := mm\<rparr>)
         | (True, mm) \<Rightarrow>
             do {
               tail_block \<leftarrow> last_block st;
               let st1 = append_free growth tail_block (st\<lparr>kh_mm := mm\<rparr>);
               Some (True, st1\<lparr>kh_mapped := kh_mapped st + growth\<rparr>)
             }))"

definition split_block :: "u64 \<Rightarrow> u64 \<Rightarrow> kheap \<Rightarrow> kheap" where
  "split_block block bytes st =
     (if bh_size (kh_hdr st block) < bytes + 32 + 16 then st
      else
        let h = kh_hdr st block;
            remainder = block + 32 + bytes;
            st1 = set_header remainder (\<lambda>_. \<lparr>bh_size = bh_size h - bytes - 32, bh_previous = block,
              bh_next = bh_next h, bh_magic = BLOCK_MAGIC, bh_state = BLOCK_FREE\<rparr>) st;
            st2 = (if bh_next h \<noteq> 0
                   then set_header (bh_next h) (\<lambda>n. n\<lparr>bh_previous := remainder\<rparr>) st1 else st1)
        in set_header block (\<lambda>h. h\<lparr>bh_size := bytes, bh_next := remainder\<rparr>) st2)"

definition merge_with_next :: "u64 \<Rightarrow> kheap \<Rightarrow> kheap" where
  "merge_with_next block st =
     (let next = bh_next (kh_hdr st block) in
      if next = 0 \<or> bh_state (kh_hdr st next) \<noteq> BLOCK_FREE then st
      else
        let n = kh_hdr st next;
            st1 = set_header block (\<lambda>h. h\<lparr>bh_size := bh_size h + (32 + bh_size n), bh_next := bh_next n\<rparr>) st
        in if bh_next n \<noteq> 0 then set_header (bh_next n) (\<lambda>m. m\<lparr>bh_previous := block\<rparr>) st1 else st1)"

partial_function (option) find_from :: "(u64 \<Rightarrow> block_header) \<Rightarrow> u64 \<Rightarrow> u64 \<Rightarrow> u64 option" where
  "find_from H pointer block =
     (if block = 0 then Some 0
      else if bh_magic (H block) \<noteq> BLOCK_MAGIC then Some 0
      else if block + 32 = pointer then Some block
      else find_from H pointer (bh_next (H block)))"

definition find_block_for_pointer :: "kheap \<Rightarrow> u64 \<Rightarrow> u64 option" where
  "find_block_for_pointer st pointer = find_from (kh_hdr st) pointer (kh_first st)"

definition kmalloc_init :: "kheap \<Rightarrow> (bool \<times> kheap) option" where
  "kmalloc_init st = grow_heap 16 st"

partial_function (option) first_fit :: "(u64 \<Rightarrow> block_header) \<Rightarrow> u64 \<Rightarrow> u64 \<Rightarrow> u64 option" where
  "first_fit H bytes block =
     (if block = 0 then Some 0
      else if bh_magic (H block) = BLOCK_MAGIC \<and> bh_state (H block) = BLOCK_FREE \<and> bytes \<le> bh_size (H block)
      then Some block
      else first_fit H bytes (bh_next (H block)))"

definition use_block :: "u64 \<Rightarrow> u64 \<Rightarrow> kheap \<Rightarrow> kheap" where
  "use_block block bytes st =
     (let st1 = set_header block (\<lambda>h. h\<lparr>bh_state := BLOCK_USED\<rparr>) (split_block block bytes st)
      in st1\<lparr>kh_active := kh_active st1 + 1\<rparr>)"

partial_function (option) kmalloc_loop :: "u64 \<Rightarrow> kheap \<Rightarrow> (u64 \<times> kheap) option" where
  "kmalloc_loop bytes st =
     do {
       block \<leftarrow> first_fit (kh_hdr st) bytes (kh_first st);
       if block \<noteq> 0 then Some (block + 32, use_block block bytes st)
       else do {
         r \<leftarrow> grow_heap bytes st;
         if fst r then kmalloc_loop bytes (snd r) else Some (0, snd r)
       }
     }"

definition kmalloc :: "u64 \<Rightarrow> kheap \<Rightarrow> (u64 \<times> kheap) option" where
  "kmalloc bytes st =
     (if bytes = 0 \<or> HEAP_MAX_SIZE - 32 < bytes then Some (0, st)
      else kmalloc_loop (align_up bytes 16) st)"

definition release_block :: "u64 \<Rightarrow> kheap \<Rightarrow> kheap" where
  "release_block block st =
     (let st1 = set_header block (\<lambda>h. h\<lparr>bh_state := BLOCK_FREE\<rparr>) st;
          st2 = st1\<lparr>kh_active := kh_active st1 - 1\<rparr>;
          st3 = merge_with_next block st2;
          previous = bh_previous (kh_hdr st3 block)
      in if previous \<noteq> 0 \<and> bh_state (kh_hdr st3 previous) = BLOCK_FREE
         then merge_with_next previous st3 else st3)"

definition kfree :: "u64 \<Rightarrow> kheap \<Rightarrow> (bool \<times> kheap) option" where
  "kfree pointer st =
     (if pointer = 0 then Some (False, st)
      else if pointer < HEAP_BASE + 32 \<or> HEAP_BASE + kh_mapped st \<le> pointer \<or> pointer mod 16 \<noteq> 0
      then Some (False, st)
      else do {
        block \<leftarrow> find_block_for_pointer st pointer;
        if block = 0 \<or> bh_state (kh_hdr st block) \<noteq> BLOCK_USED then Some (False, st)
        else Some (True, release_block block st)
      })"

record kmalloc_stats =
  mapped_bytes :: u64
  used_bytes :: u64
  free_bytes :: u64
  active_allocations :: u64

partial_function (option) stats_from :: "(u64 \<Rightarrow> block_header) \<Rightarrow> u64 \<Rightarrow> u64 \<Rightarrow> u64 \<Rightarrow> (u64 \<times> u64) option" where
  "stats_from H block used free =
     (if block = 0 then Some (used, free)
      else if bh_state (H block) = BLOCK_USED
      then stats_from H (bh_next (H block)) (used + bh_size (H block)) free
      else stats_from H (bh_next (H block)) used (free + bh_size (H block)))"

definition kmalloc_get_stats :: "kheap \<Rightarrow> kmalloc_stats option" where
  "kmalloc_get_stats st =
     do {
       (used, free) \<leftarrow> stats_from (kh_hdr st) (kh_first st) 0 0;
       Some \<lparr>mapped_bytes = kh_mapped st, used_bytes = used, free_bytes = free,
             active_allocations = kh_active st\<rparr>
     }"

section \<open>The block list in memory\<close>

text \<open>
  Blocks are named by their offset from the heap's base. \<open>chain H prev x next bs\<close>: from offset
  \<open>x\<close> on, memory holds the headers of the blocks \<open>bs\<close>, tiling the heap, linked in both
  directions, entered from \<open>prev\<close> and left to \<open>next\<close>.
\<close>

definition ad :: "nat \<Rightarrow> u64" where
  "ad x = HEAP_BASE + word_of_nat x"

definition header :: "nat \<Rightarrow> bool \<Rightarrow> u64 \<Rightarrow> u64 \<Rightarrow> block_header" where
  "header s used prev next = \<lparr>bh_size = word_of_nat s, bh_previous = prev, bh_next = next,
     bh_magic = BLOCK_MAGIC, bh_state = (if used then BLOCK_USED else BLOCK_FREE)\<rparr>"

fun chain :: "(u64 \<Rightarrow> block_header) \<Rightarrow> u64 \<Rightarrow> nat \<Rightarrow> u64 \<Rightarrow> block list \<Rightarrow> bool" where
  "chain H prev x next [] = True"
| "chain H prev x next ((s, u) # bs) =
     (H (ad x) = header s u prev (if bs = [] then next else ad (x + 32 + s)) \<and>
      chain H (ad x) (x + 32 + s) next bs)"

definition last_addr :: "u64 \<Rightarrow> nat \<Rightarrow> block list \<Rightarrow> u64" where
  "last_addr prev x bs = (if bs = [] then prev else ad (x + span (butlast bs)))"

lemma unat_ad: "x \<le> 2 ^ 28 \<Longrightarrow> unat (ad x) = 0xFFFFD00000000000 + x"
  by (simp add: ad_def HEAP_BASE_def unat_u64_add unat_u64_of_nat)

lemma ad_inj: "x \<le> 2 ^ 28 \<Longrightarrow> y \<le> 2 ^ 28 \<Longrightarrow> ad x = ad y \<longleftrightarrow> x = y"
  using unat_ad [of x] unat_ad [of y] by (auto simp: u64_eq_iff_unat)

lemma ad_nonzero: "x \<le> 2 ^ 28 \<Longrightarrow> ad x \<noteq> 0"
  using unat_ad [of x] by (auto simp: u64_eq_iff_unat)

lemma ad_add: "ad x + word_of_nat y = ad (x + y)" "ad x + 32 = ad (x + 32)"
  by (simp_all add: ad_def add.assoc)

lemma header_simps [simp]:
  "bh_size (header s u p n) = word_of_nat s" "bh_previous (header s u p n) = p" "bh_next (header s u p n) = n"
  "bh_magic (header s u p n) = BLOCK_MAGIC" "bh_state (header s u p n) = (if u then BLOCK_USED else BLOCK_FREE)"
  by (simp_all add: header_def)

lemma block_states [simp]: "BLOCK_USED \<noteq> BLOCK_FREE" "BLOCK_FREE \<noteq> BLOCK_USED"
  by (simp_all add: BLOCK_USED_def BLOCK_FREE_def)

lemma last_addr_Cons: "last_addr p x ((s, u) # bs) = last_addr (ad x) (x + 32 + s) bs"
  by (auto simp: last_addr_def add.assoc)

lemma last_addr_snoc [simp]: "last_addr p x (bs @ [b]) = ad (x + span bs)" "last_addr p x [] = p"
  by (simp_all add: last_addr_def)

lemma chain_append:
  "chain H p x n (as @ bs) \<longleftrightarrow>
   chain H p x (if bs = [] then n else ad (x + span as)) as \<and> chain H (last_addr p x as) (x + span as) n bs"
proof (induction as arbitrary: p x)
  case (Cons a as)
  obtain s u where a: "a = (s, u)" by fastforce
  show ?case
    using Cons.IH [of "ad x" "x + 32 + s"] by (auto simp: a last_addr_Cons add.assoc)
qed simp

lemma chain_frame:
  assumes "\<And>y. x \<le> y \<Longrightarrow> y < x + span bs \<Longrightarrow> H' (ad y) = H (ad y)"
  shows "chain H' p x n bs = chain H p x n bs"
  using assms
proof (induction bs arbitrary: p x)
  case (Cons b bs)
  obtain s u where b: "b = (s, u)" by fastforce
  have "chain H' (ad x) (x + 32 + s) n bs = chain H (ad x) (x + 32 + s) n bs"
    using Cons.prems by (intro Cons.IH) (auto simp: b)
  moreover have "H' (ad x) = H (ad x)" using Cons.prems [of x] by (simp add: b)
  ultimately show ?case by (simp add: b)
qed simp

text \<open>Writing a header outside the range of a chain does not touch it.\<close>

lemma chain_upd:
  assumes "y \<le> 2 ^ 28" "x + span bs \<le> 2 ^ 28" "y < x \<or> x + span bs \<le> y"
  shows "chain (H(ad y := h)) p x n bs = chain H p x n bs"
  by (rule chain_frame) (use assms ad_inj in auto)

text \<open>What a chain knows of the block in its middle, and what rewriting that block does.\<close>

lemma chain_mid:
  "chain H p x n (as @ (s, u) # cs) \<longleftrightarrow>
   chain H p x (ad (x + span as)) as \<and>
   H (ad (x + span as)) = header s u (last_addr p x as) (if cs = [] then n else ad (x + span as + 32 + s)) \<and>
   chain H (ad (x + span as)) (x + span as + 32 + s) n cs"
  by (simp add: chain_append)

lemma chain_mid_upd:
  assumes "chain H p x n (as @ (s, u) # cs)" "x + span (as @ (s, u) # cs) \<le> 2 ^ 28"
  shows "chain (H(ad (x + span as) := header s' u' (last_addr p x as) n')) p x (ad (x + span as)) as"
    "chain (H(ad (x + span as) := header s' u' (last_addr p x as) n')) (ad (x + span as)) (x + span as + 32 + s) n cs"
  using assms by (auto simp: chain_mid chain_upd)

text \<open>The first header of a chain holds the back pointer, nothing else depends on it.\<close>

lemma chain_relink:
  assumes "chain H p x n bs" "x + span bs \<le> 2 ^ 28" "bs \<noteq> []"
  shows "chain (H(ad x := (H (ad x))\<lparr>bh_previous := p'\<rparr>)) p' x n bs"
proof -
  obtain s u cs where bs: "bs = (s, u) # cs" using assms(3) by (cases bs) auto
  have h: "H (ad x) = header s u p (if cs = [] then n else ad (x + 32 + s))" using assms(1) by (simp add: bs)
  have "chain (H(ad x := h')) (ad x) (x + 32 + s) n cs" for h'
    using chain_upd [of x "x + 32 + s" cs] assms(1,2) by (simp add: bs)
  then show ?thesis by (simp add: bs h header_def)
qed

lemma chain_unlast:
  assumes "chain H p x n (as @ [(s, u)])" "x + span (as @ [(s, u)]) \<le> 2 ^ 28"
  shows "chain (H(ad (x + span as) := (H (ad (x + span as)))\<lparr>bh_next := n'\<rparr>)) p x n' (as @ [(s, u)])"
  using assms chain_mid_upd [OF assms, of s u n'] by (auto simp: chain_mid header_def)

subsection \<open>Traversals return\<close>

abbreviation head_ptr :: "nat \<Rightarrow> block list \<Rightarrow> u64" where
  "head_ptr x bs \<equiv> if bs = [] then 0 else ad x"

lemma last_from_chain:
  "chain H p x 0 bs \<Longrightarrow> bs \<noteq> [] \<Longrightarrow> x + span bs \<le> 2 ^ 28 \<Longrightarrow> last_from H (ad x) = Some (last_addr p x bs)"
proof (induction bs arbitrary: p x)
  case (Cons b bs)
  obtain s u where b: "b = (s, u)" by fastforce
  show ?case
  proof (cases "bs = []")
    case True
    then show ?thesis using Cons.prems(1) by (subst last_from.simps) (simp add: b last_addr_def)
  next
    case False
    have "ad (x + 32 + s) \<noteq> 0" using Cons.prems(3) by (intro ad_nonzero) (simp add: b)
    then show ?thesis
      using Cons.IH [of "ad x" "x + 32 + s"] Cons.prems False
      by (subst last_from.simps) (simp add: b last_addr_Cons)
  qed
qed simp

lemma first_fit_chain:
  "chain H p x 0 bs \<Longrightarrow> x + span bs \<le> 2 ^ 28 \<Longrightarrow>
   first_fit H n (head_ptr x bs) =
     Some (case first_index (fits (unat n)) bs of None \<Rightarrow> 0 | Some k \<Rightarrow> ad (x + span (take k bs)))"
proof (induction bs arbitrary: p x)
  case (Cons b bs)
  obtain s u where b: "b = (s, u)" by fastforce
  have nz: "ad x \<noteq> 0" and s: "s < 2 ^ 64" using Cons.prems(2) by (auto simp: b intro!: ad_nonzero)
  have h: "H (ad x) = header s u p (head_ptr (x + 32 + s) bs)" using Cons.prems(1) by (simp add: b)
  have fit: "bh_state (H (ad x)) = BLOCK_FREE \<and> n \<le> bh_size (H (ad x)) \<longleftrightarrow> fits (unat n) b"
    using s by (auto simp: h b fits_def word_le_nat_alt unat_u64_of_nat)
  have IH: "first_fit H n (head_ptr (x + 32 + s) bs) =
      Some (case first_index (fits (unat n)) bs of None \<Rightarrow> 0 | Some k \<Rightarrow> ad (x + 32 + s + span (take k bs)))"
    using Cons.IH [of "ad x" "x + 32 + s"] Cons.prems by (simp add: b)
  have nx: "bh_next (H (ad x)) = head_ptr (x + 32 + s) bs" "bh_magic (H (ad x)) = BLOCK_MAGIC" by (simp_all only: h header_simps)
  show ?case
  proof (cases "fits (unat n) b")
    case True
    then show ?thesis using fit nz nx(2) by (subst first_fit.simps) simp
  next
    case False
    then have "first_fit H n (ad x) = first_fit H n (head_ptr (x + 32 + s) bs)"
      using fit nz nx by (subst first_fit.simps) auto
    then show ?thesis using IH False by (simp add: b add.assoc split: option.split)
  qed
qed (subst first_fit.simps, simp)

lemma find_from_chain:
  "chain H p x 0 bs \<Longrightarrow> x + span bs \<le> 2 ^ 28 \<Longrightarrow>
   find_from H q (head_ptr x bs) =
     Some (case first_index (\<lambda>k. q = ad (x + span (take k bs) + 32)) [0 ..< length bs] of
       None \<Rightarrow> 0 | Some k \<Rightarrow> ad (x + span (take k bs)))"
proof (induction bs arbitrary: p x)
  case (Cons b bs)
  obtain s u where b: "b = (s, u)" by fastforce
  have nz: "ad x \<noteq> 0" using Cons.prems(2) by (auto simp: b intro!: ad_nonzero)
  have h: "H (ad x) = header s u p (head_ptr (x + 32 + s) bs)" using Cons.prems(1) by (simp add: b)
  have nx: "bh_next (H (ad x)) = head_ptr (x + 32 + s) bs" "bh_magic (H (ad x)) = BLOCK_MAGIC" by (simp_all only: h header_simps)
  have IH: "find_from H q (head_ptr (x + 32 + s) bs) =
     Some (case first_index (\<lambda>k. q = ad (x + 32 + s + span (take k bs) + 32)) [0 ..< length bs] of
       None \<Rightarrow> 0 | Some k \<Rightarrow> ad (x + 32 + s + span (take k bs)))"
    using Cons.IH [of "ad x" "x + 32 + s"] Cons.prems by (simp add: b)
  have upt: "[0 ..< length (b # bs)] = 0 # map Suc [0 ..< length bs]"
    by (simp add: upt_conv_Cons map_Suc_upt del: upt_Suc)
  have fm: "first_index P (map Suc xs) = first_index (P \<circ> Suc) xs" for P xs by (induction xs) auto
  show ?case
  proof (cases "q = ad (x + 32)")
    case True
    then show ?thesis using nz nx(2) unfolding upt by (subst find_from.simps) (simp add: ad_add)
  next
    case False
    then have "find_from H q (ad x) = find_from H q (head_ptr (x + 32 + s) bs)"
      using nz nx by (subst find_from.simps) (auto simp: ad_add)
    then show ?thesis
      using IH False unfolding upt by (simp add: fm comp_def b add.assoc split: option.split)
  qed
qed (subst find_from.simps, simp)

subsection \<open>Operations on the chain\<close>

lemma set_header_fields [simp]:
  "kh_hdr (set_header b f st) = (kh_hdr st)(b := f (kh_hdr st b))" "kh_mm (set_header b f st) = kh_mm st"
  "kh_first (set_header b f st) = kh_first st" "kh_mapped (set_header b f st) = kh_mapped st"
  "kh_active (set_header b f st) = kh_active st"
  by (simp_all add: set_header_def)

definition same_frame :: "kheap \<Rightarrow> kheap \<Rightarrow> bool" where
  "same_frame st st' \<longleftrightarrow> kh_mm st' = kh_mm st \<and> kh_first st' = kh_first st \<and> kh_mapped st' = kh_mapped st"

lemma split_block_frame: "same_frame st (split_block b n st)" "kh_active (split_block b n st) = kh_active st"
  by (simp_all add: same_frame_def split_block_def Let_def)

lemma merge_with_next_frame: "same_frame st (merge_with_next b st)" "kh_active (merge_with_next b st) = kh_active st"
  by (simp_all add: same_frame_def merge_with_next_def Let_def)

lemma use_block_frame: "same_frame st (use_block b n st)" "kh_active (use_block b n st) = kh_active st + 1"
  using split_block_frame by (simp_all add: same_frame_def use_block_def Let_def)

lemma release_block_frame: "same_frame st (release_block b st)" "kh_active (release_block b st) = kh_active st - 1"
  using merge_with_next_frame by (simp_all add: same_frame_def release_block_def Let_def)

lemma chain_relink_next:
  assumes "chain H p y 0 cs" "y + span cs \<le> 2 ^ 28"
  shows "chain (if cs \<noteq> [] then H(ad y := (H (ad y))\<lparr>bh_previous := p'\<rparr>) else H) p' y 0 cs"
  using chain_relink [OF assms] by auto

lemma use_block_chain:
  assumes ch: "chain (kh_hdr st) p x 0 (as @ (s, False) # cs)" and bound: "x + span (as @ (s, False) # cs) \<le> 2 ^ 28"
    and n: "n \<le> s"
  shows "chain (kh_hdr (use_block (ad (x + span as)) (word_of_nat n) st)) p x 0 (as @ carve n s @ cs)"
proof -
  define y where "y = x + span as"
  let ?H = "kh_hdr st" and ?nx = "head_ptr (y + 32 + s) cs"
  have y: "x \<le> y" "y + 32 + s + span cs \<le> 2 ^ 28" "s < 2 ^ 64" using bound by (simp_all add: y_def)
  have c: "chain ?H p x (ad y) as" "?H (ad y) = header s False (last_addr p x as) ?nx"
    "chain ?H (ad y) (y + 32 + s) 0 cs"
    using ch by (simp_all add: chain_mid y_def)
  have sz: "bh_size (?H (ad y)) < word_of_nat n + 32 + 16 \<longleftrightarrow> \<not> n + 48 \<le> s"
    using y(3) n y(2) by (auto simp: c(2) word_less_nat_alt unat_u64_add unat_u64_of_nat)
  show ?thesis
  proof (cases "n + 48 \<le> s")
    case False
    then have "kh_hdr (use_block (ad y) (word_of_nat n) st) = ?H(ad y := header s True (last_addr p x as) ?nx)"
      using sz c(2) by (simp add: use_block_def split_block_def Let_def header_def)
    then show ?thesis
      using False c y chain_upd [of y x as] chain_upd [of y "y + 32 + s" cs] by (simp add: carve_def chain_mid y_def [symmetric])
  next
    case True
    define r where "r = y + 32 + n"
    define H1 where "H1 = ?H(ad r := header (s - n - 32) False (ad y) ?nx)"
    define H2 where "H2 = (if cs \<noteq> [] then H1(ad (y + 32 + s) := (H1 (ad (y + 32 + s)))\<lparr>bh_previous := ad r\<rparr>) else H1)"
    have r: "y < r" "r + 32 \<le> y + 32 + s" "r \<le> 2 ^ 28" using True y by (simp_all add: r_def)
    have nz: "ad (y + 32 + s) \<noteq> 0" using y by (intro ad_nonzero) simp
    have rem: "ad y + 32 + word_of_nat n = ad r" by (simp add: r_def ad_add)
    have sub: "word_of_nat s - word_of_nat n - 32 = (word_of_nat (s - n - 32) :: u64)"
      using True by (simp add: of_nat_diff)
    have ne: "ad r \<noteq> ad y" "ad (y + 32 + s) \<noteq> ad y" "ad (y + 32 + s) \<noteq> ad r"
      using r y by (auto simp: ad_inj r_def)
    have H: "kh_hdr (use_block (ad y) (word_of_nat n) st) = H2(ad y := header n True (last_addr p x as) (ad r))"
      using sz True c(2) nz ne by (auto simp: use_block_def split_block_def Let_def rem sub H2_def H1_def header_def)
    have "chain H1 (ad y) (y + 32 + s) 0 cs" using c(3) chain_upd [of r "y + 32 + s" cs] r y by (simp add: H1_def)
    then have c2: "chain H2 (ad r) (y + 32 + s) 0 cs"
      using chain_relink_next [of H1 "ad y" "y + 32 + s" cs "ad r"] y unfolding H2_def by simp
    have a2: "chain H2 p x (ad y) as"
      using c(1) chain_upd [of r x as] chain_upd [of "y + 32 + s" x as] r y by (simp add: H2_def H1_def y_def)
    have h2: "H2 (ad r) = header (s - n - 32) False (ad y) ?nx" using ne by (simp add: H2_def H1_def)
    have e: "r + 32 + (s - n - 32) = y + 32 + s" using True by (simp add: r_def)
    have "chain (H2(ad y := h)) p x (ad y) as" "chain (H2(ad y := h)) (ad r) (y + 32 + s) 0 cs" for h
      using a2 c2 chain_upd [of y x as] chain_upd [of y "y + 32 + s" cs] y by (simp_all add: y_def)
    then show ?thesis
      unfolding y_def [symmetric] H using True h2 ne e
      by (simp add: carve_def chain_mid y_def [symmetric] r_def [symmetric])
  qed
qed

lemma merge_with_next_chain:
  assumes ch: "chain (kh_hdr st) p x 0 (as @ (s, u) # cs)" and bound: "x + span (as @ (s, u) # cs) \<le> 2 ^ 28"
  shows "chain (kh_hdr (merge_with_next (ad (x + span as)) st)) p x 0 (merge_next as ((s, u) # cs))"
proof -
  define y where "y = x + span as"
  let ?H = "kh_hdr st"
  have c: "chain ?H p x (ad y) as" "?H (ad y) = header s u (last_addr p x as) (head_ptr (y + 32 + s) cs)"
    "chain ?H (ad y) (y + 32 + s) 0 cs"
    using ch by (simp_all add: chain_mid y_def)
  have y: "y + 32 + s + span cs \<le> 2 ^ 28" using bound by (simp add: y_def)
  show ?thesis
  proof (cases "\<exists>t ds. cs = (t, False) # ds")
    case False
    have "merge_with_next (ad y) st = st"
    proof (cases cs)
      case Nil
      then show ?thesis using c(2) by (simp add: merge_with_next_def)
    next
      case (Cons d ds)
      then obtain t where "d = (t, True)" using False by (cases d) auto
      then show ?thesis using c(2,3) Cons by (simp add: merge_with_next_def Let_def)
    qed
    moreover have "merge_next as ((s, u) # cs) = as @ (s, u) # cs"
      using False by (auto simp: merge_next_def split: list.split bool.split)
    ultimately show ?thesis using ch by (simp add: y_def)
  next
    case True
    then obtain t ds where cs: "cs = (t, False) # ds" by blast
    let ?z = "y + 32 + s + 32 + t"
    define H1 where "H1 = ?H(ad y := header (s + 32 + t) u (last_addr p x as) (head_ptr ?z ds))"
    define H2 where "H2 = (if ds \<noteq> [] then H1(ad ?z := (H1 (ad ?z))\<lparr>bh_previous := ad y\<rparr>) else H1)"
    have b: "?z + span ds \<le> 2 ^ 28" using y by (simp add: cs)
    have z: "ad (y + 32 + s) \<noteq> 0" "ad ?z \<noteq> 0" using b by (auto intro!: ad_nonzero)
    have nx: "?H (ad (y + 32 + s)) = header t False (ad y) (head_ptr ?z ds)" and cd: "chain ?H (ad (y + 32 + s)) ?z 0 ds"
      using c(3) by (simp_all add: cs)
    have "?H (ad y) = header s u (last_addr p x as) (ad (y + 32 + s))" using c(2) by (simp add: cs)
    then have H: "kh_hdr (merge_with_next (ad y) st) = H2"
      using nx z by (simp add: merge_with_next_def Let_def H2_def H1_def header_def add.assoc)
    have "chain H1 (ad (y + 32 + s)) ?z 0 ds" using cd chain_upd [of y ?z ds] b by (simp add: H1_def)
    then have c2: "chain H2 (ad y) ?z 0 ds"
      using chain_relink_next [of H1 _ ?z ds "ad y"] b unfolding H2_def by simp
    have a2: "chain H2 p x (ad y) as"
      using c(1) chain_upd [of y x as] chain_upd [of ?z x as] b by (simp add: H2_def H1_def y_def)
    have ne: "ad ?z \<noteq> ad y" using b by (simp add: ad_inj)
    have h2: "H2 (ad y) = header (s + 32 + t) u (last_addr p x as) (head_ptr ?z ds)"
      using ne by (simp add: H2_def H1_def)
    have m: "merge_next as ((s, u) # cs) = as @ (s + 32 + t, u) # ds" by (simp add: merge_next_def cs)
    have e: "y + 32 + (s + 32 + t) = ?z" by simp
    show ?thesis
      unfolding y_def [symmetric] H m chain_mid using a2 h2 c2 by (simp add: y_def [symmetric] e)
  qed
qed

lemma release_block_chain:
  assumes ch: "chain (kh_hdr st) 0 0 0 (as @ (s, True) # cs)" and bound: "span (as @ (s, True) # cs) \<le> 2 ^ 28"
  shows "chain (kh_hdr (release_block (ad (span as)) st)) 0 0 0 (release_between as s cs)"
proof -
  define st1 where "st1 = set_header (ad (span as)) (\<lambda>h. h\<lparr>bh_state := BLOCK_FREE\<rparr>) st"
  define st2 where "st2 = st1\<lparr>kh_active := kh_active st1 - 1\<rparr>"
  define st3 where "st3 = merge_with_next (ad (span as)) st2"
  obtain s1 rest where r: "(case cs of (t, False) # rest \<Rightarrow> (s + 32 + t, rest) | _ \<Rightarrow> (s, cs)) = (s1, rest)" by fastforce
  have m: "merge_next as ((s, False) # cs) = as @ (s1, False) # rest"
    using r by (auto simp: merge_next_def split: list.splits bool.splits)
  have sp: "span as + (32 + s1 + span rest) \<le> 2 ^ 28"
    using r bound by (auto split: list.splits bool.splits)
  have "chain (kh_hdr st2) 0 0 0 (as @ (s, False) # cs)"
    using ch chain_mid_upd [OF ch, of s False] bound by (auto simp: st2_def st1_def chain_mid header_def)
  from merge_with_next_chain [OF this] bound m
  have c3: "chain (kh_hdr st3) 0 0 0 (as @ (s1, False) # rest)" by (simp add: st3_def)
  have prev: "bh_previous (kh_hdr st3 (ad (span as))) = last_addr 0 0 as"
    using c3 by (simp add: chain_mid)
  have rel: "release_block (ad (span as)) st =
      (if last_addr 0 0 as \<noteq> 0 \<and> bh_state (kh_hdr st3 (last_addr 0 0 as)) = BLOCK_FREE
       then merge_with_next (last_addr 0 0 as) st3 else st3)"
    using prev by (simp add: release_block_def Let_def st1_def [symmetric] st2_def [symmetric] st3_def [symmetric])
  show ?thesis
  proof (cases as rule: rev_cases)
    case Nil
    have "release_block (ad (span as)) st = st3" using Nil by (subst rel) simp
    moreover have "release_between as s cs = as @ (s1, False) # rest" using Nil r by (simp add: release_between_def)
    ultimately show ?thesis using c3 by simp
  next
    case (snoc ds d)
    obtain t u where d: "d = (t, u)" by fastforce
    have la: "last_addr 0 0 as = ad (span ds)" "ad (span ds) \<noteq> 0"
      using sp by (auto simp: snoc d intro!: ad_nonzero)
    have c: "chain (kh_hdr st3) 0 0 0 (ds @ (t, u) # (s1, False) # rest)" using c3 by (simp add: snoc d)
    then have "bh_state (kh_hdr st3 (ad (span ds))) = BLOCK_FREE \<longleftrightarrow> \<not> u" by (simp add: chain_mid)
    moreover have "chain (kh_hdr (merge_with_next (ad (span ds)) st3)) 0 0 0 (ds @ (t + 32 + s1, u) # rest)"
      using merge_with_next_chain [OF c] sp by (simp add: snoc d merge_next_def)
    ultimately show ?thesis unfolding rel using c3 la r by (cases u) (simp_all add: release_between_def snoc d)
  qed
qed

lemma append_free_chain:
  assumes ch: "chain (kh_hdr st) 0 0 0 bs" and m: "unat (kh_mapped st) = span bs" and bound: "span bs + unat g \<le> 2 ^ 28"
    and g: "32 \<le> unat g" and f: "kh_first st = head_ptr 0 bs"
  shows "chain (kh_hdr (append_free g (last_addr 0 0 bs) st)) 0 0 0 (grow_blocks (unat g) bs)"
    "kh_first (append_free g (last_addr 0 0 bs) st) = ad 0"
    "kh_mm (append_free g (last_addr 0 0 bs) st) = kh_mm st"
    "kh_active (append_free g (last_addr 0 0 bs) st) = kh_active st"
proof -
  have "kh_mapped st = word_of_nat (span bs)" using arg_cong [OF m, of "word_of_nat :: nat \<Rightarrow> u64"] by simp
  then have e: "HEAP_BASE + kh_mapped st = ad (span bs)" by (simp add: ad_def)
  have g32: "g - 32 = word_of_nat (unat g - 32)" using g by (simp add: of_nat_diff)
  let ?st = "append_free g (last_addr 0 0 bs) st"
  have "chain (kh_hdr ?st) 0 0 0 (grow_blocks (unat g) bs) \<and> kh_first ?st = ad 0 \<and> kh_mm ?st = kh_mm st \<and>
    kh_active ?st = kh_active st"
  proof (cases bs rule: rev_cases)
    case Nil
    then show ?thesis using e g32 by (simp add: append_free_def Let_def grow_blocks_def header_def)
  next
    case (snoc as b)
    obtain s u where b: "b = (s, u)" by fastforce
    have nz: "ad (span as) \<noteq> 0" using bound by (intro ad_nonzero) (simp add: snoc b)
    have c: "chain (kh_hdr st) 0 0 0 (as @ [(s, u)])" "span (as @ [(s, u)]) \<le> 2 ^ 28"
      using ch bound by (simp_all add: snoc b)
    have h: "kh_hdr st (ad (span as)) = header s u (last_addr 0 0 as) 0" using c(1) by (simp add: chain_mid)
    have ne: "ad (span bs) \<noteq> ad (span as)" using bound by (simp add: ad_inj snoc b)
    define new where "new = header (unat g - 32) False (ad (span as)) 0"
    have "chain ((kh_hdr st)(ad (span bs) := new)) 0 0 0 (as @ [(s, u)])"
      using c chain_upd [of "span bs" 0 "as @ [(s, u)]"] bound by (simp add: snoc b)
    from chain_unlast [OF this, of "ad (span bs)"] c(2) ne
    have "chain ((kh_hdr st)(ad (span bs) := new, ad (span as) := (kh_hdr st (ad (span as)))\<lparr>bh_next := ad (span bs)\<rparr>))
       0 0 (ad (span bs)) bs" by (simp add: snoc b)
    then have used: "chain ((kh_hdr st)(ad (span bs) := new, ad (span as) := (kh_hdr st (ad (span as)))\<lparr>bh_next := ad (span bs)\<rparr>))
       0 0 0 (bs @ [(unat g - 32, False)])"
      using ne by (simp add: chain_append new_def) (simp add: snoc b)
    have free: "chain ((kh_hdr st)(ad (span as) := header (s + unat g) u (last_addr 0 0 as) 0)) 0 0 0 (as @ [(s + unat g, u)])"
      using c chain_mid_upd(1) [OF c(1)] by (simp add: chain_mid)
    show ?thesis
      using nz used free h e g32 f ne
      by (auto simp: append_free_def Let_def grow_blocks_def snoc b new_def header_def)
  qed
  then show "chain (kh_hdr ?st) 0 0 0 (grow_blocks (unat g) bs)" "kh_first ?st = ad 0" "kh_mm ?st = kh_mm st"
    "kh_active ?st = kh_active st" by blast+
qed

section \<open>The invariant\<close>

definition heap_rep :: "kheap \<Rightarrow> block list \<Rightarrow> bool" where
  "heap_rep st bs \<longleftrightarrow> kh_first st = head_ptr 0 bs \<and> chain (kh_hdr st) 0 0 0 bs \<and>
     unat (kh_mapped st) = span bs \<and> span bs \<le> 2 ^ 28 \<and> 4096 dvd span bs \<and> sizes_ok bs \<and> coalesced bs \<and>
     unat (kh_active st) = length (filter snd bs)"

lemma page_multiple_16: "4096 dvd (x :: nat) \<Longrightarrow> x mod 16 = 0"
  using dvd_trans [of 16 4096 x] by simp

lemma heap_growth_val:
  assumes "unat n \<le> 2 ^ 28"
  shows "unat n + 32 \<le> unat (heap_growth n)" "4096 \<le> unat (heap_growth n)" "4096 dvd unat (heap_growth n)"
    "unat (heap_growth n) \<le> 2 ^ 28 + 8192"
proof -
  have r: "unat (n + 32) = unat n + 32" using assms by (simp add: unat_u64_add)
  have u: "unat (align_up (n + 32) 4096) = (unat n + 32 + 4095) div 4096 * 4096"
    using assms r by (simp add: unat_align_up_4096)
  have "unat n + 32 \<le> (unat n + 32 + 4095) div 4096 * 4096" "(unat n + 32 + 4095) div 4096 * 4096 \<le> unat n + 32 + 4095"
    using div_mult_mod_eq [of "unat n + 32 + 4095" 4096] mod_less_divisor [of 4096 "unat n + 32 + 4095"] by linarith+
  then show "unat n + 32 \<le> unat (heap_growth n)" "4096 \<le> unat (heap_growth n)" "4096 dvd unat (heap_growth n)"
    "unat (heap_growth n) \<le> 2 ^ 28 + 8192"
    using u assms by (auto simp: heap_growth_def Let_def HEAP_GROW_PAGES_def word_less_nat_alt)
qed

lemma chain_unique:
  "chain H p x 0 bs \<Longrightarrow> chain H p' x 0 bs' \<Longrightarrow> (bs = []) = (bs' = []) \<Longrightarrow> x + span bs \<le> 2 ^ 28 \<Longrightarrow>
   x + span bs' \<le> 2 ^ 28 \<Longrightarrow> bs = bs'"
proof (induction bs arbitrary: p p' x bs')
  case (Cons b bs)
  obtain s u where b: "b = (s, u)" by fastforce
  from Cons.prems(3) obtain t v cs where b': "bs' = (t, v) # cs" by (cases bs') auto
  have h: "header s u p (head_ptr (x + 32 + s) bs) = header t v p' (head_ptr (x + 32 + t) cs)"
    using Cons.prems(1,2) by (simp add: b b')
  have "s = t"
  proof -
    have "unat (word_of_nat s :: u64) = unat (word_of_nat t :: u64)"
      using arg_cong [OF h, of bh_size] by simp
    then show ?thesis using Cons.prems(4,5) by (simp add: b b' unat_u64_of_nat)
  qed
  moreover have "u = v" using arg_cong [OF h, of bh_state] by (simp split: if_splits)
  moreover have "(bs = []) = (cs = [])"
    using arg_cong [OF h, of bh_next] ad_nonzero [of "x + 32 + s"] ad_nonzero [of "x + 32 + t"] Cons.prems(4,5)
    by (auto simp: b b' split: if_splits)
  ultimately show ?case
    using Cons.IH [of "ad x" "x + 32 + s" "ad x" cs] Cons.prems by (simp add: b b')
qed simp

lemma heap_rep_unique:
  assumes "heap_rep st bs" "heap_rep st bs'"
  shows "bs = bs'"
proof -
  have "(bs = []) = (bs' = [])" using assms ad_nonzero [of 0] by (auto simp: heap_rep_def split: if_splits)
  then show ?thesis using assms by (intro chain_unique [of "kh_hdr st" 0 0 bs 0 bs']) (auto simp: heap_rep_def)
qed

definition heap_inv :: "kheap \<Rightarrow> bool" where
  "heap_inv st \<longleftrightarrow> (\<exists>bs. heap_rep st bs)"

text \<open>The payloads in use: address and size.\<close>

definition live_payloads :: "kheap \<Rightarrow> (u64 \<times> nat) set" where
  "live_payloads st = {(ad p, s) | p s bs. heap_rep st bs \<and> (p, s) \<in> live_blocks 0 bs}"

lemma live_payloads_rep: "heap_rep st bs \<Longrightarrow> live_payloads st = (\<lambda>(p, s). (ad p, s)) ` live_blocks 0 bs"
proof (intro set_eqI iffI)
  fix x
  assume "heap_rep st bs" "x \<in> live_payloads st"
  then obtain p s where "x = (ad p, s)" "(p, s) \<in> live_blocks 0 bs"
    unfolding live_payloads_def using heap_rep_unique [of st bs] by blast
  then show "x \<in> (\<lambda>(p, s). (ad p, s)) ` live_blocks 0 bs" by force
next
  fix x
  assume "heap_rep st bs" "x \<in> (\<lambda>(p, s). (ad p, s)) ` live_blocks 0 bs"
  then show "x \<in> live_payloads st" unfolding live_payloads_def by (cases x) auto
qed

lemma heap_repD:
  assumes "heap_rep st bs"
  shows "kh_first st = head_ptr 0 bs" "chain (kh_hdr st) 0 0 0 bs" "unat (kh_mapped st) = span bs" "span bs \<le> 2 ^ 28"
    "4096 dvd span bs" "sizes_ok bs" "coalesced bs" "unat (kh_active st) = length (filter snd bs)"
  using assms by (auto simp: heap_rep_def)

lemma used_blocks_bound: "32 * length (filter snd bs) \<le> span bs"
  by (induction bs) auto

lemma last_block_rep: "heap_rep st bs \<Longrightarrow> last_block st = Some (last_addr 0 0 bs)"
  using last_from_chain [of "kh_hdr st" 0 0 bs] ad_nonzero [of 0]
  by (auto simp: last_block_def heap_rep_def last_addr_def)

lemma grow_heap_rep:
  assumes rep: "heap_rep st bs" and n: "unat n \<le> 2 ^ 28"
  shows "(\<exists>mm. grow_heap n st = Some (False, st\<lparr>kh_mm := mm\<rparr>)) \<or>
    (\<exists>st'. grow_heap n st = Some (True, st') \<and> heap_rep st' (grow_blocks (unat (heap_growth n)) bs))"
proof -
  define g where "g = heap_growth n"
  note R = heap_repD [OF rep] and G = heap_growth_val [OF n, folded g_def]
  obtain ok mm where m: "map_pages (unat (g div 4096)) 0 (HEAP_BASE + kh_mapped st) (kh_mm st) = (ok, mm)" by fastforce
  have lim: "HEAP_MAX_SIZE - kh_mapped st < g \<longleftrightarrow> 2 ^ 28 < span bs + unat g"
    using R(3,4) G(4) by (auto simp: HEAP_MAX_SIZE_def word_less_nat_alt unat_u64_sub)
  show ?thesis
  proof (cases "HEAP_MAX_SIZE - kh_mapped st < g \<or> \<not> ok")
    case True
    then have "grow_heap n st = Some (False, st\<lparr>kh_mm := if HEAP_MAX_SIZE - kh_mapped st < g then kh_mm st else mm\<rparr>)"
      using m by (cases ok) (auto simp: grow_heap_def g_def [symmetric] Let_def)
    then show ?thesis by blast
  next
    case False
    let ?s = "append_free g (last_addr 0 0 bs) (st\<lparr>kh_mm := mm\<rparr>)" and ?bs = "grow_blocks (unat g) bs"
    let ?st = "?s\<lparr>kh_mapped := kh_mapped st + g\<rparr>"
    have b: "span bs + unat g \<le> 2 ^ 28" using False lim by simp
    have e: "grow_heap n st = Some (True, ?st)"
      using False m last_block_rep [OF rep] by (simp add: grow_heap_def g_def [symmetric] Let_def)
    have g16: "unat g mod 16 = 0" using G(3) by (rule page_multiple_16)
    note A = append_free_chain [of "st\<lparr>kh_mm := mm\<rparr>" bs g]
    have cnt: "length (filter snd ?bs) = length (filter snd bs)" "?bs \<noteq> []"
      using grow_blocks_props(4) [OF G(2) g16, of 0 bs] card_live_blocks [of 0] by (metis, simp add: grow_blocks_def)
    have "heap_rep ?st ?bs"
      unfolding heap_rep_def
      using A G(2,3) R b grow_blocks_props(1-3) [OF G(2) g16, of bs]
      cnt by (auto simp: unat_u64_add)
    with e show ?thesis by (auto simp: g_def)
  qed
qed

lemma heap_rep_mm: "heap_rep (st\<lparr>kh_mm := mm\<rparr>) bs = heap_rep st bs"
  by (simp add: heap_rep_def)

text \<open>One pass of the allocation loop: a block that fits is taken.\<close>

lemma kmalloc_loop_hit:
  assumes rep: "heap_rep st bs" and k: "first_index (fits (unat n)) bs = Some k"
    and n: "16 \<le> unat n" "unat n mod 16 = 0"
  shows "\<exists>st'. kmalloc_loop n st = Some (ad (span (take k bs) + 32), st') \<and> kh_mapped st' = kh_mapped st \<and>
    heap_rep st' (take_block_at k (unat n) bs)"
proof -
  note R = heap_repD [OF rep] and K = first_index_SomeD [OF k]
  obtain s where b: "bs ! k = (s, False)" "unat n \<le> s" using K by (cases "bs ! k") (auto simp: fits_def)
  define as where "as = take k bs"
  define cs where "cs = drop (Suc k) bs"
  have bs: "bs = as @ (s, False) # cs" using split_at [of k bs] K b by (simp add: as_def cs_def)
  have tk: "take_block_at k (unat n) bs = as @ carve (unat n) s @ cs" by (simp add: take_block_at_def b as_def cs_def)
  let ?st = "use_block (ad (span as)) n st"
  have ff: "first_fit (kh_hdr st) n (kh_first st) = Some (ad (span as))"
    using first_fit_chain [OF R(2), of n] R(1,4) k by (simp add: as_def)
  have nz: "ad (span as) \<noteq> 0" using R(4) by (intro ad_nonzero) (simp add: bs)
  have "chain (kh_hdr ?st) 0 0 0 (take_block_at k (unat n) bs)"
    using use_block_chain [of st 0 0 as s cs "unat n"] R(2,4) b by (simp add: bs [symmetric] tk)
  moreover have "length (filter snd (take_block_at k (unat n) bs)) = length (filter snd bs) + 1"
    unfolding tk by (simp add: bs carve_def)
  moreover have "take_block_at k (unat n) bs \<noteq> []" "bs \<noteq> []" unfolding tk by (simp_all add: bs carve_def)
  moreover note used_blocks_bound [of bs]
  ultimately have "heap_rep ?st (take_block_at k (unat n) bs)"
    using use_block_frame(1) [of st "ad (span as)" n] use_block_frame(2) [of "ad (span as)" n st] R take_block_at_props(1-3) [of k bs "unat n"] K n
    by (auto simp: heap_rep_def same_frame_def unat_u64_add)
  then show ?thesis
    using ff nz use_block_frame(1) [of st "ad (span as)" n]
    by (subst kmalloc_loop.simps) (auto simp: as_def [symmetric] ad_add same_frame_def)
qed

definition alloc_result :: "nat \<Rightarrow> u64 \<Rightarrow> kheap \<Rightarrow> kheap \<Rightarrow> bool" where
  "alloc_result n p st st' \<longleftrightarrow> heap_inv st' \<and>
     (p = 0 \<and> live_payloads st' = live_payloads st \<or>
      p \<noteq> 0 \<and> (\<exists>m \<ge> n. live_payloads st' = insert (p, m) (live_payloads st) \<and> (p, m) \<notin> live_payloads st))"

lemma kmalloc_loop_hit_result:
  assumes rep: "heap_rep st bs" and k: "first_index (fits (unat n)) bs = Some k"
    and n: "16 \<le> unat n" "unat n mod 16 = 0"
  shows "\<exists>p st'. kmalloc_loop n st = Some (p, st') \<and> alloc_result (unat n) p st st'"
proof -
  obtain st' where s: "kmalloc_loop n st = Some (ad (span (take k bs) + 32), st')"
    "heap_rep st' (take_block_at k (unat n) bs)"
    using kmalloc_loop_hit [OF assms] by blast
  note K = first_index_SomeD [OF k]
  obtain m where m: "unat n \<le> m" "live_blocks 0 (take_block_at k (unat n) bs) = insert (span (take k bs) + 32, m) (live_blocks 0 bs)"
    "(span (take k bs) + 32, m) \<notin> live_blocks 0 bs"
    using take_block_at_props(4) [of k bs "unat n" 0] K n by auto
  let ?f = "\<lambda>(p, s). (ad p, s :: nat)"
  have b: "span (take k bs) + 32 \<le> 2 ^ 28" "p \<le> 2 ^ 28" if "(p, s) \<in> live_blocks 0 bs" for p s
    using live_blocks_range [OF that] heap_repD(4) [OF rep] live_blocks_range [of "span (take k bs) + 32" m 0 "take_block_at k (unat n) bs"]
      m(2) heap_repD(4) [OF s(2)] by auto
  have "(ad (span (take k bs) + 32), m) \<notin> ?f ` live_blocks 0 bs"
    using m(3) b by (auto simp: ad_inj)
  moreover have "ad (span (take k bs) + 32) \<noteq> 0"
    using live_blocks_range [of "span (take k bs) + 32" m 0 "take_block_at k (unat n) bs"] m(2) heap_repD(4) [OF s(2)]
    by (intro ad_nonzero) auto
  ultimately show ?thesis
    using s m by (auto simp: alloc_result_def heap_inv_def live_payloads_rep [OF rep] live_payloads_rep [OF s(2)])
qed

lemma kmalloc_loop_result:
  assumes rep: "heap_rep st bs" and n: "16 \<le> unat n" "unat n mod 16 = 0" "unat n \<le> 2 ^ 28"
  shows "\<exists>p st'. kmalloc_loop n st = Some (p, st') \<and> alloc_result (unat n) p st st'"
proof (cases "first_index (fits (unat n)) bs")
  case (Some k)
  then show ?thesis using kmalloc_loop_hit_result [OF rep Some n(1,2)] by blast
next
  case None
  note R = heap_repD [OF rep]
  have ff: "first_fit (kh_hdr st) n (kh_first st) = Some 0"
    using first_fit_chain [OF R(2), of n] R(1,4) None by simp
  from grow_heap_rep [OF rep n(3)] show ?thesis
  proof
    assume "\<exists>mm. grow_heap n st = Some (False, st\<lparr>kh_mm := mm\<rparr>)"
    then obtain mm where g: "grow_heap n st = Some (False, st\<lparr>kh_mm := mm\<rparr>)" by blast
    have rep': "heap_rep (st\<lparr>kh_mm := mm\<rparr>) bs" using rep by (simp add: heap_rep_mm)
    show ?thesis
      using ff g rep' live_payloads_rep [OF rep'] live_payloads_rep [OF rep]
      by (subst kmalloc_loop.simps) (auto simp: alloc_result_def heap_inv_def)
  next
    let ?bs = "grow_blocks (unat (heap_growth n)) bs"
    assume "\<exists>st'. grow_heap n st = Some (True, st') \<and> heap_rep st' ?bs"
    then obtain st1 where g: "grow_heap n st = Some (True, st1)" and rep1: "heap_rep st1 ?bs" by blast
    note G = heap_growth_val [OF n(3)]
    have g16: "unat (heap_growth n) mod 16 = 0" using G(3) by (rule page_multiple_16)
    obtain k where "first_index (fits (unat n)) ?bs = Some k"
      using grow_blocks_props(5) [OF G(2) g16, of "unat n" bs] G(1) by (auto elim: first_index_ex)
    from kmalloc_loop_hit_result [OF rep1 this n(1,2)] obtain p st' where
      "kmalloc_loop n st1 = Some (p, st')" "alloc_result (unat n) p st1 st'" by blast
    moreover have "live_payloads st1 = live_payloads st"
      using grow_blocks_props(4) [OF G(2) g16] by (simp add: live_payloads_rep [OF rep] live_payloads_rep [OF rep1])
    ultimately show ?thesis
      using ff g by (subst kmalloc_loop.simps) (auto simp: alloc_result_def)
  qed
qed

lemma alloc_result_mono: "n \<le> n' \<Longrightarrow> alloc_result n' p st st' \<Longrightarrow> alloc_result n p st st'"
  by (auto simp: alloc_result_def intro: order_trans)

lemma kmalloc_size:
  assumes "n \<noteq> 0" "n \<le> HEAP_MAX_SIZE - 32"
  shows "16 \<le> unat (align_up n 16)" "unat (align_up n 16) mod 16 = 0" "unat (align_up n 16) \<le> 2 ^ 28"
    "unat n \<le> unat (align_up n 16)"
proof -
  have n: "0 < unat n" "unat n \<le> 2 ^ 28 - 32"
    using assms by (auto simp: HEAP_MAX_SIZE_def word_le_nat_alt u64_eq_iff_unat)
  have u: "unat (align_up n 16) = (unat n + 15) div 16 * 16" using n by (intro unat_align_up_16) simp
  have "1 \<le> (unat n + 15) div 16" using n by (simp add: Suc_le_eq div_greater_zero_iff)
  then show "16 \<le> unat (align_up n 16)" "unat (align_up n 16) mod 16 = 0" "unat (align_up n 16) \<le> 2 ^ 28"
    "unat n \<le> unat (align_up n 16)"
    using n div_mult_mod_eq [of "unat n + 15" 16] mod_less_divisor [of 16 "unat n + 15"] unfolding u
    by (simp, simp, linarith+)
qed

lemma kmalloc_result:
  assumes "heap_inv st"
  shows "\<exists>p st'. kmalloc n st = Some (p, st') \<and> alloc_result (unat n) p st st' \<and> (n = 0 \<longrightarrow> p = 0)"
proof (cases "n = 0 \<or> HEAP_MAX_SIZE - 32 < n")
  case True
  then show ?thesis using assms by (auto simp: kmalloc_def alloc_result_def)
next
  case False
  obtain bs where rep: "heap_rep st bs" using assms by (auto simp: heap_inv_def)
  then show ?thesis
    using kmalloc_loop_result [OF rep, of "align_up n 16"] kmalloc_size [of n] False
    by (auto simp: kmalloc_def not_less intro: alloc_result_mono)
qed

subsection \<open>Release\<close>

lemma live_blocks_split:
  "(p, s) \<in> live_blocks x bs \<Longrightarrow> \<exists>as cs. bs = as @ (s, True) # cs \<and> p = x + span as + 32"
proof (induction x bs rule: live_blocks.induct)
  case (2 x t u bs)
  show ?case
  proof (cases "(p, s) \<in> live_blocks (x + 32 + t) bs")
    case True
    with 2(1) obtain as cs where "bs = as @ (s, True) # cs" "p = x + 32 + t + span as + 32" by blast
    then have "(t, u) # bs = ((t, u) # as) @ (s, True) # cs" "p = x + span ((t, u) # as) + 32" by simp_all
    then show ?thesis by blast
  next
    case False
    then have "p = x + 32" "s = t" "u" using 2(2) by (auto split: if_splits)
    then show ?thesis by (intro exI [of _ "[]"] exI [of _ bs]) simp
  qed
qed simp

lemma find_block_hit:
  assumes rep: "heap_rep st (as @ b # cs)"
  shows "find_block_for_pointer st (ad (span as + 32)) = Some (ad (span as))"
proof -
  let ?bs = "as @ b # cs" and ?P = "\<lambda>k. ad (span as + 32) = ad (0 + span (take k (as @ b # cs)) + 32)"
  note R = heap_repD [OF rep]
  obtain j where j: "first_index ?P [0 ..< length ?bs] = Some j"
    by (rule first_index_ex [of "length as" "[0 ..< length ?bs]" ?P]) (simp_all del: upt_Suc)
  have jl: "j < length ?bs" "?P j" using first_index_SomeD [OF j] by (auto simp del: upt_Suc)
  have sp: "span (take k xs) + (if k < length xs then 32 else 0) \<le> span xs" for k and xs :: "block list"
  proof -
    have "span xs = span (take k xs) + span (drop k xs)" by (metis append_take_drop_id span_simps(3))
    then show ?thesis by (cases "drop k xs") auto
  qed
  have "span (take j ?bs) = span as"
    using jl sp [of j ?bs] sp [of "length as" ?bs] R(4) by (subst (asm) ad_inj) auto
  then show ?thesis
    using find_from_chain [OF R(2), of "ad (span as + 32)"] R(1,4) j by (simp add: find_block_for_pointer_def)
qed

lemma find_block_miss:
  assumes rep: "heap_rep st bs" and no: "\<And>as b cs. bs = as @ b # cs \<Longrightarrow> q \<noteq> ad (span as + 32)"
  shows "find_block_for_pointer st q = Some 0"
proof -
  note R = heap_repD [OF rep]
  have "q \<noteq> ad (span (take k bs) + 32)" if "k < length bs" for k
    using no [of "take k bs" "bs ! k" "drop (Suc k) bs"] that by (simp add: id_take_nth_drop [symmetric])
  then have "first_index (\<lambda>k. q = ad (0 + span (take k bs) + 32)) [0 ..< length bs] = None"
    by (auto simp: first_index_None_iff)
  then show ?thesis using find_from_chain [OF R(2), of q] R(1,4) by (simp add: find_block_for_pointer_def)
qed

lemma kfree_dead:
  assumes inv: "heap_inv st" and dead: "\<And>m. (q, m) \<notin> live_payloads st"
  shows "kfree q st = Some (False, st)"
proof -
  obtain bs where rep: "heap_rep st bs" using inv by (auto simp: heap_inv_def)
  note R = heap_repD [OF rep]
  consider as s u cs where "bs = as @ (s, u) # cs" "q = ad (span as + 32)"
    | "\<And>as b cs. bs = as @ b # cs \<Longrightarrow> q \<noteq> ad (span as + 32)" by (metis prod.collapse)
  then show ?thesis
  proof cases
    case 1
    have "\<not> u"
    proof
      assume u
      then have "(span as + 32, s) \<in> live_blocks 0 bs" by (simp add: 1)
      then have "(q, s) \<in> live_payloads st" unfolding live_payloads_rep [OF rep] using 1(2) by force
      then show False using dead by blast
    qed
    moreover have "kh_hdr st (ad (span as)) = header s u (last_addr 0 0 as) (head_ptr (span as + 32 + s) cs)"
      using R(2) by (simp add: 1 chain_mid)
    ultimately show ?thesis using find_block_hit [of st as "(s, u)" cs] rep by (simp add: 1 kfree_def)
  next
    case 2
    then show ?thesis using find_block_miss [OF rep, of q] by (simp add: kfree_def)
  qed
qed

lemma live_inj:
  assumes "heap_rep st bs"
  shows "inj_on (\<lambda>(p, s). (ad p, s :: nat)) (live_blocks 0 bs)"
proof (rule inj_onI)
  fix x y assume "x \<in> live_blocks 0 bs" "y \<in> live_blocks 0 bs" "(\<lambda>(p, s). (ad p, s)) x = (\<lambda>(p, s). (ad p, s)) y"
  then show "x = y"
    using heap_repD(4) [OF assms] ad_inj [of "fst x" "fst y"] live_blocks_range [of _ "snd x" 0 bs]
    by (cases x; cases y) fastforce
qed

lemma kfree_live:
  assumes inv: "heap_inv st" and live: "(q, m) \<in> live_payloads st"
  shows "\<exists>st'. kfree q st = Some (True, st') \<and> heap_inv st' \<and> live_payloads st' = live_payloads st - {(q, m)}"
proof -
  obtain bs where rep: "heap_rep st bs" using inv by (auto simp: heap_inv_def)
  note R = heap_repD [OF rep]
  obtain p where p: "q = ad p" "(p, m) \<in> live_blocks 0 bs" using live unfolding live_payloads_rep [OF rep] by auto
  obtain as cs where bs: "bs = as @ (m, True) # cs" "p = span as + 32" using live_blocks_split [OF p(2)] by auto
  have rng: "32 \<le> p" "p + m \<le> span bs" "p mod 16 = 0" "16 \<le> m"
    using live_blocks_range [OF p(2)] sizes_ok_live [OF R(6) _ p(2)] by auto
  have uq: "unat q = 0xFFFFD00000000000 + p" using rng R(4) unat_ad [of p] by (simp add: p)
  have g: "\<not> (q < HEAP_BASE + 32 \<or> HEAP_BASE + kh_mapped st \<le> q \<or> q mod 16 \<noteq> 0)" "q \<noteq> 0"
    using uq rng R(3,4) by (auto simp: word_less_nat_alt word_le_nat_alt HEAP_BASE_def unat_u64_add u64_eq_iff_unat
        unat_mod mod_add_eq [symmetric, of _ p])
  let ?st = "release_block (ad (span as)) st" and ?bs = "release_between as m cs"
  have hdr: "kh_hdr st (ad (span as)) = header m True (last_addr 0 0 as) (head_ptr (span as + 32 + m) cs)"
    using R(2) by (simp add: bs chain_mid)
  have nz: "ad (span as) \<noteq> 0" using R(4) by (intro ad_nonzero) (simp add: bs)
  have k: "kfree q st = Some (True, ?st)"
    using g find_block_hit [of st as "(m, True)" cs] rep hdr nz by (simp add: kfree_def p bs)
  note B = release_between_props [of as m cs, folded bs(1), OF R(6,7)]
  have "length (filter snd ?bs) = length (filter snd bs) - 1"
    using card_live_blocks [of 0 ?bs] card_live_blocks [of 0 bs] B(4) [of 0] p(2) by (simp add: bs(2))
  moreover have "0 < length (filter snd bs)" by (simp add: bs)
  moreover have "unat (kh_active st - 1) = unat (kh_active st) - 1" if "0 < unat (kh_active st)"
    using that by (intro unat_minus_one) auto
  moreover have "?bs \<noteq> []" using B(1) by (auto simp: bs(1))
  ultimately have rep': "heap_rep ?st ?bs"
    using release_block_chain [of st as m cs] release_block_frame(1) [of st "ad (span as)"]
      release_block_frame(2) [of "ad (span as)" st] R B
    by (auto simp: heap_rep_def same_frame_def bs(1) [symmetric])
  have "live_payloads ?st = live_payloads st - {(q, m)}"
  proof -
    note live_inj [OF rep]
    then show ?thesis
      unfolding live_payloads_rep [OF rep] live_payloads_rep [OF rep'] B(4) using p(2)
      by (subst inj_on_image_set_diff) (auto simp: bs(2) p(1))
  qed
  with k rep' show ?thesis by (auto simp: heap_inv_def)
qed

lemma live_payloads_disjoint:
  assumes inv: "heap_inv st" and l: "(p, m) \<in> live_payloads st" "(q, k) \<in> live_payloads st"
  shows "(p, m) = (q, k) \<or> unat p + m \<le> unat q \<or> unat q + k \<le> unat p"
proof -
  obtain bs where rep: "heap_rep st bs" using inv by (auto simp: heap_inv_def)
  obtain x y where "p = ad x" "(x, m) \<in> live_blocks 0 bs" "q = ad y" "(y, k) \<in> live_blocks 0 bs"
    using l unfolding live_payloads_rep [OF rep] by auto
  then show ?thesis
    using live_blocks_disjoint [of x m 0 bs y k] live_blocks_range [of x m 0 bs] live_blocks_range [of y k 0 bs]
      unat_ad [of x] unat_ad [of y] heap_repD(4) [OF rep] by auto
qed

lemma live_payloads_range:
  assumes inv: "heap_inv st" and l: "(p, m) \<in> live_payloads st"
  shows "unat HEAP_BASE + 32 \<le> unat p" "unat p + m \<le> unat HEAP_BASE + unat (kh_mapped st)" "unat p mod 16 = 0" "16 \<le> m"
proof -
  obtain bs where rep: "heap_rep st bs" using inv by (auto simp: heap_inv_def)
  note R = heap_repD [OF rep]
  obtain x where x: "p = ad x" "(x, m) \<in> live_blocks 0 bs" using l unfolding live_payloads_rep [OF rep] by auto
  have r: "32 \<le> x" "x + m \<le> span bs" "x mod 16 = 0" "16 \<le> m"
    using live_blocks_range [OF x(2)] sizes_ok_live [OF R(6) _ x(2)] by auto
  have u: "unat p = unat HEAP_BASE + x" using r R(4) unat_ad [of x] by (simp add: x HEAP_BASE_def)
  show "unat HEAP_BASE + 32 \<le> unat p" "unat p + m \<le> unat HEAP_BASE + unat (kh_mapped st)" "16 \<le> m"
    using u r R(3) by simp_all
  have "(unat HEAP_BASE + x) mod 16 = 0" using r(3) by (simp add: HEAP_BASE_def mod_add_eq [symmetric, of _ x])
  then show "unat p mod 16 = 0" by (simp only: u)
qed

interpretation kernel_heap: checked_heap kmalloc kfree live_payloads heap_inv
proof unfold_locales
  show "\<exists>p t. kmalloc n s = Some (p, t) \<and> heap_inv t \<and> (p = 0 \<and> live_payloads t = live_payloads s \<or>
      p \<noteq> 0 \<and> (\<exists>m \<ge> unat n. live_payloads t = insert (p, m) (live_payloads s) \<and> (p, m) \<notin> live_payloads s))"
    if "heap_inv s" for s n
    using kmalloc_result [OF that, of n] unfolding alloc_result_def by blast
  show "p \<noteq> 0 \<and> 0 < m" if "heap_inv s" "(p, m) \<in> live_payloads s" for s p m
    using live_payloads_range [OF that] by (auto simp: u64_eq_iff_unat)
qed (rule kfree_live live_payloads_disjoint kfree_dead; assumption)+

section \<open>Statistics\<close>

lemma stats_from_chain:
  "chain H p x 0 bs \<Longrightarrow> x + span bs \<le> 2 ^ 28 \<Longrightarrow>
   stats_from H (head_ptr x bs) u f =
     Some (u + word_of_nat (sum_list (map fst (filter snd bs))), f + word_of_nat (sum_list (map fst (filter (\<lambda>b. \<not> snd b) bs))))"
proof (induction bs arbitrary: p x u f)
  case (Cons b bs)
  obtain s v where b: "b = (s, v)" by fastforce
  have nz: "ad x \<noteq> 0" using Cons.prems(2) by (auto simp: b intro!: ad_nonzero)
  have h: "H (ad x) = header s v p (head_ptr (x + 32 + s) bs)" using Cons.prems(1) by (simp add: b)
  have nx: "bh_next (H (ad x)) = head_ptr (x + 32 + s) bs" by (simp only: h header_simps)
  have IH: "stats_from H (head_ptr (x + 32 + s) bs) u f = Some (u + word_of_nat (sum_list (map fst (filter snd bs))),
      f + word_of_nat (sum_list (map fst (filter (\<lambda>b. \<not> snd b) bs))))" for u f
    using Cons.IH [of "ad x" "x + 32 + s"] Cons.prems by (simp add: b)
  have "stats_from H (ad x) u f = stats_from H (head_ptr (x + 32 + s) bs)
      (if v then u + word_of_nat s else u) (if v then f else f + word_of_nat s)"
    using nz nx by (subst stats_from.simps) (simp add: h del: chain.simps)
  then show ?case using IH by (cases v) (simp_all add: b add.assoc)
qed (subst stats_from.simps, simp)

lemma span_sums:
  "span bs = sum_list (map fst (filter snd bs)) + sum_list (map fst (filter (\<lambda>b. \<not> snd b) bs)) + 32 * length bs"
  by (induction bs) (auto simp: span_def)

lemma sum_live: "(\<Sum>(p, s) \<in> live_blocks x bs. s) = sum_list (map fst (filter snd bs))"
proof (induction x bs rule: live_blocks.induct)
  case (2 x s u bs)
  have "(x + 32, s) \<notin> live_blocks (x + 32 + s) bs" by (auto dest: live_blocks_range)
  with 2 show ?case by simp
qed simp

lemma stats_rep:
  assumes rep: "heap_rep st bs"
  obtains r where "kmalloc_get_stats st = Some r" "mapped_bytes r = kh_mapped st"
    "unat (used_bytes r) = sum_list (map fst (filter snd bs))"
    "unat (free_bytes r) = sum_list (map fst (filter (\<lambda>b. \<not> snd b) bs))" "active_allocations r = kh_active st"
proof -
  note R = heap_repD [OF rep]
  have "unat (word_of_nat k :: u64) = k" if "k \<le> span bs" for k using that R(4) by (simp add: unat_u64_of_nat)
  then show ?thesis
    using stats_from_chain [OF R(2), of 0 0] R(1,4) span_sums [of bs]
    by (intro that) (auto simp: kmalloc_get_stats_def)
qed

section \<open>The pages behind the heap\<close>

text \<open>Every page of the heap is mapped, writable and not executable, in the kernel's space.\<close>

definition page_backed :: "mm_state \<Rightarrow> u64 \<Rightarrow> bool" where
  "page_backed mm va \<longleftrightarrow> (\<exists>a. is_frame a \<and>
     view mm (mm_kernel_pml4 mm) (indices va) = Some (leaf_entry a (VMM_WRITABLE OR VMM_NO_EXECUTE), 0))"

definition heap_backed :: "kheap \<Rightarrow> bool" where
  "heap_backed st \<longleftrightarrow> heap_inv st \<and> space_inv (kh_mm st) (mm_kernel_pml4 (kh_mm st)) \<and>
     (\<forall>k. k * 4096 < unat (kh_mapped st) \<longrightarrow> page_backed (kh_mm st) (HEAP_BASE + word_of_nat (k * 4096)))"

lemma mm_alloc_page_space:
  assumes inv: "space_inv st root" and a: "mm_alloc_page st = (a, st')" "a \<noteq> PMM_INVALID_ADDRESS"
  shows "space_inv st' root" "mm_frames st' = mm_frames st" "same_regs st st'" "is_frame a"
proof -
  obtain p where p: "pmm_alloc_page (mm_pmm st) = (a, p)" "st' = st\<lparr>mm_pmm := p\<rparr>"
    using a(1) by (auto simp: mm_alloc_page_def split: prod.splits)
  show "space_inv st' root" "mm_frames st' = mm_frames st" "same_regs st st'" "is_frame a"
    using pmm_alloc_frame [OF space_invD(1) [OF inv] p(1) a(2)] space_invD [OF inv] p(2)
    by (auto simp: space_inv_def same_regs_def)
qed

lemma map_pages_True:
  assumes "space_inv mm (mm_kernel_pml4 mm)" "map_pages n page va mm = (True, mm')"
  shows "space_inv mm' (mm_kernel_pml4 mm') \<and> mm_kernel_pml4 mm' = mm_kernel_pml4 mm \<and>
    (\<forall>q. page_backed mm q \<longrightarrow> page_backed mm' q) \<and>
    (\<forall>j. page \<le> j \<longrightarrow> j < page + n \<longrightarrow> page_backed mm' (va + word_of_nat j * 4096))"
  using assms
proof (induction n arbitrary: page mm)
  case (Suc n)
  let ?f = "VMM_WRITABLE OR VMM_NO_EXECUTE" and ?va = "va + word_of_nat page * 4096" and ?k = "mm_kernel_pml4 mm"
  obtain a mm1 where a: "mm_alloc_page mm = (a, mm1)" by fastforce
  with Suc.prems(2) have na: "a \<noteq> PMM_INVALID_ADDRESS" by auto
  note A = mm_alloc_page_space [OF Suc.prems(1) a na]
  obtain ok mm2 where m0: "vmm_map_page ?va a ?f mm1 = (ok, mm2)" by fastforce
  with Suc.prems(2) a na have m: "vmm_map_page ?va a ?f mm1 = (True, mm2)" "map_pages n (Suc page) va mm2 = (True, mm')"
    by (auto split: bool.splits)
  have r: "space_pml4 mm1 Kernel_Space = ?k" using A(3) by (simp add: space_pml4_def same_regs_def)
  have l: "map_page_locked Kernel_Space ?va a ?f mm1 = (True, mm2)" "space_inv mm1 (space_pml4 mm1 Kernel_Space)"
    using m(1) A(1) by (simp_all only: vmm_map_page_def vmm_space_map_page_def r)
  have M: "space_inv mm2 ?k" "same_regs mm1 mm2" "view mm1 ?k (indices ?va) = None"
    "view mm2 ?k = (view mm1 ?k)(indices ?va := Some (leaf_entry a ?f, 0))"
    by (rule map_page_locked_True [OF l(2) A(4) l(1), unfolded r]; assumption)+
  have k2: "mm_kernel_pml4 mm2 = ?k" using A(3) M(2) by (simp add: same_regs_def)
  have v1: "view mm1 ?k = view mm ?k" using A(2) by (intro ext) (simp add: view_def)
  have keep: "page_backed mm2 q" if "page_backed mm q" for q
    using that M(3,4) v1 k2 by (auto simp: page_backed_def)
  have new: "page_backed mm2 ?va" using M(4) k2 A(4) by (auto simp: page_backed_def)
  from Suc.IH [of mm2 "Suc page"] M(1) m(2) k2
  have IH: "space_inv mm' (mm_kernel_pml4 mm')" "mm_kernel_pml4 mm' = ?k" "\<And>q. page_backed mm2 q \<Longrightarrow> page_backed mm' q"
    "\<And>j. Suc page \<le> j \<Longrightarrow> j < Suc page + n \<Longrightarrow> page_backed mm' (va + word_of_nat j * 4096)" by auto
  have "page_backed mm' (va + word_of_nat j * 4096)" if "page \<le> j" "j < page + Suc n" for j
    using that IH(3) [OF new] IH(4) [of j] by (cases "j = page") auto
  then show ?case using IH(1-3) keep by blast
qed simp

lemma grow_heap_backed:
  assumes b: "heap_backed st" and n: "unat n \<le> 2 ^ 28" and g: "grow_heap n st = Some (True, st')"
  shows "heap_backed st'"
proof -
  obtain bs where rep: "heap_rep st bs" using b by (auto simp: heap_backed_def heap_inv_def)
  note R = heap_repD [OF rep] and G = heap_growth_val [OF n]
  let ?g = "heap_growth n" and ?va = "HEAP_BASE + kh_mapped st"
  have inv': "heap_inv st'" using grow_heap_rep [OF rep n] g by (auto simp: heap_inv_def)
  obtain mm where m: "map_pages (unat (?g div 4096)) 0 ?va (kh_mm st) = (True, mm)" "\<not> HEAP_MAX_SIZE - kh_mapped st < ?g"
    "kh_mm st' = mm" "kh_mapped st' = kh_mapped st + ?g"
    using g last_block_rep [OF rep]
    by (auto simp: grow_heap_def Let_def append_free_def split: if_splits prod.splits bool.splits)
  have "space_inv (kh_mm st) (mm_kernel_pml4 (kh_mm st))" using b by (simp add: heap_backed_def)
  note M = map_pages_True [OF this m(1)]
  obtain j where j: "span bs = j * 4096" using R(5) by (auto elim: dvdE)
  obtain i where i: "unat ?g = i * 4096" using G(3) by (auto elim: dvdE)
  have ml: "kh_mapped st = word_of_nat (j * 4096)" using arg_cong [OF R(3), of "word_of_nat :: nat \<Rightarrow> u64"] j by simp
  have pages: "unat (?g div 4096) = i" using i by (simp add: unat_div)
  have "unat (kh_mapped st') = j * 4096 + i * 4096"
    using m(2,4) R(3,4) G(4) i j by (simp add: unat_u64_add)
  moreover have "page_backed mm (HEAP_BASE + word_of_nat (k * 4096))" if "k < j + i" for k
  proof (cases "k < j")
    case True
    then show ?thesis using b M R(3) j by (auto simp: heap_backed_def)
  next
    case False
    have new: "page_backed mm (?va + word_of_nat l * 4096)" if "l < i" for l using M that pages by auto
    have "page_backed mm (?va + word_of_nat (k - j) * 4096)" by (rule new) (use that False in linarith)
    moreover have "?va + word_of_nat (k - j) * 4096 = HEAP_BASE + word_of_nat (k * 4096)"
      using False by (simp add: ml of_nat_diff algebra_simps)
    ultimately show ?thesis by simp
  qed
  ultimately show ?thesis using inv' M m(3) by (auto simp: heap_backed_def)
qed

lemma kmalloc_loop_backed:
  assumes b: "heap_backed st" and n: "16 \<le> unat n" "unat n mod 16 = 0" "unat n \<le> 2 ^ 28"
    and k: "kmalloc_loop n st = Some (p, st')" "p \<noteq> 0"
  shows "heap_backed st'"
proof -
  have hit: "heap_backed t'" if t: "heap_backed t" "first_fit (kh_hdr t) n (kh_first t) = Some c" "c \<noteq> 0"
    "kmalloc_loop n t = Some (p, t')" for t t' c
  proof -
    have "t' = use_block c n t" using t(2-4) by (subst (asm) kmalloc_loop.simps) simp
    moreover have "heap_inv t'"
      using kmalloc_loop_result [OF _ n] t(1,4) by (fastforce simp: heap_backed_def heap_inv_def alloc_result_def)
    ultimately show ?thesis using t(1) use_block_frame(1) [of t c n] by (auto simp: heap_backed_def same_frame_def)
  qed
  have ret: "\<exists>c. first_fit (kh_hdr t) n (kh_first t) = Some c" if "heap_backed t" for t
    using that first_fit_chain [of "kh_hdr t" 0 0 _ n]
    by (auto simp: heap_backed_def heap_inv_def heap_rep_def)
  obtain c where c: "first_fit (kh_hdr st) n (kh_first st) = Some c" using ret [OF b] by blast
  show ?thesis
  proof (cases "c = 0")
    case False
    then show ?thesis using hit [OF b c _ k(1)] by blast
  next
    case True
    obtain st1 where g: "grow_heap n st = Some (True, st1)" "kmalloc_loop n st1 = Some (p, st')"
      using k c True by (subst (asm) kmalloc_loop.simps) (auto simp: bind_eq_Some_conv split: if_splits)
    have b1: "heap_backed st1" using grow_heap_backed [OF b n(3) g(1)] .
    obtain c1 where c1: "first_fit (kh_hdr st1) n (kh_first st1) = Some c1" using ret [OF b1] by blast
    obtain bs where rep: "heap_rep st bs" using b by (auto simp: heap_backed_def heap_inv_def)
    have rep1: "heap_rep st1 (grow_blocks (unat (heap_growth n)) bs)" using grow_heap_rep [OF rep n(3)] g(1) by auto
    note G = heap_growth_val [OF n(3)] and R1 = heap_repD [OF rep1]
    obtain i where i: "first_index (fits (unat n)) (grow_blocks (unat (heap_growth n)) bs) = Some i"
      using grow_blocks_props(5) [OF G(2) page_multiple_16 [OF G(3)], of "unat n" bs] G(1) by (auto elim: first_index_ex)
    have "c1 = ad (span (take i (grow_blocks (unat (heap_growth n)) bs)))"
      using first_fit_chain [OF R1(2), of n] R1(1,4) i c1 by simp
    moreover have le: "span (take i xs) \<le> span xs" for xs :: "block list"
      by (metis append_take_drop_id le_add1 span_simps(3))
    ultimately have "c1 \<noteq> 0" using ad_nonzero [OF order_trans [OF le R1(4)]] by simp
    then show ?thesis using hit [OF b1 c1 _ g(2)] by blast
  qed
qed

section \<open>Properties\<close>

text \<open>A heap of one page with a block in use, and the page it lives on.\<close>

definition demo_heap_mm :: mm_state where
  "demo_heap_mm = snd (vmm_space_map_page Kernel_Space HEAP_BASE 0x30000000 (VMM_WRITABLE OR VMM_NO_EXECUTE) demo_mm)"

definition demo_heap :: kheap where
  "demo_heap = \<lparr>kh_mm = demo_heap_mm, kh_first = HEAP_BASE, kh_mapped = 4096, kh_active = 1,
     kh_hdr = (\<lambda>_. header 0 False 0 0)(ad 0 := header 64 True 0 (ad 96), ad 96 := header 3968 False (ad 0) 0)\<rparr>"

lemma demo_heap_rep: "heap_rep demo_heap [(64, True), (3968, False)]"
  by (simp add: heap_rep_def demo_heap_def ad_inj) (simp add: ad_def)

lemma demo_heap_inv: "heap_inv demo_heap"
  using demo_heap_rep by (auto simp: heap_inv_def)

lemma demo_heap_live: "live_payloads demo_heap = {(0xFFFFD00000000020, 64)}"
  by (simp add: live_payloads_rep [OF demo_heap_rep] ad_def HEAP_BASE_def)

lemma demo_heap_backed: "heap_backed demo_heap"
proof -
  let ?f = "VMM_WRITABLE OR VMM_NO_EXECUTE"
  have r: "space_pml4 demo_mm Kernel_Space = 0x10000000" by (simp add: space_pml4_def demo_mm_def)
  have "3 \<le> card (free_set (mm_pmm demo_mm))" by (simp add: demo_mm_def demo_big_free)
  moreover have "\<not> map_rejected Kernel_Space HEAP_BASE 0x30000000 ?f"
    by (simp add: map_rejected_def address_is_canonical_def PMM_INVALID_ADDRESS_def entry_bits HEAP_BASE_def VMM_NO_EXECUTE_def)
  ultimately have "fst (vmm_space_map_page Kernel_Space HEAP_BASE 0x30000000 ?f demo_mm)"
    using map_page_locked_succeeds [of demo_mm Kernel_Space HEAP_BASE "0x30000000" ?f] demo_mm_inv
    by (simp add: vmm_space_map_page_def r)
  then have m: "map_page_locked Kernel_Space HEAP_BASE 0x30000000 ?f demo_mm = (True, demo_heap_mm)"
    by (simp add: demo_heap_mm_def vmm_space_map_page_def prod_eq_iff)
  have i: "space_inv demo_mm (space_pml4 demo_mm Kernel_Space)" "is_frame 0x30000000"
    using demo_mm_inv by (simp_all add: r is_frame_iff)
  have M: "space_inv demo_heap_mm 0x10000000" "same_regs demo_mm demo_heap_mm"
    "view demo_heap_mm 0x10000000 = (view demo_mm 0x10000000)(indices HEAP_BASE := Some (leaf_entry 0x30000000 ?f, 0))"
    by (rule map_page_locked_True [OF i m, unfolded r]; assumption)+
  have "mm_kernel_pml4 demo_heap_mm = 0x10000000" using M(2) by (simp add: same_regs_def demo_mm_def)
  then show ?thesis
    using M i(2) demo_heap_inv by (auto simp: heap_backed_def demo_heap_def page_backed_def)
qed

text \<open>C16. The allocator always returns: a result other than NULL is a payload of at least the requested
  size, 16-byte aligned, inside the mapped heap and apart from every other payload in use, which
  all stay in use; NULL leaves the payloads in use as they were.\<close>

theorem kmalloc_correct:
  assumes "heap_inv st"
  shows "\<exists>p st'. kmalloc n st = Some (p, st') \<and> heap_inv st' \<and>
    (if p = 0 then live_payloads st' = live_payloads st
     else \<exists>m. unat n \<le> m \<and> live_payloads st' = insert (p, m) (live_payloads st) \<and> (p, m) \<notin> live_payloads st \<and>
       unat p mod 16 = 0 \<and> unat HEAP_BASE + 32 \<le> unat p \<and> unat p + m \<le> unat HEAP_BASE + unat (kh_mapped st') \<and>
       (\<forall>(q, k) \<in> live_payloads st. unat p + m \<le> unat q \<or> unat q + k \<le> unat p))"
proof -
  obtain p st' where k: "kmalloc n st = Some (p, st')" "alloc_result (unat n) p st st'"
    using kmalloc_result [OF assms, of n] by blast
  then have inv: "heap_inv st'" by (simp add: alloc_result_def)
  show ?thesis
  proof (cases "p = 0")
    case False
    obtain m where m: "unat n \<le> m" "live_payloads st' = insert (p, m) (live_payloads st)" "(p, m) \<notin> live_payloads st"
      using k(2) False by (auto simp: alloc_result_def)
    have "unat p + m \<le> unat q \<or> unat q + k \<le> unat p" if "(q, k) \<in> live_payloads st" for q k
      using live_payloads_disjoint [OF inv, of p m q k] m that by auto
    then show ?thesis using k(1) inv m False live_payloads_range [OF inv, of p m] by auto
  qed (use k inv in \<open>auto simp: alloc_result_def\<close>)
qed

theorem kmalloc_correct_witness:
  "\<exists>p st'. kmalloc 100 demo_heap = Some (p, st') \<and> heap_inv st' \<and>
    (if p = 0 then live_payloads st' = {(0xFFFFD00000000020, 64)} else card (live_payloads st') = 2)"
  using kmalloc_correct [OF demo_heap_inv, of 100] demo_heap_live by (fastforce split: if_splits)

text \<open>C17. Releasing a pointer in use succeeds and removes exactly its payload; any other pointer (NULL,
  one already released, one into the middle of a payload, one outside the heap) is refused and
  nothing changes.\<close>

theorem kfree_correct:
  assumes "heap_inv st"
  shows "if \<exists>m. (p, m) \<in> live_payloads st
    then \<exists>st' m. kfree p st = Some (True, st') \<and> heap_inv st' \<and> (p, m) \<in> live_payloads st \<and>
      live_payloads st' = live_payloads st - {(p, m)}
    else kfree p st = Some (False, st)"
  using kernel_heap.free_live [OF assms] kernel_heap.free_dead [OF assms] by (auto split: if_splits) blast

theorem kfree_correct_witness:
  "kfree 0xFFFFD00000000030 demo_heap = Some (False, demo_heap) \<and>
   (\<exists>st'. kfree 0xFFFFD00000000020 demo_heap = Some (True, st') \<and> live_payloads st' = {})"
  using kfree_correct [OF demo_heap_inv, of "0xFFFFD00000000030"] kfree_correct [OF demo_heap_inv, of "0xFFFFD00000000020"]
  by (auto simp: demo_heap_live)

text \<open>C18. Whatever sequence of allocations and releases its clients make, with whatever arguments,
  every call of the kernel heap returns and the heap's invariant holds at the end.\<close>

theorem kernel_heap_run:
  assumes "heap_inv st"
  shows "\<exists>st'. fold (\<lambda>op so. case so of None \<Rightarrow> None | Some s \<Rightarrow>
     (case op of Heap_Alloc n \<Rightarrow> map_option snd (kmalloc n s) | Heap_Free p \<Rightarrow> map_option snd (kfree p s)))
     ops (Some st) = Some st' \<and> heap_inv st'"
  using kernel_heap.run_returns [OF assms, of ops] by (simp add: kernel_heap.heap_run_def)

theorem kernel_heap_run_witness:
  "\<exists>st'. fold (\<lambda>op so. case so of None \<Rightarrow> None | Some s \<Rightarrow>
     (case op of Heap_Alloc n \<Rightarrow> map_option snd (kmalloc n s) | Heap_Free p \<Rightarrow> map_option snd (kfree p s)))
     [Heap_Alloc 100, Heap_Free 0xFFFFD00000000020, Heap_Free 0xFFFFD00000000020] (Some demo_heap) = Some st' \<and> heap_inv st'"
  by (rule kernel_heap_run [OF demo_heap_inv])

text \<open>C19. The statistics are exact for the list of blocks that the headers in memory form (each block is its
  payload size and whether it is in use): the mapped size is what the blocks with their 32-byte headers
  occupy, the used and free bytes are the sums of the payloads in use and of the free ones, and the number of
  active allocations is the number of payloads in use. The payloads in use are those handed out and not freed.\<close>

theorem kmalloc_get_stats_correct:
  assumes "heap_rep st bs"
  shows "\<exists>r. kmalloc_get_stats st = Some r \<and>
    unat (used_bytes r) = sum_list (map fst (filter snd bs)) \<and>
    unat (free_bytes r) = sum_list (map fst (filter (\<lambda>b. \<not> snd b) bs)) \<and>
    unat (mapped_bytes r) = unat (used_bytes r) + unat (free_bytes r) + 32 * length bs \<and>
    unat (used_bytes r) = (\<Sum>(p, s) \<in> live_payloads st. s) \<and> unat (active_allocations r) = card (live_payloads st)"
proof -
  note R = heap_repD [OF assms]
  let ?f = "\<lambda>(p, s). (ad p, s :: nat)"
  have inj: "inj_on ?f (live_blocks 0 bs)" by (rule live_inj [OF assms])
  have "card (live_payloads st) = length (filter snd bs)"
    unfolding live_payloads_rep [OF assms] using card_image [OF inj] by (simp add: card_live_blocks)
  moreover have "(\<Sum>(p, s) \<in> live_payloads st. s) = sum_list (map fst (filter snd bs))"
    unfolding live_payloads_rep [OF assms] sum_live [of 0, symmetric]
    by (subst sum.reindex [OF inj]) (auto intro!: sum.cong)
  moreover obtain r where "kmalloc_get_stats st = Some r" "mapped_bytes r = kh_mapped st"
    "unat (used_bytes r) = sum_list (map fst (filter snd bs))"
    "unat (free_bytes r) = sum_list (map fst (filter (\<lambda>b. \<not> snd b) bs))" "active_allocations r = kh_active st"
    by (rule stats_rep [OF assms])
  ultimately show ?thesis using R(3,8) span_sums [of bs] by (intro exI [of _ r]) simp
qed

theorem kmalloc_get_stats_correct_witness:
  "\<exists>r. kmalloc_get_stats demo_heap = Some r \<and> unat (used_bytes r) = 64 \<and> unat (free_bytes r) = 3968 \<and>
     unat (mapped_bytes r) = 4096 \<and> unat (active_allocations r) = 1"
  using kmalloc_get_stats_correct [OF demo_heap_rep] by (auto simp: demo_heap_live)

text \<open>C20. The memory handed out exists: when an allocation succeeds, every page of the heap is mapped in
  the kernel's address space to a page frame, writable and not executable, also the pages a growth
  of the heap has just added.\<close>

theorem kmalloc_pages_mapped:
  assumes "heap_backed st" "kmalloc n st = Some (p, st')" "p \<noteq> 0"
  shows "heap_backed st'"
proof -
  have nz: "n \<noteq> 0" "n \<le> HEAP_MAX_SIZE - 32" "kmalloc_loop (align_up n 16) st = Some (p, st')"
    using assms(2,3) by (auto simp: kmalloc_def split: if_splits)
  then show ?thesis using kmalloc_loop_backed [OF assms(1) _ _ _ nz(3) assms(3)] kmalloc_size [of n] by auto
qed

theorem kmalloc_pages_mapped_witness: "heap_backed (snd (the (kmalloc 100 demo_heap)))"
proof -
  have "first_index (fits (unat (0x70 :: u64))) [(64, True), (3968, False)] = Some 1" by (simp add: fits_def)
  from kmalloc_loop_hit [OF demo_heap_rep this] obtain st' where
    "kmalloc_loop 0x70 demo_heap = Some (ad 128, st')" by auto
  then have "kmalloc 100 demo_heap = Some (ad 128, st')" by (simp add: kmalloc_def HEAP_MAX_SIZE_def align_up_def)
  then show ?thesis using kmalloc_pages_mapped [OF demo_heap_backed, of 100 "ad 128" st'] ad_nonzero [of 128] by simp
qed

end
