(* ===== verification/Byte_Memory.thy ===== *)
theory Byte_Memory
  imports ConeOS_Prelude
begin

text \<open>
  Byte-addressed memory and the C library routines the kernel brings along: \<^verbatim>\<open>lib/memory.c\<close>
  (\<open>memset\<close>, \<open>memcpy\<close>, \<open>memmove\<close>, \<open>memcmp\<close>), written as the loops they are, and C strings. A C
  string is a list of characters without its terminating NUL; reading one past the end reads the NUL.
\<close>

type_synonym memory = "u64 \<Rightarrow> u8"

section \<open>lib/memory.c\<close>

primrec memset_loop :: "nat \<Rightarrow> u64 \<Rightarrow> u8 \<Rightarrow> memory \<Rightarrow> memory" where
  "memset_loop 0 bytes value m = m"
| "memset_loop (Suc count) bytes value m = memset_loop count (bytes + 1) value (m(bytes := value))"

definition memset :: "u64 \<Rightarrow> u32 \<Rightarrow> u64 \<Rightarrow> memory \<Rightarrow> u64 \<times> memory" where
  "memset dest value count m = (dest, memset_loop (unat count) dest (ucast value) m)"

primrec copy_forward :: "nat \<Rightarrow> u64 \<Rightarrow> u64 \<Rightarrow> memory \<Rightarrow> memory" where
  "copy_forward 0 d s m = m"
| "copy_forward (Suc count) d s m = copy_forward count (d + 1) (s + 1) (m(d := m s))"

primrec copy_backward :: "nat \<Rightarrow> u64 \<Rightarrow> u64 \<Rightarrow> memory \<Rightarrow> memory" where
  "copy_backward 0 d s m = m"
| "copy_backward (Suc count) d s m = copy_backward count (d - 1) (s - 1) (m(d - 1 := m (s - 1)))"

definition memcpy :: "u64 \<Rightarrow> u64 \<Rightarrow> u64 \<Rightarrow> memory \<Rightarrow> u64 \<times> memory" where
  "memcpy dest src count m = (dest, copy_forward (unat count) dest src m)"

definition memmove :: "u64 \<Rightarrow> u64 \<Rightarrow> u64 \<Rightarrow> memory \<Rightarrow> u64 \<times> memory" where
  "memmove dest src count m =
     (if dest = src then (dest, m)
      else if dest < src then (dest, copy_forward (unat count) dest src m)
      else (dest, copy_backward (unat count) (dest + count) (src + count) m))"

primrec memcmp_loop :: "nat \<Rightarrow> u64 \<Rightarrow> u64 \<Rightarrow> memory \<Rightarrow> int" where
  "memcmp_loop 0 l r m = 0"
| "memcmp_loop (Suc count) l r m =
     (if m l \<noteq> m r then uint (m l) - uint (m r) else memcmp_loop count (l + 1) (r + 1) m)"

definition memcmp :: "u64 \<Rightarrow> u64 \<Rightarrow> u64 \<Rightarrow> memory \<Rightarrow> int" where
  "memcmp lhs rhs count m = memcmp_loop (unat count) lhs rhs m"

section \<open>Ranges of memory\<close>

definition in_range :: "u64 \<Rightarrow> u64 \<Rightarrow> nat \<Rightarrow> bool" where
  "in_range a p n \<longleftrightarrow> unat p \<le> unat a \<and> unat a < unat p + n"

definition no_wrap :: "u64 \<Rightarrow> nat \<Rightarrow> bool" where
  "no_wrap p n \<longleftrightarrow> unat p + n \<le> 2 ^ 64"

definition apart :: "u64 \<Rightarrow> nat \<Rightarrow> u64 \<Rightarrow> nat \<Rightarrow> bool" where
  "apart p n q k \<longleftrightarrow> unat p + n \<le> unat q \<or> unat q + k \<le> unat p"

text \<open>The copy that reads all of its source before it writes.\<close>

definition moved :: "nat \<Rightarrow> u64 \<Rightarrow> u64 \<Rightarrow> memory \<Rightarrow> memory" where
  "moved n d s m = (\<lambda>a. if in_range a d n then m (s + (a - d)) else m a)"

lemma unat_succ: "no_wrap p (Suc (Suc n)) \<Longrightarrow> unat (p + 1) = Suc (unat p)"
  by (simp add: no_wrap_def unat_u64_add)

lemma in_range_offset:
  assumes "in_range a d n" "no_wrap s n"
  shows "unat (s + (a - d)) = unat s + (unat a - unat d)"
proof -
  have "unat (a - d) = unat a - unat d" using assms(1) by (simp add: in_range_def unat_u64_sub)
  then show ?thesis using assms by (subst unat_u64_add) (auto simp: in_range_def no_wrap_def)
qed

lemma in_range_one [simp]: "in_range a p (Suc 0) \<longleftrightarrow> a = p"
  by (auto simp: in_range_def word_unat_eq_iff)

lemma copy_forward_moved:
  assumes "no_wrap d n" "no_wrap s n" "unat d < unat s \<or> unat s + n \<le> unat d"
  shows "copy_forward n d s m = moved n d s m"
  using assms
proof (induction n arbitrary: d s m)
  case (Suc n)
  show ?case
  proof (cases n)
    case 0
    then show ?thesis by (auto simp: moved_def)
  next
    case (Suc k)
    have u: "unat (d + 1) = Suc (unat d)" "unat (s + 1) = Suc (unat s)"
      using Suc Suc.prems unat_succ [of _ k] by (auto simp: no_wrap_def)
    have nw: "no_wrap (d + 1) n" "no_wrap (s + 1) n" "unat (d + 1) < unat (s + 1) \<or> unat (s + 1) + n \<le> unat (d + 1)"
      using Suc.prems u by (auto simp: no_wrap_def)
    have "moved n (d + 1) (s + 1) (m(d := m s)) a = moved (Suc n) d s m a" for a
    proof (cases "in_range a (d + 1) n")
      case True
      then have r: "in_range a d (Suc n)" by (simp add: in_range_def u)
      have "unat (s + (a - d)) = unat s + (unat a - unat d)" by (rule in_range_offset [OF r Suc.prems(2)])
      then have "unat (s + (a - d)) \<noteq> unat d" using True Suc.prems(3) unfolding in_range_def u by linarith
      then have "s + (a - d) \<noteq> d" by metis
      moreover have "s + 1 + (a - (d + 1)) = s + (a - d)" by simp
      ultimately show ?thesis using True r by (simp add: moved_def)
    next
      case False
      then have "in_range a d (Suc n) \<longleftrightarrow> a = d" by (auto simp: in_range_def u word_unat_eq_iff)
      then show ?thesis using False by (simp add: moved_def)
    qed
    then show ?thesis using Suc.IH [OF nw] by (simp add: fun_eq_iff)
  qed
qed (auto simp: moved_def in_range_def fun_eq_iff)

lemma copy_backward_moved:
  assumes "no_wrap d n" "no_wrap s n" "unat s < unat d"
  shows "copy_backward n (d + word_of_nat n) (s + word_of_nat n) m = moved n d s m"
  using assms
proof (induction n arbitrary: m)
  case (Suc n)
  let ?d = "d + word_of_nat n" and ?s = "s + word_of_nat n"
  have e: "d + word_of_nat (Suc n) - 1 = ?d" "s + word_of_nat (Suc n) - 1 = ?s" by simp_all
  have u: "unat ?d = unat d + n" "unat ?s = unat s + n"
    using Suc.prems by (simp_all add: no_wrap_def unat_u64_add unat_u64_of_nat)
  have nw: "no_wrap d n" "no_wrap s n" using Suc.prems by (auto simp: no_wrap_def)
  have "moved n d s (m(?d := m ?s)) a = moved (Suc n) d s m a" for a
  proof (cases "in_range a d n")
    case True
    then have "unat (s + (a - d)) < unat ?d" using in_range_offset [OF True nw(2)] Suc.prems(3) True unfolding u in_range_def by linarith
    then have "s + (a - d) \<noteq> ?d" by (metis less_irrefl)
    then show ?thesis using True by (simp add: moved_def in_range_def)
  next
    case False
    then have "in_range a d (Suc n) \<longleftrightarrow> a = ?d" by (auto simp: in_range_def u word_unat_eq_iff)
    then show ?thesis using False by (auto simp: moved_def)
  qed
  then show ?case using Suc.IH [OF nw Suc.prems(3)] e by (simp add: fun_eq_iff)
qed (auto simp: moved_def in_range_def fun_eq_iff)

lemma memset_loop_val:
  assumes "no_wrap p n"
  shows "memset_loop n p v m a = (if in_range a p n then v else m a)"
  using assms
proof (induction n arbitrary: p m)
  case (Suc n)
  show ?case
  proof (cases n)
    case 0
    then show ?thesis by simp
  next
    case (Suc k)
    have u: "unat (p + 1) = Suc (unat p)" using Suc.prems Suc unat_succ [of p k] by (simp add: no_wrap_def)
    then have "no_wrap (p + 1) n" using Suc.prems by (simp add: no_wrap_def)
    then show ?thesis using Suc.IH [of "p + 1"] u by (auto simp: in_range_def word_unat_eq_iff)
  qed
qed (auto simp: in_range_def)

section \<open>Bytes of a buffer\<close>

text \<open>\<open>load_bytes\<close> and \<open>store_bytes\<close> are the element-wise loops over a buffer.\<close>

primrec store_bytes :: "u64 \<Rightarrow> u8 list \<Rightarrow> memory \<Rightarrow> memory" where
  "store_bytes p [] m = m"
| "store_bytes p (b # bs) m = store_bytes (p + 1) bs (m(p := b))"

definition load_bytes :: "u64 \<Rightarrow> nat \<Rightarrow> memory \<Rightarrow> u8 list" where
  "load_bytes p n m = map (\<lambda>i. m (p + word_of_nat i)) [0 ..< n]"

lemma length_load_bytes [simp]: "length (load_bytes p n m) = n"
  by (simp add: load_bytes_def)

lemma store_bytes_other: "no_wrap p (length bs) \<Longrightarrow> \<not> in_range a p (length bs) \<Longrightarrow> store_bytes p bs m a = m a"
proof (induction bs arbitrary: p m)
  case (Cons b bs)
  have "a \<noteq> p" using Cons.prems(2) by (auto simp: in_range_def)
  moreover have "store_bytes (p + 1) bs (m(p := b)) a = (m(p := b)) a"
  proof (cases bs)
    case (Cons c cs)
    have u: "unat (p + 1) = Suc (unat p)" using Cons.prems(1) Cons unat_succ [of p "length cs"] by simp
    show ?thesis using Cons.prems u by (intro Cons.IH) (auto simp: no_wrap_def in_range_def)
  qed simp
  ultimately show ?case by simp
qed simp

lemma store_bytes_at:
  "no_wrap p (length bs) \<Longrightarrow> i < length bs \<Longrightarrow> store_bytes p bs m (p + word_of_nat i) = bs ! i"
proof (induction bs arbitrary: p m i)
  case (Cons b bs)
  show ?case
  proof (cases bs)
    case Nil
    then show ?thesis using Cons.prems by simp
  next
    case (Cons c cs)
    have u: "unat (p + 1) = Suc (unat p)" using Cons.prems(1) Cons unat_succ [of p "length cs"] by simp
    have nw: "no_wrap (p + 1) (length bs)" using Cons.prems(1) u by (simp add: no_wrap_def)
    show ?thesis
    proof (cases i)
      case 0
      have "store_bytes (p + 1) bs (m(p := b)) p = (m(p := b)) p"
        by (rule store_bytes_other [OF nw]) (simp add: in_range_def u)
      then show ?thesis using 0 by simp
    next
      case (Suc j)
      have "p + word_of_nat i = p + 1 + word_of_nat j" by (simp add: Suc)
      then show ?thesis using Cons.IH [OF nw, of j "m(p := b)"] Cons.prems(2) by (simp only: Suc store_bytes.simps nth_Cons_Suc length_Cons Suc_less_eq)
    qed
  qed
qed simp

lemma load_store: "no_wrap p (length bs) \<Longrightarrow> n \<le> length bs \<Longrightarrow> load_bytes p n (store_bytes p bs m) = take n bs"
  by (rule nth_equalityI) (simp_all add: load_bytes_def store_bytes_at)

lemma load_store_apart:
  assumes "no_wrap p (length bs)" "no_wrap q n" "apart p (length bs) q n"
  shows "load_bytes q n (store_bytes p bs m) = load_bytes q n m"
proof (rule nth_equalityI)
  fix i assume "i < length (load_bytes q n (store_bytes p bs m))"
  then have i: "i < n" by simp
  have "unat (q + word_of_nat i) = unat q + i"
    using i assms(2) by (simp add: no_wrap_def unat_u64_add unat_u64_of_nat)
  then have "\<not> in_range (q + word_of_nat i) p (length bs)" using assms(3) i by (auto simp: in_range_def apart_def)
  then show "load_bytes q n (store_bytes p bs m) ! i = load_bytes q n m ! i"
    using i store_bytes_other [OF assms(1)] by (simp add: load_bytes_def)
qed simp

section \<open>C strings\<close>

text \<open>The comparison loop that \<^verbatim>\<open>ramfs.c\<close> and \<^verbatim>\<open>vfs.c\<close> have under two names.\<close>

fun name_equal :: "string \<Rightarrow> string \<Rightarrow> bool" where
  "name_equal (l # left) (r # right) = (if l = r then name_equal left right else False)"
| "name_equal [] [] = True"
| "name_equal _ _ = False"

lemma name_equal_iff [simp]: "name_equal a b \<longleftrightarrow> a = b"
  by (induction a b rule: name_equal.induct) auto

text \<open>The loop that copies a string into an array of \<open>n\<close> characters and terminates it.\<close>

definition copy_string :: "nat \<Rightarrow> string \<Rightarrow> string" where
  "copy_string n name = take (n - 1) name"

lemma copy_string_id: "length name < n \<Longrightarrow> copy_string n name = name"
  by (simp add: copy_string_def)

section \<open>Properties\<close>

text \<open>C21. memmove copies as if the source were read completely before the destination is written, also
  when the two areas overlap, and changes no other byte.\<close>

theorem memmove_correct:
  assumes "no_wrap dest (unat count)" "no_wrap src (unat count)"
  shows "memmove dest src count m = (dest, moved (unat count) dest src m)"
proof -
  consider "dest = src" | "dest < src" | "src < dest" by fastforce
  then show ?thesis
  proof cases
    case 1
    then have "moved (unat count) dest src m = m" by (simp add: moved_def fun_eq_iff)
    then show ?thesis using 1 by (simp add: memmove_def)
  next
    case 2
    then have "dest \<noteq> src" by auto
    then show ?thesis using 2 copy_forward_moved [OF assms] by (simp add: memmove_def word_less_nat_alt)
  next
    case 3
    then have "dest \<noteq> src" "\<not> dest < src" by auto
    then show ?thesis using 3 copy_backward_moved [OF assms] by (simp add: memmove_def word_less_nat_alt)
  qed
qed

theorem memmove_correct_witness:
  "map (snd (memmove 0x1001 0x1000 3 (\<lambda>a. ucast a))) [0x1000, 0x1001, 0x1002, 0x1003, 0x1004] = [0, 0, 1, 2, 4]"
proof -
  have "memmove 0x1001 0x1000 3 (\<lambda>a. ucast a) = (0x1001, moved 3 0x1001 0x1000 (\<lambda>a. ucast a))"
    using memmove_correct [of "0x1001" 3 "0x1000" "\<lambda>a. ucast a"] by (simp add: no_wrap_def)
  then show ?thesis by (simp add: moved_def in_range_def)
qed

end
