(* ===== verification/Ramfs.thy ===== *)
theory Ramfs
  imports Kmalloc Byte_Memory
begin

text \<open>
  The RAM file system, \<^verbatim>\<open>src/fs/ramfs.c\<close>: a table of 64 files whose contents live in buffers of the
  kernel heap, and a list of directories. Names are C strings in arrays of 256 characters. Output
  parameters are results, and pointers passed between kernel components are not NULL, so the checks
  for NULL at the entry of the functions have no counterpart. \<open>rf_memory\<close> is the memory the payloads
  of the kernel heap are in; the heap's own headers are \<open>rf_heap\<close>.
\<close>

section \<open>State\<close>

definition FS_PATH_MAX :: nat where "FS_PATH_MAX = 256"
definition FS_DIRENT_NAME_MAX :: nat where "FS_DIRENT_NAME_MAX = 768"
definition RAMFS_MAX_FILES :: nat where "RAMFS_MAX_FILES = 64"
definition RAMFS_MAX_DIRECTORIES :: nat where "RAMFS_MAX_DIRECTORIES = 16"
definition RAMFS_NAME_SIZE :: nat where "RAMFS_NAME_SIZE = FS_PATH_MAX"
definition RAMFS_DATA_SIZE :: nat where "RAMFS_DATA_SIZE = 32768"

datatype fs_dirent_type = FS_DIRENT_FILE | FS_DIRENT_DIRECTORY

record fs_dirent =
  de_name :: string
  de_size :: nat
  de_type :: fs_dirent_type

record ramfs_file =
  rf_used :: bool
  rf_name :: string
  rf_data :: u64
  rf_size :: nat

record ramfs =
  rf_files :: "ramfs_file list"
  rf_directories :: "string list"
  rf_heap :: kheap
  rf_memory :: memory

section \<open>Operations\<close>

definition find_file :: "string \<Rightarrow> ramfs \<Rightarrow> nat option" where
  "find_file name st = first_index (\<lambda>f. rf_used f \<and> name_equal (rf_name f) name) (rf_files st)"

definition ramfs_list :: "nat \<Rightarrow> ramfs \<Rightarrow> (string \<times> nat) list \<times> nat" where
  "ramfs_list capacity st =
     (let used = filter rf_used (rf_files st)
      in (map (\<lambda>f. (rf_name f, rf_size f)) (take capacity used), length used))"

definition ramfs_read :: "string \<Rightarrow> nat \<Rightarrow> ramfs \<Rightarrow> u8 list option" where
  "ramfs_read name capacity st =
     (case find_file name st of
        None \<Rightarrow> None
      | Some i \<Rightarrow>
          let file = rf_files st ! i;
              count = (if rf_size file < capacity then rf_size file else capacity)
          in Some (load_bytes (rf_data file) count (rf_memory st)))"

text \<open>The slot a write goes to: the file of that name, else a free slot that gets a fresh buffer.\<close>

definition ramfs_slot :: "string \<Rightarrow> ramfs \<Rightarrow> (nat option \<times> ramfs) option" where
  "ramfs_slot name st =
     (case find_file name st of
        Some i \<Rightarrow> Some (Some i, st)
      | None \<Rightarrow>
          (case first_index (\<lambda>f. \<not> rf_used f) (rf_files st) of
             None \<Rightarrow> Some (None, st)
           | Some i \<Rightarrow> do {
               (p, heap) \<leftarrow> kmalloc (word_of_nat RAMFS_DATA_SIZE) (rf_heap st);
               let file = (rf_files st ! i)\<lparr>rf_used := True, rf_name := copy_string RAMFS_NAME_SIZE name, rf_data := p\<rparr>;
               Some (Some i, st\<lparr>rf_files := (rf_files st)[i := file], rf_heap := heap\<rparr>)
             }))"

definition ramfs_write :: "string \<Rightarrow> u8 list \<Rightarrow> ramfs \<Rightarrow> (bool \<times> ramfs) option" where
  "ramfs_write name data st =
     (if RAMFS_DATA_SIZE < length data then Some (False, st)
      else do {
        (slot, st1) \<leftarrow> ramfs_slot name st;
        Some (case slot of
          None \<Rightarrow> (False, st1)
        | Some i \<Rightarrow>
            let file = rf_files st1 ! i in
            if rf_data file = 0 then (False, st1)
            else (True, st1\<lparr>rf_memory := store_bytes (rf_data file) data (rf_memory st1),
                            rf_files := (rf_files st1)[i := file\<lparr>rf_size := length data\<rparr>]\<rparr>))
      })"

definition ramfs_stat :: "string \<Rightarrow> ramfs \<Rightarrow> nat option" where
  "ramfs_stat name st = map_option (\<lambda>i. rf_size (rf_files st ! i)) (find_file name st)"

definition ramfs_is_directory :: "string \<Rightarrow> ramfs \<Rightarrow> bool" where
  "ramfs_is_directory pathname st = list_ex (\<lambda>d. name_equal d pathname) (rf_directories st)"

definition ramfs_mkdir :: "string \<Rightarrow> ramfs \<Rightarrow> bool \<times> ramfs" where
  "ramfs_mkdir pathname st =
     (if pathname = [] \<or> RAMFS_MAX_DIRECTORIES \<le> length (rf_directories st) then (False, st)
      else if ramfs_is_directory pathname st then (False, st)
      else if RAMFS_NAME_SIZE \<le> length pathname then (False, st)
      else (True, st\<lparr>rf_directories := rf_directories st @ [pathname]\<rparr>))"

definition ramfs_unlink :: "string \<Rightarrow> ramfs \<Rightarrow> (bool \<times> ramfs) option" where
  "ramfs_unlink pathname st =
     (case find_file pathname st of
        None \<Rightarrow> Some (False, st)
      | Some i \<Rightarrow> do {
          let file = rf_files st ! i;
          heap \<leftarrow> (if rf_data file \<noteq> 0 then map_option snd (kfree (rf_data file) (rf_heap st)) else Some (rf_heap st));
          Some (True, st\<lparr>rf_heap := heap,
            rf_files := (rf_files st)[i := file\<lparr>rf_used := False, rf_data := 0, rf_size := 0\<rparr>]\<rparr>)
        })"

text \<open>The loops that match a prefix: what is left of the name after it.\<close>

fun strip_prefix :: "string \<Rightarrow> string \<Rightarrow> string option" where
  "strip_prefix [] pathname = Some pathname"
| "strip_prefix (d # directory) (c # pathname) = (if c = d then strip_prefix directory pathname else None)"
| "strip_prefix (d # directory) [] = None"

definition ramfs_rmdir :: "string \<Rightarrow> ramfs \<Rightarrow> bool \<times> ramfs" where
  "ramfs_rmdir pathname st =
     (if name_equal pathname ''/'' \<or> name_equal pathname ''/bin'' then (False, st)
      else
        (case first_index (\<lambda>d. name_equal d pathname) (rf_directories st) of
           None \<Rightarrow> (False, st)
         | Some index \<Rightarrow>
             if pathname = [] \<or> RAMFS_NAME_SIZE - 1 \<le> length pathname then (False, st)
             else
               let prefix = (if last pathname \<noteq> CHR ''/'' then pathname @ ''/'' else pathname) in
               if list_ex (\<lambda>f. rf_used f \<and> strip_prefix prefix (rf_name f) \<noteq> None) (rf_files st)
               then (False, st)
               else if list_ex (\<lambda>i. i \<noteq> index \<and> strip_prefix prefix (rf_directories st ! i) \<noteq> None)
                         [0 ..< length (rf_directories st)]
               then (False, st)
               else (True, st\<lparr>rf_directories := take index (rf_directories st) @ drop (Suc index) (rf_directories st)\<rparr>)))"

definition ramfs_list_directories :: "nat \<Rightarrow> ramfs \<Rightarrow> string list \<times> nat" where
  "ramfs_list_directories capacity st = (take capacity (rf_directories st), length (rf_directories st))"

definition ramfs_direct_child :: "string \<Rightarrow> string \<Rightarrow> string option" where
  "ramfs_direct_child directory pathname =
     (case (if directory = ''/'' then strip_prefix ''/'' pathname
            else (case strip_prefix directory pathname of
                    Some (c # rest) \<Rightarrow> if c = CHR ''/'' then Some rest else None
                  | _ \<Rightarrow> None)) of
        Some (c # rest) \<Rightarrow> if CHR ''/'' \<in> set (c # rest) then None else Some (c # rest)
      | _ \<Rightarrow> None)"

definition copy_entry_name :: "string \<Rightarrow> string" where
  "copy_entry_name name = copy_string FS_DIRENT_NAME_MAX name"

text \<open>
  A listing loop with its counter: entries that are not visible are skipped, the result is the
  entry number \<open>index\<close>, or the counter when the loop ends.
\<close>

fun scan_entries :: "nat \<Rightarrow> nat \<Rightarrow> fs_dirent option list \<Rightarrow> nat + fs_dirent" where
  "scan_entries visible index [] = Inl visible"
| "scan_entries visible index (None # es) = scan_entries visible index es"
| "scan_entries visible index (Some e # es) =
     (if visible \<noteq> index then scan_entries (visible + 1) index es else Inr e)"

definition dir_entry :: "string \<Rightarrow> string \<Rightarrow> fs_dirent option" where
  "dir_entry pathname d = map_option (\<lambda>name. \<lparr>de_name = copy_entry_name name, de_size = 0, de_type = FS_DIRENT_DIRECTORY\<rparr>)
     (ramfs_direct_child pathname d)"

definition file_entry :: "string \<Rightarrow> ramfs_file \<Rightarrow> fs_dirent option" where
  "file_entry pathname f = (if \<not> rf_used f then None
     else map_option (\<lambda>name. \<lparr>de_name = copy_entry_name name, de_size = rf_size f, de_type = FS_DIRENT_FILE\<rparr>)
       (ramfs_direct_child pathname (rf_name f)))"

definition ramfs_readdir :: "string \<Rightarrow> nat \<Rightarrow> ramfs \<Rightarrow> int \<times> fs_dirent option" where
  "ramfs_readdir pathname index st =
     (if \<not> ramfs_is_directory pathname st then (-1, None)
      else
        (case scan_entries 0 index (map (dir_entry pathname) (rf_directories st)) of
           Inr e \<Rightarrow> (1, Some e)
         | Inl visible \<Rightarrow>
             (case scan_entries visible index (map (file_entry pathname) (rf_files st)) of
                Inr e \<Rightarrow> (1, Some e)
              | Inl _ \<Rightarrow> (0, None))))"

definition chars :: "string \<Rightarrow> u8 list" where
  "chars s = map of_char s"

definition ramfs_init :: "ramfs \<Rightarrow> (bool \<times> ramfs) option" where
  "ramfs_init st =
     (let st1 = st\<lparr>rf_files := map (\<lambda>f. f\<lparr>rf_used := False, rf_data := 0, rf_size := 0\<rparr>) (rf_files st),
                   rf_directories := []\<rparr>;
          st2 = snd (ramfs_mkdir ''/'' st1);
          st3 = snd (ramfs_mkdir ''/bin'' st2);
          st4 = snd (ramfs_mkdir ''/dev'' st3);
          st5 = snd (ramfs_mkdir ''/disk'' st4)
      in ramfs_write ''/hello.txt'' (chars ''ConeOS ramfs'' @ [10]) st5)"

text \<open>The two adapters of \<^verbatim>\<open>vfs.c\<close> for the file system's operation table.\<close>

definition ramfs_create :: "string \<Rightarrow> ramfs \<Rightarrow> (bool \<times> ramfs) option" where
  "ramfs_create pathname st = ramfs_write pathname [] st"

definition ramfs_sync :: "ramfs \<Rightarrow> bool" where
  "ramfs_sync st = True"

section \<open>What the file system represents\<close>

text \<open>Every file has its own buffer of the kernel heap; no two files have the same name.\<close>

definition file_ok :: "(u64 \<times> nat) set \<Rightarrow> ramfs_file \<Rightarrow> bool" where
  "file_ok live f \<longleftrightarrow> (\<not> rf_used f \<longrightarrow> rf_data f = 0) \<and> (rf_data f = 0 \<longrightarrow> rf_size f = 0) \<and> rf_size f \<le> RAMFS_DATA_SIZE \<and>
     length (rf_name f) < RAMFS_NAME_SIZE \<and> (rf_data f \<noteq> 0 \<longrightarrow> (\<exists>m \<ge> RAMFS_DATA_SIZE. (rf_data f, m) \<in> live))"

definition names_distinct :: "ramfs_file list \<Rightarrow> bool" where
  "names_distinct fs \<longleftrightarrow> (\<forall>i < length fs. \<forall>j < length fs. rf_used (fs ! i) \<longrightarrow> rf_used (fs ! j) \<longrightarrow>
     rf_name (fs ! i) = rf_name (fs ! j) \<longrightarrow> i = j)"

definition buffers_distinct :: "ramfs_file list \<Rightarrow> bool" where
  "buffers_distinct fs \<longleftrightarrow> (\<forall>i < length fs. \<forall>j < length fs. rf_data (fs ! i) \<noteq> 0 \<longrightarrow>
     rf_data (fs ! i) = rf_data (fs ! j) \<longrightarrow> i = j)"

definition ramfs_inv :: "ramfs \<Rightarrow> bool" where
  "ramfs_inv st \<longleftrightarrow> heap_inv (rf_heap st) \<and> length (rf_files st) = RAMFS_MAX_FILES \<and>
     (\<forall>f \<in> set (rf_files st). file_ok (live_payloads (rf_heap st)) f) \<and>
     names_distinct (rf_files st) \<and> buffers_distinct (rf_files st) \<and>
     distinct (rf_directories st) \<and> length (rf_directories st) \<le> RAMFS_MAX_DIRECTORIES"

definition contents :: "memory \<Rightarrow> ramfs_file \<Rightarrow> u8 list" where
  "contents m f = load_bytes (rf_data f) (rf_size f) m"

definition ramfs_view :: "ramfs \<Rightarrow> string \<Rightarrow> u8 list option" where
  "ramfs_view st name = map_option (\<lambda>i. contents (rf_memory st) (rf_files st ! i)) (find_file name st)"

lemma find_file_Some:
  assumes "names_distinct (rf_files st)"
  shows "find_file n st = Some i \<longleftrightarrow> i < length (rf_files st) \<and> rf_used (rf_files st ! i) \<and> rf_name (rf_files st ! i) = n"
    (is "_ = ?R")
proof
  assume "find_file n st = Some i"
  then show ?R using first_index_SomeD by (fastforce simp: find_file_def)
next
  assume R: ?R
  obtain j where "find_file n st = Some j"
    by (rule first_index_ex [of i "rf_files st" "\<lambda>f. rf_used f \<and> name_equal (rf_name f) n"]) (use R in \<open>auto simp: find_file_def\<close>)
  moreover from this have "j = i"
    using R assms first_index_SomeD [OF calculation [unfolded find_file_def]] by (auto simp: names_distinct_def)
  ultimately show "find_file n st = Some i" by simp
qed

lemma ramfs_view_Some:
  assumes "names_distinct (rf_files st)"
  shows "ramfs_view st n = Some c \<longleftrightarrow> (\<exists>i < length (rf_files st). rf_used (rf_files st ! i) \<and> rf_name (rf_files st ! i) = n \<and>
     c = contents (rf_memory st) (rf_files st ! i))"
  using find_file_Some [OF assms] by (auto simp: ramfs_view_def)

lemma map_eqI: "(\<And>n c. m n = Some c \<longleftrightarrow> m' n = Some c) \<Longrightarrow> m = m'"
  by (rule ext) (metis not_None_eq)

lemma view_set:
  assumes d: "names_distinct (rf_files st)" and i: "i < length (rf_files st)"
    and st': "rf_files st' = (rf_files st)[i := f]" "names_distinct (rf_files st')"
    and f: "rf_used f" "rf_used (rf_files st ! i) \<Longrightarrow> rf_name (rf_files st ! i) = rf_name f"
    and same: "\<And>j. j < length (rf_files st) \<Longrightarrow> j \<noteq> i \<Longrightarrow> rf_used (rf_files st ! j) \<Longrightarrow>
      contents (rf_memory st') (rf_files st ! j) = contents (rf_memory st) (rf_files st ! j)"
  shows "ramfs_view st' = (ramfs_view st)(rf_name f \<mapsto> contents (rf_memory st') f)"
proof (rule map_eqI)
  fix n c
  show "ramfs_view st' n = Some c \<longleftrightarrow> ((ramfs_view st)(rf_name f \<mapsto> contents (rf_memory st') f)) n = Some c"
  proof (cases "n = rf_name f")
    case True
    have "ramfs_view st' n = Some (contents (rf_memory st') f)"
      using i f(1) True by (auto simp: ramfs_view_Some [OF st'(2)] st'(1) intro!: exI [of _ i])
    then show ?thesis using True by simp
  next
    case False
    have "(\<exists>j < length (rf_files st'). rf_used (rf_files st' ! j) \<and> rf_name (rf_files st' ! j) = n \<and>
        c = contents (rf_memory st') (rf_files st' ! j)) \<longleftrightarrow>
      (\<exists>j < length (rf_files st). rf_used (rf_files st ! j) \<and> rf_name (rf_files st ! j) = n \<and>
        c = contents (rf_memory st) (rf_files st ! j))"
      using False i f same unfolding st'(1) by (metis length_list_update nth_list_update_eq nth_list_update_neq)
    then show ?thesis using False by (simp add: ramfs_view_Some [OF st'(2)] ramfs_view_Some [OF d])
  qed
qed

lemma view_unset:
  assumes d: "names_distinct (rf_files st)" and i: "i < length (rf_files st)" "rf_used (rf_files st ! i)"
    and st': "rf_files st' = (rf_files st)[i := f]" "\<not> rf_used f" "rf_memory st' = rf_memory st"
  shows "ramfs_view st' = (ramfs_view st)(rf_name (rf_files st ! i) := None)" "names_distinct (rf_files st')"
proof -
  show d': "names_distinct (rf_files st')"
    using d st'(2) unfolding st'(1) names_distinct_def by (metis length_list_update nth_list_update_eq nth_list_update_neq)
  show "ramfs_view st' = (ramfs_view st)(rf_name (rf_files st ! i) := None)"
  proof (rule map_eqI)
    fix n c
    have "(\<exists>j < length (rf_files st'). rf_used (rf_files st' ! j) \<and> rf_name (rf_files st' ! j) = n \<and>
        c = contents (rf_memory st') (rf_files st' ! j)) \<longleftrightarrow> n \<noteq> rf_name (rf_files st ! i) \<and>
      (\<exists>j < length (rf_files st). rf_used (rf_files st ! j) \<and> rf_name (rf_files st ! j) = n \<and>
        c = contents (rf_memory st) (rf_files st ! j))"
      using i d st'(2,3) unfolding st'(1) names_distinct_def
      by (metis length_list_update nth_list_update_eq nth_list_update_neq)
    then show "ramfs_view st' n = Some c \<longleftrightarrow> ((ramfs_view st)(rf_name (rf_files st ! i) := None)) n = Some c"
      by (auto simp: ramfs_view_Some [OF d'] ramfs_view_Some [OF d])
  qed
qed

text \<open>A buffer is inside the heap, buffers of different files do not overlap.\<close>

lemma payload_no_wrap:
  assumes "heap_inv h" "(p, m) \<in> live_payloads h" "n \<le> m"
  shows "no_wrap p n"
proof -
  obtain bs where rep: "heap_rep h bs" using assms(1) by (auto simp: heap_inv_def)
  have "unat p + m \<le> unat HEAP_BASE + 2 ^ 28"
    using live_payloads_range(2) [OF assms(1,2)] heap_repD(3,4) [OF rep] by simp
  then show ?thesis using assms(3) by (simp add: no_wrap_def HEAP_BASE_def)
qed

lemma buffers_apart:
  assumes inv: "heap_inv h" and f: "file_ok (live_payloads h) f" "file_ok (live_payloads h) g"
    and ne: "rf_data f \<noteq> 0" "rf_data f \<noteq> rf_data g" and bs: "length bs \<le> RAMFS_DATA_SIZE"
  shows "contents (store_bytes (rf_data f) bs m) g = contents m g"
proof (cases "rf_data g = 0")
  case True
  then have "rf_size g = 0" using f(2) by (simp add: file_ok_def)
  then show ?thesis by (simp add: contents_def load_bytes_def)
next
  case False
  obtain k l where k: "RAMFS_DATA_SIZE \<le> k" "(rf_data f, k) \<in> live_payloads h" "RAMFS_DATA_SIZE \<le> l" "(rf_data g, l) \<in> live_payloads h"
    using f ne(1) False by (auto simp: file_ok_def)
  have "apart (rf_data f) (length bs) (rf_data g) (rf_size g)"
    using kernel_heap.live_disjoint [OF inv k(2,4)] ne(2) bs k f(2) by (auto simp: apart_def file_ok_def)
  then show ?thesis
    using payload_no_wrap [OF inv k(2)] payload_no_wrap [OF inv k(4)] bs k f(2)
    by (auto simp: contents_def file_ok_def intro!: load_store_apart)
qed

lemma file_ok_mono: "live \<subseteq> live' \<Longrightarrow> file_ok live f \<Longrightarrow> file_ok live' f"
  by (auto simp: file_ok_def)

lemma ramfs_invD:
  assumes "ramfs_inv st"
  shows "heap_inv (rf_heap st)" "length (rf_files st) = RAMFS_MAX_FILES" "names_distinct (rf_files st)"
    "buffers_distinct (rf_files st)" "\<And>i. i < RAMFS_MAX_FILES \<Longrightarrow> file_ok (live_payloads (rf_heap st)) (rf_files st ! i)"
  using assms by (auto simp: ramfs_inv_def)

text \<open>Replacing the entry of one slot keeps the invariant.\<close>

lemma ramfs_inv_set:
  assumes inv: "ramfs_inv st" and i: "i < RAMFS_MAX_FILES" and h: "heap_inv heap" 
    and f: "file_ok (live_payloads heap) f"
    and keep: "\<And>j. j < RAMFS_MAX_FILES \<Longrightarrow> j \<noteq> i \<Longrightarrow> file_ok (live_payloads heap) (rf_files st ! j)"
    and name: "\<And>j. j < RAMFS_MAX_FILES \<Longrightarrow> j \<noteq> i \<Longrightarrow> rf_used f \<Longrightarrow> rf_used (rf_files st ! j) \<Longrightarrow> rf_name (rf_files st ! j) \<noteq> rf_name f"
    and buf: "\<And>j. j < RAMFS_MAX_FILES \<Longrightarrow> j \<noteq> i \<Longrightarrow> rf_data f \<noteq> 0 \<Longrightarrow> rf_data (rf_files st ! j) \<noteq> rf_data f"
  shows "ramfs_inv (st\<lparr>rf_files := (rf_files st)[i := f], rf_heap := heap, rf_memory := mem\<rparr>)"
proof -
  have len: "length (rf_files st) = RAMFS_MAX_FILES" using inv by (simp add: ramfs_inv_def)
  have "\<forall>g \<in> set ((rf_files st)[i := f]). file_ok (live_payloads heap) g"
    using f keep len i by (auto simp: in_set_conv_nth) (metis nth_list_update)
  moreover have "names_distinct ((rf_files st)[i := f])"
    using ramfs_invD(3) [OF inv] name len i unfolding names_distinct_def
    by (metis length_list_update nth_list_update_eq nth_list_update_neq)
  moreover have "buffers_distinct ((rf_files st)[i := f])"
    using ramfs_invD(4) [OF inv] buf len i unfolding buffers_distinct_def
    by (metis length_list_update nth_list_update_eq nth_list_update_neq)
  ultimately show ?thesis using inv h by (simp add: ramfs_inv_def)
qed

lemma fresh_name:
  assumes "ramfs_inv st" "find_file name st = None" "j < RAMFS_MAX_FILES" "rf_used (rf_files st ! j)"
  shows "rf_name (rf_files st ! j) \<noteq> name"
  using assms find_file_Some [OF ramfs_invD(3) [OF assms(1)], of name j] ramfs_invD(2) [OF assms(1)] by auto

lemma fresh_buffer:
  assumes "file_ok live f" "(p, m) \<notin> live" "\<And>k. (p, k) \<in> insert (p, m) live \<Longrightarrow> k = m" "p \<noteq> 0"
  shows "rf_data f \<noteq> p"
  using assms by (auto simp: file_ok_def)

lemma ramfs_slot_result:
  assumes inv: "ramfs_inv st" and n: "length name < RAMFS_NAME_SIZE"
  obtains st' where "ramfs_slot name st = Some (None, st)" "ramfs_view st name = None"
    | i st' where "ramfs_slot name st = Some (Some i, st')" "i < RAMFS_MAX_FILES" "ramfs_inv st'"
      "rf_used (rf_files st' ! i)" "rf_name (rf_files st' ! i) = name" "rf_memory st' = rf_memory st"
      "ramfs_view st' = (if ramfs_view st name = None then (ramfs_view st)(name \<mapsto> []) else ramfs_view st)"
      "rf_data (rf_files st' ! i) = 0 \<Longrightarrow> ramfs_view st name \<in> {None, Some []}"
proof (cases "find_file name st")
  case (Some i)
  have i: "i < RAMFS_MAX_FILES" "rf_used (rf_files st ! i)" "rf_name (rf_files st ! i) = name"
    using Some find_file_Some [OF ramfs_invD(3) [OF inv]] ramfs_invD(2) [OF inv] by auto
  have v: "ramfs_view st name = Some (contents (rf_memory st) (rf_files st ! i))" using Some by (simp add: ramfs_view_def)
  have "rf_data (rf_files st ! i) = 0 \<Longrightarrow> rf_size (rf_files st ! i) = 0"
    using ramfs_invD(5) [OF inv i(1)] by (simp add: file_ok_def)
  then show ?thesis
    using that(2) [of i st] i inv v Some by (simp add: ramfs_slot_def contents_def load_bytes_def)
next
  case None
  have v: "ramfs_view st name = None" using None by (simp add: ramfs_view_def)
  show ?thesis
  proof (cases "first_index (\<lambda>f. \<not> rf_used f) (rf_files st)")
    case none: None
    then show ?thesis using that(1) None v by (simp add: ramfs_slot_def)
  next
    case (Some i)
    have i: "i < RAMFS_MAX_FILES" "\<not> rf_used (rf_files st ! i)"
      using first_index_SomeD [OF Some] ramfs_invD(2) [OF inv] by auto
    let ?h = "rf_heap st"
    obtain p h where k: "kmalloc (word_of_nat RAMFS_DATA_SIZE) ?h = Some (p, h)" and hi: "heap_inv h"
      and pk: "p = 0 \<and> live_payloads h = live_payloads ?h \<or> p \<noteq> 0 \<and> (\<exists>m \<ge> unat (word_of_nat RAMFS_DATA_SIZE :: u64).
        live_payloads h = insert (p, m) (live_payloads ?h) \<and> (p, m) \<notin> live_payloads ?h)"
      using kernel_heap.alloc_returns [OF ramfs_invD(1) [OF inv], of "word_of_nat RAMFS_DATA_SIZE"] by blast
    define f where "f = (rf_files st ! i)\<lparr>rf_used := True, rf_name := name, rf_data := p\<rparr>"
    let ?st = "st\<lparr>rf_files := (rf_files st)[i := f], rf_heap := h\<rparr>"
    have s: "ramfs_slot name st = Some (Some i, ?st)"
      using None Some k copy_string_id [OF n] by (simp add: ramfs_slot_def f_def)
    have old: "rf_size (rf_files st ! i) = 0" using ramfs_invD(5) [OF inv i(1)] i(2) by (simp add: file_ok_def)
    have sub: "live_payloads ?h \<subseteq> live_payloads h" using pk by blast
    have fo: "file_ok (live_payloads h) f"
      using pk old n by (auto simp: file_ok_def f_def RAMFS_DATA_SIZE_def)
    have keep: "file_ok (live_payloads h) (rf_files st ! j)" if "j < RAMFS_MAX_FILES" for j
      using file_ok_mono [OF sub ramfs_invD(5) [OF inv that]] .
    have buf: "rf_data (rf_files st ! j) \<noteq> p" if j: "j < RAMFS_MAX_FILES" "p \<noteq> 0" for j
    proof -
      obtain m where m: "live_payloads h = insert (p, m) (live_payloads ?h)" "(p, m) \<notin> live_payloads ?h"
        using pk j(2) by blast
      have "k = m" if "(p, k) \<in> insert (p, m) (live_payloads ?h)" for k
        using kernel_heap.live_pointer_unique [OF hi, of p k m] that m by simp
      then show ?thesis using fresh_buffer [OF ramfs_invD(5) [OF inv j(1)] m(2)] j(2) by blast
    qed
    have "ramfs_inv (st\<lparr>rf_files := (rf_files st)[i := f], rf_heap := h, rf_memory := rf_memory st\<rparr>)"
      by (rule ramfs_inv_set [OF inv i(1) hi fo]) (use keep buf fresh_name [OF inv None] in \<open>auto simp: f_def\<close>)
    then have inv': "ramfs_inv ?st" by (cases st) simp
    have "ramfs_view ?st = (ramfs_view st)(name \<mapsto> [])"
      using view_set [of st i ?st f] inv inv' i ramfs_invD(2,3) [OF inv] ramfs_invD(3) [OF inv'] old
      by (simp add: f_def contents_def load_bytes_def)
    then show ?thesis
      using that(2) [OF s i(1) inv'] v i(1) ramfs_invD(2) [OF inv] by (simp add: f_def)
  qed
qed

lemma ramfs_write_result:
  assumes inv: "ramfs_inv st" and n: "length name < RAMFS_NAME_SIZE"
  shows "\<exists>ok st'. ramfs_write name data st = Some (ok, st') \<and> ramfs_inv st' \<and>
    (if ok then ramfs_view st' = (ramfs_view st)(name \<mapsto> data)
     else ramfs_view st' = ramfs_view st \<or> ramfs_view st name = None \<and> ramfs_view st' = (ramfs_view st)(name \<mapsto> []))"
proof (cases "RAMFS_DATA_SIZE < length data")
  case True
  then have "ramfs_write name data st = Some (False, st)" by (simp add: ramfs_write_def)
  then show ?thesis using inv by auto
next
  case False
  show ?thesis
  proof (rule ramfs_slot_result [OF inv n])
    assume "ramfs_slot name st = Some (None, st)"
    then have "ramfs_write name data st = Some (False, st)" using False by (simp add: ramfs_write_def)
    then show ?thesis using inv by auto
  next
    fix i st1
    assume s: "ramfs_slot name st = Some (Some i, st1)" "i < RAMFS_MAX_FILES" "ramfs_inv st1" "rf_used (rf_files st1 ! i)"
      "rf_name (rf_files st1 ! i) = name"
      and v: "ramfs_view st1 = (if ramfs_view st name = None then (ramfs_view st)(name \<mapsto> []) else ramfs_view st)"
    let ?f = "rf_files st1 ! i"
    show ?thesis
    proof (cases "rf_data ?f = 0")
      case True
      then show ?thesis using s(1,3) v False by (auto simp: ramfs_write_def Let_def)
    next
      case nz: False
      note fo = ramfs_invD(5) [OF s(3)]
      let ?m = "store_bytes (rf_data ?f) data (rf_memory st1)" and ?g = "?f\<lparr>rf_size := length data\<rparr>"
      let ?st = "st1\<lparr>rf_memory := ?m, rf_files := (rf_files st1)[i := ?g]\<rparr>"
      have w: "ramfs_write name data st = Some (True, ?st)" using s(1) False nz by (simp add: ramfs_write_def Let_def)
      obtain m where m: "RAMFS_DATA_SIZE \<le> m" "(rf_data ?f, m) \<in> live_payloads (rf_heap st1)"
        using fo [OF s(2)] nz by (auto simp: file_ok_def)
      have "ramfs_inv (st1\<lparr>rf_files := (rf_files st1)[i := ?g], rf_heap := rf_heap st1, rf_memory := ?m\<rparr>)"
        using s(2,4,5) nz False fo ramfs_invD(2-4) [OF s(3)]
        by (intro ramfs_inv_set [OF s(3,2) ramfs_invD(1) [OF s(3)]])
           (auto simp: names_distinct_def buffers_distinct_def file_ok_def)
      then have inv': "ramfs_inv ?st" by (cases st1) simp
      have c: "contents ?m ?g = data"
        using load_store [of "rf_data ?f" data "length data"] payload_no_wrap [OF ramfs_invD(1) [OF s(3)] m(2)] m False
        by (simp add: contents_def)
      have "contents ?m (rf_files st1 ! j) = contents (rf_memory st1) (rf_files st1 ! j)" if "j < RAMFS_MAX_FILES" "j \<noteq> i" for j
        using buffers_apart [OF ramfs_invD(1) [OF s(3)] fo [OF s(2)] fo [OF that(1)] nz, of data] False that
          ramfs_invD(2,4) [OF s(3)] s(2) nz by (auto simp: buffers_distinct_def)
      then have "ramfs_view ?st = (ramfs_view st1)(name \<mapsto> data)"
        using view_set [of st1 i ?st ?g] ramfs_invD(2,3) [OF s(3)] ramfs_invD(3) [OF inv'] s c by simp
      then show ?thesis using w inv' v by (auto simp: fun_eq_iff)
    qed
  qed
qed

lemma load_bytes_take: "load_bytes p (min a b) m = take a (load_bytes p b m)"
  by (rule nth_equalityI) (auto simp: load_bytes_def)

lemma ramfs_read_view: "ramfs_read name capacity st = map_option (take capacity) (ramfs_view st name)"
proof (cases "find_file name st")
  case (Some i)
  have "(if a < b then a else b) = min b a" for a b :: nat by (simp add: min_def)
  then show ?thesis using Some by (simp add: ramfs_read_def ramfs_view_def Let_def contents_def load_bytes_take)
qed (simp add: ramfs_read_def ramfs_view_def)

lemma ramfs_stat_view: "ramfs_stat name st = map_option length (ramfs_view st name)"
  by (cases "find_file name st") (simp_all add: ramfs_stat_def ramfs_view_def contents_def)

lemma ramfs_unlink_result:
  assumes inv: "ramfs_inv st"
  shows "\<exists>ok st'. ramfs_unlink name st = Some (ok, st') \<and> ramfs_inv st' \<and> (ok \<longleftrightarrow> ramfs_view st name \<noteq> None) \<and>
    ramfs_view st' = (ramfs_view st)(name := None) \<and>
    live_payloads (rf_heap st') = {(p, m) \<in> live_payloads (rf_heap st).
      \<forall>i. find_file name st = Some i \<longrightarrow> p \<noteq> rf_data (rf_files st ! i)}"
proof (cases "find_file name st")
  case None
  then show ?thesis using inv by (auto simp: ramfs_unlink_def ramfs_view_def fun_eq_iff)
next
  case (Some i)
  have i: "i < RAMFS_MAX_FILES" "rf_used (rf_files st ! i)" "rf_name (rf_files st ! i) = name"
    using Some find_file_Some [OF ramfs_invD(3) [OF inv]] ramfs_invD(2) [OF inv] by auto
  note fo = ramfs_invD(5) [OF inv] and hi = ramfs_invD(1) [OF inv]
  let ?p = "rf_data (rf_files st ! i)" and ?f = "(rf_files st ! i)\<lparr>rf_used := False, rf_data := 0, rf_size := 0\<rparr>"
  obtain h where h: "(if ?p \<noteq> 0 then map_option snd (kfree ?p (rf_heap st)) else Some (rf_heap st)) = Some h" "heap_inv h"
    "live_payloads h = {(q, m) \<in> live_payloads (rf_heap st). q \<noteq> ?p}"
  proof (cases "?p = 0")
    case True
    have "{(q, m) \<in> live_payloads (rf_heap st). q \<noteq> ?p} = live_payloads (rf_heap st)"
      using True kernel_heap.live_size [OF hi] by auto
    then show ?thesis using that [of "rf_heap st"] True hi by simp
  next
    case False
    obtain m where m: "(?p, m) \<in> live_payloads (rf_heap st)" using fo [OF i(1)] False by (auto simp: file_ok_def)
    obtain t where "kfree ?p (rf_heap st) = Some (True, t)" "heap_inv t" "live_payloads t = live_payloads (rf_heap st) - {(?p, m)}"
      using kernel_heap.free_live [OF hi m] by blast
    moreover have "live_payloads (rf_heap st) - {(?p, m)} = {(q, m) \<in> live_payloads (rf_heap st). q \<noteq> ?p}"
      using kernel_heap.live_pointer_unique [OF hi m] by auto
    ultimately show ?thesis using that [of t] False by simp
  qed
  let ?st = "st\<lparr>rf_heap := h, rf_files := (rf_files st)[i := ?f]\<rparr>"
  have keep: "file_ok (live_payloads h) (rf_files st ! j)" if "j < RAMFS_MAX_FILES" "j \<noteq> i" for j
    using fo [OF that(1)] ramfs_invD(2,4) [OF inv] i(1) that unfolding file_ok_def h(3) buffers_distinct_def by auto
  have "ramfs_inv (st\<lparr>rf_files := (rf_files st)[i := ?f], rf_heap := h, rf_memory := rf_memory st\<rparr>)"
    by (rule ramfs_inv_set [OF inv i(1) h(2)]) (use keep fo [OF i(1)] in \<open>auto simp: file_ok_def\<close>)
  then have inv': "ramfs_inv ?st" by (cases st) simp
  have "ramfs_view ?st = (ramfs_view st)(name := None)"
    using view_unset(1) [of st i ?st ?f] ramfs_invD(2,3) [OF inv] i by simp
  moreover have "ramfs_unlink name st = Some (True, ?st)" using Some h(1) by (simp add: ramfs_unlink_def)
  ultimately show ?thesis using inv' Some h(3) by (auto simp: ramfs_view_def)
qed

section \<open>Directories\<close>

lemma strip_prefix_Some [simp]: "strip_prefix d p = Some r \<longleftrightarrow> p = d @ r"
  by (induction d p rule: strip_prefix.induct) auto

lemma strip_prefix_append [simp]: "strip_prefix d (d @ r) = Some r" "strip_prefix d d = Some []"
  by simp_all

lemma strip_prefix_None: "strip_prefix d p = None \<longleftrightarrow> (\<forall>r. p \<noteq> d @ r)"
  by (induction d p rule: strip_prefix.induct) auto

definition under :: "string \<Rightarrow> string" where
  "under d = (if d = ''/'' then ''/'' else d @ ''/'')"

lemma direct_child_iff:
  "ramfs_direct_child d p = Some n \<longleftrightarrow> n \<noteq> [] \<and> CHR ''/'' \<notin> set n \<and> p = under d @ n"
proof (cases "d = ''/''")
  case True
  show ?thesis
  proof (cases "strip_prefix ''/'' p")
    case None
    then have "p \<noteq> ''/'' @ r" for r by (simp add: strip_prefix_None)
    then show ?thesis using True None by (simp add: ramfs_direct_child_def under_def)
  next
    case (Some r)
    then show ?thesis using True by (cases r) (auto simp: ramfs_direct_child_def under_def)
  qed
next
  case False
  show ?thesis
  proof (cases "strip_prefix d p")
    case None
    then have "p \<noteq> d @ r" for r by (simp add: strip_prefix_None)
    then show ?thesis using False None by (simp add: ramfs_direct_child_def under_def)
  next
    case (Some r)
    then show ?thesis using False by (cases r; cases "tl r") (auto simp: ramfs_direct_child_def under_def)
  qed
qed

fun somes :: "'a option list \<Rightarrow> 'a list" where
  "somes [] = []"
| "somes (None # xs) = somes xs"
| "somes (Some x # xs) = x # somes xs"

lemma set_somes: "set (somes xs) = {x. Some x \<in> set xs}"
  by (induction xs rule: somes.induct) auto

lemma scan_entries_somes:
  "scan_entries v i es = (if v \<le> i \<and> i < v + length (somes es) then Inr (somes es ! (i - v)) else Inl (v + length (somes es)))"
  by (induction v i es rule: scan_entries.induct) (auto simp: nth_Cons' Suc_diff_Suc)

definition children :: "string \<Rightarrow> ramfs \<Rightarrow> fs_dirent list" where
  "children d st = somes (map (dir_entry d) (rf_directories st)) @ somes (map (file_entry d) (rf_files st))"

lemma ramfs_readdir_children:
  assumes "ramfs_is_directory d st"
  shows "ramfs_readdir d i st = (if i < length (children d st) then (1, Some (children d st ! i)) else (0, None))"
  using assms by (auto simp: ramfs_readdir_def scan_entries_somes children_def nth_append)

lemma is_directory_iff: "ramfs_is_directory d st \<longleftrightarrow> d \<in> set (rf_directories st)"
  by (auto simp: ramfs_is_directory_def list_ex_iff)

lemma child_name: "length (under d @ n) < FS_DIRENT_NAME_MAX \<Longrightarrow> copy_entry_name n = n"
  by (simp add: copy_entry_name_def copy_string_def)

lemma ramfs_view_set:
  assumes "names_distinct (rf_files st)"
  shows "ramfs_view st n = Some c \<longleftrightarrow> (\<exists>f \<in> set (rf_files st). rf_used f \<and> rf_name f = n \<and> c = contents (rf_memory st) f)"
  unfolding ramfs_view_Some [OF assms] Bex_def in_set_conv_nth by blast

lemma entry_Some:
  "dir_entry p d = Some e \<longleftrightarrow> (\<exists>r. ramfs_direct_child p d = Some r \<and>
     e = \<lparr>de_name = copy_entry_name r, de_size = 0, de_type = FS_DIRENT_DIRECTORY\<rparr>)"
  "file_entry p f = Some e \<longleftrightarrow> rf_used f \<and> (\<exists>r. ramfs_direct_child p (rf_name f) = Some r \<and>
     e = \<lparr>de_name = copy_entry_name r, de_size = rf_size f, de_type = FS_DIRENT_FILE\<rparr>)"
  by (auto simp: dir_entry_def file_entry_def)

lemma set_children:
  "e \<in> set (children p st) \<longleftrightarrow> (\<exists>d \<in> set (rf_directories st). dir_entry p d = Some e) \<or>
     (\<exists>f \<in> set (rf_files st). file_entry p f = Some e)"
  by (auto simp: children_def set_somes image_iff eq_commute [of "Some e"])

lemma children_files:
  assumes short: "\<And>f. f \<in> set (rf_files st) \<Longrightarrow> length (rf_name f) < RAMFS_NAME_SIZE"
    and d: "names_distinct (rf_files st)"
  shows "(\<exists>e \<in> set (children p st). de_type e = FS_DIRENT_FILE \<and> de_name e = n \<and> de_size e = k) \<longleftrightarrow>
    n \<noteq> [] \<and> CHR ''/'' \<notin> set n \<and> (\<exists>c. ramfs_view st (under p @ n) = Some c \<and> length c = k)"
proof -
  have name: "copy_entry_name r = r" if "f \<in> set (rf_files st)" "rf_name f = under p @ r" for f r
    using short [OF that(1)] child_name [of p r] that(2) by (simp add: RAMFS_NAME_SIZE_def FS_PATH_MAX_def FS_DIRENT_NAME_MAX_def)
  have "e \<in> set (children p st) \<and> de_type e = FS_DIRENT_FILE \<longleftrightarrow>
      (\<exists>f \<in> set (rf_files st). rf_used f \<and> (\<exists>r. ramfs_direct_child p (rf_name f) = Some r \<and>
         e = \<lparr>de_name = copy_entry_name r, de_size = rf_size f, de_type = FS_DIRENT_FILE\<rparr>))" for e
    by (auto simp: set_children entry_Some)
  then have "(\<exists>e \<in> set (children p st). de_type e = FS_DIRENT_FILE \<and> de_name e = n \<and> de_size e = k) \<longleftrightarrow>
      (\<exists>f \<in> set (rf_files st). rf_used f \<and> n \<noteq> [] \<and> CHR ''/'' \<notin> set n \<and> rf_name f = under p @ n \<and> rf_size f = k)"
    using name by (auto simp: direct_child_iff) (metis (no_types, lifting) fs_dirent.select_convs)+
  also have "\<dots> \<longleftrightarrow> n \<noteq> [] \<and> CHR ''/'' \<notin> set n \<and> (\<exists>c. ramfs_view st (under p @ n) = Some c \<and> length c = k)"
    by (auto simp: ramfs_view_set [OF d] contents_def)
  finally show ?thesis .
qed

lemma distinct_somes:
  "(\<And>i j. i < length ys \<Longrightarrow> j < length ys \<Longrightarrow> ys ! i = ys ! j \<Longrightarrow> ys ! i \<noteq> None \<Longrightarrow> i = j) \<Longrightarrow> distinct (somes ys)"
proof (induction ys rule: somes.induct)
  case (2 xs)
  have "distinct (somes xs)" by (rule "2.IH") (use "2.prems" [of "Suc _" "Suc _"] in auto)
  then show ?case by simp
next
  case (3 x xs)
  have "distinct (somes xs)" by (rule "3.IH") (use "3.prems" [of "Suc _" "Suc _"] in auto)
  moreover have "Some x \<notin> set xs"
    using "3.prems" [of 0 "Suc _"] by (auto simp: in_set_conv_nth) (metis Suc_less_eq nat.distinct(1))
  ultimately show ?case by (simp add: set_somes)
qed simp

lemma children_dirs:
  assumes short: "\<And>x. x \<in> set (rf_directories st) \<Longrightarrow> length x < RAMFS_NAME_SIZE"
  shows "(\<exists>e \<in> set (children p st). de_type e = FS_DIRENT_DIRECTORY \<and> de_name e = n \<and> de_size e = k) \<longleftrightarrow>
    n \<noteq> [] \<and> CHR ''/'' \<notin> set n \<and> ramfs_is_directory (under p @ n) st \<and> k = 0"
proof -
  have name: "copy_entry_name r = r" if "x \<in> set (rf_directories st)" "x = under p @ r" for x r
    using short [OF that(1)] child_name [of p r] that(2) by (simp add: RAMFS_NAME_SIZE_def FS_PATH_MAX_def FS_DIRENT_NAME_MAX_def)
  have "(\<exists>e \<in> set (children p st). de_type e = FS_DIRENT_DIRECTORY \<and> de_name e = n \<and> de_size e = k) \<longleftrightarrow>
      (\<exists>r. under p @ r \<in> set (rf_directories st) \<and> r \<noteq> [] \<and> CHR ''/'' \<notin> set r \<and> copy_entry_name r = n \<and> k = 0)"
  proof
    assume "\<exists>r. under p @ r \<in> set (rf_directories st) \<and> r \<noteq> [] \<and> CHR ''/'' \<notin> set r \<and> copy_entry_name r = n \<and> k = 0"
    then show "\<exists>e \<in> set (children p st). de_type e = FS_DIRENT_DIRECTORY \<and> de_name e = n \<and> de_size e = k"
      by (intro bexI [of _ "\<lparr>de_name = n, de_size = k, de_type = FS_DIRENT_DIRECTORY\<rparr>"])
        (auto simp: set_children entry_Some direct_child_iff)
  qed (auto simp: Bex_def set_children entry_Some direct_child_iff)
  also have "\<dots> \<longleftrightarrow> n \<noteq> [] \<and> CHR ''/'' \<notin> set n \<and> ramfs_is_directory (under p @ n) st \<and> k = 0"
    using name by (auto simp: is_directory_iff)
  finally show ?thesis .
qed

lemma entry_name:
  "dir_entry p x = Some e \<Longrightarrow> length x < RAMFS_NAME_SIZE \<Longrightarrow> x = under p @ de_name e"
  "file_entry p f = Some e \<Longrightarrow> length (rf_name f) < RAMFS_NAME_SIZE \<Longrightarrow> rf_used f \<and> rf_name f = under p @ de_name e"
proof -
  have name: "copy_entry_name r = r" if "length (under p @ r) < RAMFS_NAME_SIZE" for r
    using that child_name [of p r] by (simp add: RAMFS_NAME_SIZE_def FS_PATH_MAX_def FS_DIRENT_NAME_MAX_def)
  show "dir_entry p x = Some e \<Longrightarrow> length x < RAMFS_NAME_SIZE \<Longrightarrow> x = under p @ de_name e"
    using name by (auto simp: entry_Some direct_child_iff)
  show "file_entry p f = Some e \<Longrightarrow> length (rf_name f) < RAMFS_NAME_SIZE \<Longrightarrow> rf_used f \<and> rf_name f = under p @ de_name e"
    using name by (auto simp: entry_Some direct_child_iff)
qed

lemma distinct_children:
  assumes inv: "ramfs_inv st" and short: "\<And>x. x \<in> set (rf_directories st) \<Longrightarrow> length x < RAMFS_NAME_SIZE"
  shows "distinct (children p st)"
proof -
  have fs: "length (rf_name f) < RAMFS_NAME_SIZE" if "f \<in> set (rf_files st)" for f
    using inv that by (auto simp: ramfs_inv_def file_ok_def)
  have "distinct (somes (map (dir_entry p) (rf_directories st)))"
  proof (rule distinct_somes)
    fix i j
    assume ij: "i < length (map (dir_entry p) (rf_directories st))" "j < length (map (dir_entry p) (rf_directories st))"
      and eq: "map (dir_entry p) (rf_directories st) ! i = map (dir_entry p) (rf_directories st) ! j"
        "map (dir_entry p) (rf_directories st) ! i \<noteq> None"
    then obtain e where "dir_entry p (rf_directories st ! i) = Some e" "dir_entry p (rf_directories st ! j) = Some e" by auto
    then have "rf_directories st ! i = rf_directories st ! j"
      using entry_name(1) short [OF nth_mem] ij by (metis length_map)
    then show "i = j" using ij inv by (simp add: ramfs_inv_def nth_eq_iff_index_eq)
  qed
  moreover have "distinct (somes (map (file_entry p) (rf_files st)))"
  proof (rule distinct_somes)
    fix i j
    assume ij: "i < length (map (file_entry p) (rf_files st))" "j < length (map (file_entry p) (rf_files st))"
      and eq: "map (file_entry p) (rf_files st) ! i = map (file_entry p) (rf_files st) ! j"
        "map (file_entry p) (rf_files st) ! i \<noteq> None"
    then obtain e where "file_entry p (rf_files st ! i) = Some e" "file_entry p (rf_files st ! j) = Some e" by auto
    moreover have "length (rf_name (rf_files st ! i)) < RAMFS_NAME_SIZE" "length (rf_name (rf_files st ! j)) < RAMFS_NAME_SIZE"
      using fs [OF nth_mem] ij by simp_all
    ultimately have "rf_used (rf_files st ! i) \<and> rf_used (rf_files st ! j) \<and> rf_name (rf_files st ! i) = rf_name (rf_files st ! j)"
      using entry_name(2) by metis
    then show "i = j" using ij ramfs_invD(3) [OF inv] by (simp add: names_distinct_def)
  qed
  moreover have "dir_entry p x = Some e \<Longrightarrow> file_entry p f \<noteq> Some e" for x f e by (auto simp: entry_Some)
  ultimately show ?thesis by (auto simp: children_def set_somes) metis
qed

lemma ramfs_readdir_listing:
  assumes inv: "ramfs_inv st" and short: "\<And>x. x \<in> set (rf_directories st) \<Longrightarrow> length x < RAMFS_NAME_SIZE"
  shows "e \<in> set (children p st) \<longleftrightarrow> de_name e \<noteq> [] \<and> CHR ''/'' \<notin> set (de_name e) \<and>
    (case de_type e of
       FS_DIRENT_DIRECTORY \<Rightarrow> ramfs_is_directory (under p @ de_name e) st \<and> de_size e = 0
     | FS_DIRENT_FILE \<Rightarrow> ramfs_stat (under p @ de_name e) st = Some (de_size e))"
proof -
  have fs: "length (rf_name f) < RAMFS_NAME_SIZE" if "f \<in> set (rf_files st)" for f
    using inv that by (auto simp: ramfs_inv_def file_ok_def)
  have mem: "e \<in> set (children p st) \<longleftrightarrow> (\<exists>e' \<in> set (children p st). de_type e' = de_type e \<and> de_name e' = de_name e \<and>
      de_size e' = de_size e)" (is "_ \<longleftrightarrow> ?R")
  proof
    assume ?R
    then obtain e' where "e' \<in> set (children p st)" "de_type e' = de_type e" "de_name e' = de_name e" "de_size e' = de_size e"
      by blast
    moreover from this have "e' = e" by (intro fs_dirent.equality) simp_all
    ultimately show "e \<in> set (children p st)" by simp
  qed blast
  show ?thesis
  proof (cases "de_type e")
    case FS_DIRENT_FILE
    then show ?thesis
      unfolding mem using children_files [where p = p and n = "de_name e" and k = "de_size e", OF fs ramfs_invD(3) [OF inv]]
      by (auto simp: ramfs_stat_view)
  next
    case FS_DIRENT_DIRECTORY
    then show ?thesis unfolding mem using children_dirs [where p = p and n = "de_name e" and k = "de_size e", OF short] by simp
  qed
qed

section \<open>Properties\<close>

text \<open>An empty file system on a kernel heap with one free block of 64 KiB.\<close>

definition demo_free_heap :: kheap where
  "demo_free_heap = \<lparr>kh_mm = demo_mm, kh_first = HEAP_BASE, kh_mapped = 0x10000, kh_active = 0,
     kh_hdr = (\<lambda>_. header 65504 False 0 0)\<rparr>"

definition demo_ramfs :: ramfs where
  "demo_ramfs = \<lparr>rf_files = replicate 64 \<lparr>rf_used = False, rf_name = '''', rf_data = 0, rf_size = 0\<rparr>,
     rf_directories = [''/'', ''/bin'', ''/disk''], rf_heap = demo_free_heap, rf_memory = (\<lambda>_. 0)\<rparr>"

lemma demo_free_heap_rep: "heap_rep demo_free_heap [(65504, False)]"
  by (simp add: heap_rep_def demo_free_heap_def ad_def)

lemma demo_ramfs_inv: "ramfs_inv demo_ramfs"
proof -
  have "heap_inv demo_free_heap" using demo_free_heap_rep by (auto simp: heap_inv_def)
  then show ?thesis
    by (simp add: ramfs_inv_def demo_ramfs_def RAMFS_MAX_FILES_def RAMFS_MAX_DIRECTORIES_def file_ok_def
        names_distinct_def buffers_distinct_def RAMFS_NAME_SIZE_def FS_PATH_MAX_def)
qed

lemma demo_ramfs_view: "ramfs_view demo_ramfs n = None"
  by (simp add: ramfs_view_def find_file_def first_index_None_iff demo_ramfs_def)

text \<open>The example file system with a file of three bytes.\<close>

definition demo_written :: ramfs where
  "demo_written = snd (the (ramfs_write ''/a'' [1, 2, 3] demo_ramfs))"

lemma demo_write:
  "ramfs_write ''/a'' [1, 2, 3] demo_ramfs = Some (True, demo_written)"
  "rf_directories demo_written = [''/'', ''/bin'', ''/disk'']"
proof -
  have "first_index (fits (unat (0x8000 :: u64))) [(65504, False)] = Some 0" by (simp add: fits_def)
  from kmalloc_loop_hit [OF demo_free_heap_rep this] obtain h where
    "kmalloc_loop 0x8000 demo_free_heap = Some (ad 32, h)" by auto
  then have "kmalloc 0x8000 demo_free_heap = Some (ad 32, h)" by (simp add: kmalloc_def HEAP_MAX_SIZE_def align_up_def)
  moreover have "find_file ''/a'' demo_ramfs = None" by (simp add: find_file_def first_index_None_iff demo_ramfs_def)
  moreover have "first_index (\<lambda>f. \<not> rf_used f) (rf_files demo_ramfs) = Some 0"
    by (simp add: demo_ramfs_def numeral_eq_Suc)
  moreover have "rf_heap demo_ramfs = demo_free_heap" "length (rf_files demo_ramfs) = 64" by (simp_all add: demo_ramfs_def)
  ultimately have "\<exists>st. ramfs_write ''/a'' [1, 2, 3] demo_ramfs = Some (True, st) \<and>
      rf_directories st = rf_directories demo_ramfs"
    using ad_nonzero [of 32] by (simp add: ramfs_write_def ramfs_slot_def RAMFS_DATA_SIZE_def)
  then show "ramfs_write ''/a'' [1, 2, 3] demo_ramfs = Some (True, demo_written)"
    "rf_directories demo_written = [''/'', ''/bin'', ''/disk'']" by (auto simp: demo_written_def demo_ramfs_def)
qed

text \<open>C22. Writing a file always returns. If it succeeds, the file system maps the name to exactly the bytes
  written and every other name as before, though all contents share the kernel heap; if it fails, no
  name lost its contents, and the only possible change is an empty file of that name.\<close>

theorem ramfs_write_correct:
  assumes "ramfs_inv st" "length name < RAMFS_NAME_SIZE"
  shows "\<exists>ok st'. ramfs_write name data st = Some (ok, st') \<and> ramfs_inv st' \<and>
    (if ok then ramfs_view st' = (ramfs_view st)(name \<mapsto> data) \<and> ramfs_read name RAMFS_DATA_SIZE st' = Some data
     else ramfs_view st' = ramfs_view st \<or> ramfs_view st name = None \<and> ramfs_view st' = (ramfs_view st)(name \<mapsto> []))"
proof -
  obtain ok st' where w: "ramfs_write name data st = Some (ok, st')" "ramfs_inv st'"
    "if ok then ramfs_view st' = (ramfs_view st)(name \<mapsto> data) else ramfs_view st' = ramfs_view st \<or>
      ramfs_view st name = None \<and> ramfs_view st' = (ramfs_view st)(name \<mapsto> [])"
    using ramfs_write_result [OF assms, of data] by blast
  moreover have "length data \<le> RAMFS_DATA_SIZE" if ok
    using w(1) that by (auto simp: ramfs_write_def split: if_splits)
  ultimately show ?thesis by (auto simp: ramfs_read_view)
qed

theorem ramfs_write_correct_witness:
  "ramfs_write ''/a'' [1, 2, 3] demo_ramfs = Some (True, demo_written) \<and> ramfs_inv demo_written \<and>
   ramfs_view demo_written = [''/a'' \<mapsto> [1, 2, 3]] \<and> ramfs_read ''/a'' RAMFS_DATA_SIZE demo_written = Some [1, 2, 3]"
proof -
  have "ramfs_view demo_ramfs = Map.empty" using demo_ramfs_view by (intro ext) simp
  then show ?thesis
    using ramfs_write_correct [OF demo_ramfs_inv, of "''/a''" "[1, 2, 3]"] demo_write(1)
    by (auto simp: RAMFS_NAME_SIZE_def FS_PATH_MAX_def split: if_splits)
qed

text \<open>C23. Removing a file always returns; it succeeds exactly when the name exists, deletes only that name and
  gives the file's buffer, and no other, back to the kernel heap.\<close>

theorem ramfs_unlink_correct:
  assumes "ramfs_inv st"
  shows "\<exists>ok st'. ramfs_unlink name st = Some (ok, st') \<and> ramfs_inv st' \<and> (ok \<longleftrightarrow> ramfs_view st name \<noteq> None) \<and>
    ramfs_view st' = (ramfs_view st)(name := None) \<and>
    live_payloads (rf_heap st') = {(p, m) \<in> live_payloads (rf_heap st).
      \<forall>i. find_file name st = Some i \<longrightarrow> p \<noteq> rf_data (rf_files st ! i)}"
  by (rule ramfs_unlink_result [OF assms])

theorem ramfs_unlink_correct_witness:
  "\<exists>st'. ramfs_unlink ''/a'' demo_ramfs = Some (False, st') \<and> ramfs_view st' = Map.empty"
  using ramfs_unlink_correct [OF demo_ramfs_inv, of "''/a''"] demo_ramfs_view by fastforce

text \<open>C24. Listing a directory by index enumerates exactly its direct children: there is a list of entries
  without repetitions such that index \<open>i\<close> gives the entry number \<open>i\<close> and an index past the end reports the
  end. An entry is in the list if and only if its name is a proper path component and, below the directory,
  is a directory (listed with size 0) or a file of the listed size. Directory names are assumed shorter than
  the 256 bytes that mkdir, the only operation that adds one, requires.\<close>

theorem ramfs_readdir_complete:
  assumes "ramfs_inv st" "ramfs_is_directory d st" "\<And>x. x \<in> set (rf_directories st) \<Longrightarrow> length x < RAMFS_NAME_SIZE"
  shows "\<exists>es. distinct es \<and>
    (\<forall>index. ramfs_readdir d index st = (if index < length es then (1, Some (es ! index)) else (0, None))) \<and>
    (\<forall>e. e \<in> set es \<longleftrightarrow> de_name e \<noteq> [] \<and> CHR ''/'' \<notin> set (de_name e) \<and>
       (let full = (if d = ''/'' then d else d @ ''/'') @ de_name e
        in case de_type e of
             FS_DIRENT_DIRECTORY \<Rightarrow> ramfs_is_directory full st \<and> de_size e = 0
           | FS_DIRENT_FILE \<Rightarrow> ramfs_stat full st = Some (de_size e)))"
proof (intro exI [of _ "children d st"] conjI allI)
  show "distinct (children d st)" by (rule distinct_children [OF assms(1,3)])
  show "ramfs_readdir d index st = (if index < length (children d st) then (1, Some (children d st ! index)) else (0, None))"
    for index by (rule ramfs_readdir_children [OF assms(2)])
  have u: "(if d = ''/'' then d else d @ ''/'') = under d" by (simp add: under_def)
  show "e \<in> set (children d st) \<longleftrightarrow> de_name e \<noteq> [] \<and> CHR ''/'' \<notin> set (de_name e) \<and>
       (let full = (if d = ''/'' then d else d @ ''/'') @ de_name e
        in case de_type e of
             FS_DIRENT_DIRECTORY \<Rightarrow> ramfs_is_directory full st \<and> de_size e = 0
           | FS_DIRENT_FILE \<Rightarrow> ramfs_stat full st = Some (de_size e))" for e
    unfolding u Let_def by (rule ramfs_readdir_listing [OF assms(1,3)])
qed

theorem ramfs_readdir_complete_witness:
  "(\<exists>i. ramfs_readdir ''/'' i demo_written = (1, Some \<lparr>de_name = ''a'', de_size = 3, de_type = FS_DIRENT_FILE\<rparr>)) \<and>
   (\<exists>i. ramfs_readdir ''/'' i demo_written = (1, Some \<lparr>de_name = ''bin'', de_size = 0, de_type = FS_DIRENT_DIRECTORY\<rparr>))"
proof -
  have inv: "ramfs_inv demo_written" "ramfs_stat ''/a'' demo_written = Some 3"
    using ramfs_write_result [OF demo_ramfs_inv, of "''/a''" "[1, 2, 3]"] demo_write(1)
    by (auto simp: RAMFS_NAME_SIZE_def FS_PATH_MAX_def ramfs_stat_view dest: fun_cong [of _ _ "''/a''"] split: if_splits)
  note dirs = demo_write(2)
  have "\<exists>es. distinct es \<and>
    (\<forall>i. ramfs_readdir ''/'' i demo_written = (if i < length es then (1, Some (es ! i)) else (0, None))) \<and>
    (\<forall>e. e \<in> set es \<longleftrightarrow> de_name e \<noteq> [] \<and> CHR ''/'' \<notin> set (de_name e) \<and>
       (let full = (if ''/'' = ''/'' then ''/'' else ''/'' @ ''/'') @ de_name e
        in case de_type e of
             FS_DIRENT_DIRECTORY \<Rightarrow> ramfs_is_directory full demo_written \<and> de_size e = 0
           | FS_DIRENT_FILE \<Rightarrow> ramfs_stat full demo_written = Some (de_size e)))"
    by (rule ramfs_readdir_complete [OF inv(1)]) (auto simp: dirs is_directory_iff RAMFS_NAME_SIZE_def FS_PATH_MAX_def)
  then obtain es where r: "\<And>i. ramfs_readdir ''/'' i demo_written = (if i < length es then (1, Some (es ! i)) else (0, None))"
    and m: "\<And>e. e \<in> set es \<longleftrightarrow> de_name e \<noteq> [] \<and> CHR ''/'' \<notin> set (de_name e) \<and>
       (case de_type e of
          FS_DIRENT_DIRECTORY \<Rightarrow> ramfs_is_directory (''/'' @ de_name e) demo_written \<and> de_size e = 0
        | FS_DIRENT_FILE \<Rightarrow> ramfs_stat (''/'' @ de_name e) demo_written = Some (de_size e))"
    unfolding Let_def if_P [OF refl] by blast
  have find: "\<exists>i. ramfs_readdir ''/'' i demo_written = (1, Some e)" if "e \<in> set es" for e
    using that r by (metis in_set_conv_nth)
  show ?thesis using inv(2) dirs by (intro conjI find) (simp_all add: m is_directory_iff)
qed

text \<open>C25. Only empty directories are removed: when rmdir succeeds, neither a file nor another directory was
  below the directory, exactly this directory is gone from the list and no file changed.\<close>

theorem ramfs_rmdir_only_empty:
  assumes "ramfs_inv st" "ramfs_rmdir d st = (True, st')"
  shows "d \<in> set (rf_directories st) \<and> set (rf_directories st') = set (rf_directories st) - {d} \<and>
    ramfs_inv st' \<and> ramfs_view st' = ramfs_view st \<and>
    (\<forall>n. ramfs_view st (d @ ''/'' @ n) = None) \<and> (\<forall>n. n \<noteq> [] \<longrightarrow> d @ ''/'' @ n \<notin> set (rf_directories st))"
proof -
  obtain index where i: "first_index (\<lambda>x. name_equal x d) (rf_directories st) = Some index"
    "d \<noteq> []" and files: "\<forall>f \<in> set (rf_files st). rf_used f \<longrightarrow>
        strip_prefix (if last d \<noteq> CHR ''/'' then d @ ''/'' else d) (rf_name f) = None"
    and dirs: "\<forall>j \<in> {0 ..< length (rf_directories st)}. j \<noteq> index \<longrightarrow>
        strip_prefix (if last d \<noteq> CHR ''/'' then d @ ''/'' else d) (rf_directories st ! j) = None"
    and st': "st' = st\<lparr>rf_directories := take index (rf_directories st) @ drop (Suc index) (rf_directories st)\<rparr>"
    using assms(2) by (auto simp: ramfs_rmdir_def Let_def list_ex_iff strip_prefix_None split: if_splits option.splits)
  have ix: "index < length (rf_directories st)" "rf_directories st ! index = d" using first_index_SomeD [OF i(1)] by auto
  have pre: "strip_prefix (if last d \<noteq> CHR ''/'' then d @ ''/'' else d) (d @ ''/'' @ n) \<noteq> None" for n
    by (auto simp: strip_prefix_None)
  have v0: "ramfs_view st (d @ ''/'' @ n) = None" for n
    using files pre ramfs_view_set [OF ramfs_invD(3) [OF assms(1)], of "d @ ''/'' @ n"] by (metis not_None_eq)
  have d0: "d @ ''/'' @ n \<notin> set (rf_directories st)" if "n \<noteq> []" for n
    using dirs pre [of n] ix that by (auto simp: in_set_conv_nth)
  have dis: "distinct (rf_directories st)" "length (rf_directories st) \<le> RAMFS_MAX_DIRECTORIES"
    using assms(1) by (auto simp: ramfs_inv_def)
  obtain as bs where e: "rf_directories st = as @ d # bs" "rf_directories st' = as @ bs"
    by (rule that [OF id_take_nth_drop [OF ix(1), unfolded ix(2)]]) (simp add: st')
  have ds: "set (rf_directories st') = set (rf_directories st) - {d}" "distinct (rf_directories st')"
    using dis(1) unfolding e by auto
  have inv': "ramfs_inv st'" using assms(1) ds(2) dis(2) by (auto simp: ramfs_inv_def st')
  have v': "ramfs_view st' = ramfs_view st" by (intro ext) (simp add: ramfs_view_def find_file_def st')
  show ?thesis using ix(2) nth_mem [OF ix(1)] ds(1) inv' v' v0 d0 by auto
qed

theorem ramfs_rmdir_only_empty_witness:
  "set (rf_directories (snd (ramfs_rmdir ''/disk'' demo_ramfs))) = {''/'', ''/bin''}"
proof -
  obtain ok st' where r: "ramfs_rmdir ''/disk'' demo_ramfs = (ok, st')" by fastforce
  moreover have "ok" using r by (auto simp: ramfs_rmdir_def demo_ramfs_def RAMFS_NAME_SIZE_def FS_PATH_MAX_def list_ex_iff
      numeral_3_eq_3 less_Suc_eq split: if_splits)
  ultimately show ?thesis
    using ramfs_rmdir_only_empty [OF demo_ramfs_inv, of "''/disk''" st'] by (auto simp: demo_ramfs_def)
qed

end
