(* ===== verification/Channel_Interface.thy ===== *)
theory Channel_Interface
  imports ConeOS_Prelude
begin

text \<open>
  What readers and writers rely on of a byte channel with a fixed capacity: bytes come out in the
  order they went in, none is lost and none is invented. The pipe buffer of \<^verbatim>\<open>vfs.c\<close> and the keyboard
  buffer of \<^verbatim>\<open>ps2.c\<close> are the two providers, two different ring buffers.
\<close>

datatype 'a channel_op = Put "'a list" | Get nat

locale byte_channel =
  fixes put :: "'a list \<Rightarrow> 's \<Rightarrow> 's"
    and get :: "nat \<Rightarrow> 's \<Rightarrow> 'a list \<times> 's"
    and queued :: "'s \<Rightarrow> 'a list"
    and invar :: "'s \<Rightarrow> bool"
    and capacity :: nat
  assumes put_queued: "invar s \<Longrightarrow> length (queued s) + length xs \<le> capacity \<Longrightarrow>
      invar (put xs s) \<and> queued (put xs s) = queued s @ xs"
    and get_queued: "invar s \<Longrightarrow> n \<le> length (queued s) \<Longrightarrow>
      invar (snd (get n s)) \<and> fst (get n s) = take n (queued s) \<and> queued (snd (get n s)) = drop n (queued s)"
begin

text \<open>
  A run of the channel: writers put at most what fits, readers get at most what is queued. The
  result is what was put and what was got, in order, and the final state.
\<close>

fun channel_run :: "'a channel_op list \<Rightarrow> 's \<Rightarrow> 'a list \<times> 'a list \<times> 's" where
  "channel_run [] s = ([], [], s)"
| "channel_run (Put xs # ops) s =
     (let ys = take (capacity - length (queued s)) xs; (ins, outs, t) = channel_run ops (put ys s) in (ys @ ins, outs, t))"
| "channel_run (Get n # ops) s =
     (let (ys, s') = get (min n (length (queued s))) s; (ins, outs, t) = channel_run ops s' in (ins, ys @ outs, t))"

lemma channel_fifo:
  "invar s \<Longrightarrow> length (queued s) \<le> capacity \<Longrightarrow> channel_run ops s = (ins, outs, t) \<Longrightarrow>
   invar t \<and> length (queued t) \<le> capacity \<and> queued s @ ins = outs @ queued t"
proof (induction ops s arbitrary: ins outs t rule: channel_run.induct)
  case (2 xs ops s)
  let ?ys = "take (capacity - length (queued s)) xs"
  have p: "invar (put ?ys s)" "queued (put ?ys s) = queued s @ ?ys" using put_queued [of s ?ys] 2(2,3) by auto
  obtain i u v where r: "channel_run ops (put ?ys s) = (i, u, v)" by (metis prod_cases3)
  have l: "length (queued (put ?ys s)) \<le> capacity" using p 2(3) by simp
  have "invar v \<and> length (queued v) \<le> capacity \<and> queued (put ?ys s) @ i = u @ queued v"
    using 2(1) [OF refl p(1) l] r by blast
  then show ?case using r p 2(4) by auto
next
  case (3 n ops s)
  let ?n = "min n (length (queued s))"
  obtain ys s' where g: "get ?n s = (ys, s')" by fastforce
  have p: "invar s'" "ys = take ?n (queued s)" "queued s' = drop ?n (queued s)" using get_queued [of s ?n] 3(2) g by auto
  obtain i u v where r: "channel_run ops s' = (i, u, v)" by (metis prod_cases3)
  have l: "length (queued s') \<le> capacity" using p(3) 3(3) by simp
  have "invar v \<and> length (queued v) \<le> capacity \<and> queued s' @ i = u @ queued v"
    using 3(1) [OF g [symmetric] refl p(1) l] r by blast
  moreover have "queued s = ys @ queued s'" using p by simp
  ultimately show ?case using r g 3(4) by auto
qed auto

end

end
