(* ===== verification/Pipe.thy ===== *)
theory Pipe
  imports Channel_Interface
begin

text \<open>
  The pipes of \<^verbatim>\<open>src/fs/vfs.c\<close>: a ring buffer of 4096 bytes with a count of its readers and writers.
  A call that would wait (\<open>task_block_current_if\<close>) ends the step with \<open>Blocked\<close> and what it has done so
  far; the task runs the call again when it is woken. The second component of a result says whether
  the call woke the blocked tasks.
\<close>

section \<open>State\<close>

definition VFS_PIPE_CAPACITY :: nat where "VFS_PIPE_CAPACITY = 4096"

datatype vfs_pipe_mode = VFS_PIPE_NONE | VFS_PIPE_READ | VFS_PIPE_WRITE

record pipe_struct =
  pp_used :: bool
  pp_readers :: nat
  pp_writers :: nat
  pp_head :: nat
  pp_tail :: nat
  pp_count :: nat
  pp_data :: "u8 list"

datatype 'a io = Failed | Finished 'a | Blocked 'a

section \<open>Operations\<close>

definition pipe_drop_reference_locked :: "vfs_pipe_mode \<Rightarrow> pipe_struct \<Rightarrow> pipe_struct" where
  "pipe_drop_reference_locked mode pipe =
     (if \<not> pp_used pipe then pipe
      else
        let p1 = (if mode = VFS_PIPE_READ \<and> pp_readers pipe \<noteq> 0 then pipe\<lparr>pp_readers := pp_readers pipe - 1\<rparr> else pipe);
            p2 = (if mode = VFS_PIPE_WRITE \<and> pp_writers p1 \<noteq> 0 then p1\<lparr>pp_writers := pp_writers p1 - 1\<rparr> else p1)
        in if pp_readers p2 = 0 \<and> pp_writers p2 = 0
           then p2\<lparr>pp_used := False, pp_head := 0, pp_tail := 0, pp_count := 0\<rparr> else p2)"

definition pipe_retain_reference :: "vfs_pipe_mode \<Rightarrow> pipe_struct \<Rightarrow> pipe_struct" where
  "pipe_retain_reference mode pipe =
     (if mode = VFS_PIPE_NONE then pipe
      else if pp_used pipe
      then (if mode = VFS_PIPE_READ then pipe\<lparr>pp_readers := pp_readers pipe + 1\<rparr>
            else pipe\<lparr>pp_writers := pp_writers pipe + 1\<rparr>)
      else pipe)"

definition pipe_reader_should_wait :: "pipe_struct \<Rightarrow> bool" where
  "pipe_reader_should_wait pipe \<longleftrightarrow> pp_used pipe \<and> pp_count pipe = 0 \<and> pp_writers pipe \<noteq> 0"

definition pipe_writer_should_wait :: "pipe_struct \<Rightarrow> bool" where
  "pipe_writer_should_wait pipe \<longleftrightarrow> pp_used pipe \<and> pp_count pipe = VFS_PIPE_CAPACITY \<and> pp_readers pipe \<noteq> 0"

text \<open>The two copy loops.\<close>

primrec pipe_take :: "nat \<Rightarrow> pipe_struct \<Rightarrow> u8 list \<times> pipe_struct" where
  "pipe_take 0 pipe = ([], pipe)"
| "pipe_take (Suc n) pipe =
     (let b = pp_data pipe ! pp_head pipe;
          (bs, pipe') = pipe_take n (pipe\<lparr>pp_head := (pp_head pipe + 1) mod VFS_PIPE_CAPACITY\<rparr>)
      in (b # bs, pipe'))"

primrec pipe_fill :: "u8 list \<Rightarrow> pipe_struct \<Rightarrow> pipe_struct" where
  "pipe_fill [] pipe = pipe"
| "pipe_fill (b # bs) pipe =
     pipe_fill bs (pipe\<lparr>pp_data := (pp_data pipe)[pp_tail pipe := b],
                        pp_tail := (pp_tail pipe + 1) mod VFS_PIPE_CAPACITY\<rparr>)"

definition pipe_get :: "nat \<Rightarrow> pipe_struct \<Rightarrow> u8 list \<times> pipe_struct" where
  "pipe_get count pipe = (case pipe_take count pipe of (bs, p) \<Rightarrow> (bs, p\<lparr>pp_count := pp_count p - count\<rparr>))"

definition pipe_put :: "u8 list \<Rightarrow> pipe_struct \<Rightarrow> pipe_struct" where
  "pipe_put bs pipe = (let p = pipe_fill bs pipe in p\<lparr>pp_count := pp_count p + length bs\<rparr>)"

definition pipe_read :: "vfs_pipe_mode \<Rightarrow> nat \<Rightarrow> pipe_struct \<Rightarrow> (u8 list io \<times> bool) \<times> pipe_struct" where
  "pipe_read mode len pipe =
     (if mode \<noteq> VFS_PIPE_READ then ((Failed, False), pipe)
      else if len = 0 then ((Finished [], False), pipe)
      else if pp_count pipe \<noteq> 0
      then (case pipe_get (if pp_count pipe < len then pp_count pipe else len) pipe of
              (bs, p) \<Rightarrow> ((Finished bs, True), p))
      else if pp_writers pipe = 0 then ((Finished [], False), pipe)
      else ((Blocked [], False), pipe))"

function pipe_write_loop :: "u8 list \<Rightarrow> nat \<Rightarrow> bool \<Rightarrow> pipe_struct \<Rightarrow> (nat io \<times> bool) \<times> pipe_struct" where
  "pipe_write_loop buffer done_bytes woken pipe =
     (if done_bytes < length buffer
      then
        if pp_readers pipe = 0 then ((if done_bytes \<noteq> 0 then Finished done_bytes else Failed, woken), pipe)
        else
          let available = VFS_PIPE_CAPACITY - pp_count pipe;
              amount = (if available < length buffer - done_bytes then available else length buffer - done_bytes)
          in if amount \<noteq> 0
             then pipe_write_loop buffer (done_bytes + amount) True (pipe_put (take amount (drop done_bytes buffer)) pipe)
             else ((Blocked done_bytes, woken), pipe)
      else ((Finished done_bytes, woken), pipe))"
  by auto
termination by (relation "measure (\<lambda>(buffer, done_bytes, woken, pipe). length buffer - done_bytes)") auto

definition pipe_write :: "vfs_pipe_mode \<Rightarrow> u8 list \<Rightarrow> pipe_struct \<Rightarrow> (nat io \<times> bool) \<times> pipe_struct" where
  "pipe_write mode buffer pipe =
     (if mode \<noteq> VFS_PIPE_WRITE then ((Failed, False), pipe) else pipe_write_loop buffer 0 False pipe)"

declare pipe_write_loop.simps [simp del]

section \<open>The ring buffer is a queue\<close>

definition ring_at :: "pipe_struct \<Rightarrow> nat \<Rightarrow> u8" where
  "ring_at pipe i = pp_data pipe ! ((pp_head pipe + i) mod VFS_PIPE_CAPACITY)"

definition pipe_queued :: "pipe_struct \<Rightarrow> u8 list" where
  "pipe_queued pipe = map (ring_at pipe) [0 ..< pp_count pipe]"

definition pipe_inv :: "pipe_struct \<Rightarrow> bool" where
  "pipe_inv pipe \<longleftrightarrow> length (pp_data pipe) = VFS_PIPE_CAPACITY \<and> pp_head pipe < VFS_PIPE_CAPACITY \<and>
     pp_count pipe \<le> VFS_PIPE_CAPACITY \<and> pp_tail pipe = (pp_head pipe + pp_count pipe) mod VFS_PIPE_CAPACITY"

lemma pipe_take_val:
  assumes "pp_head p < VFS_PIPE_CAPACITY"
  shows "pipe_take n p = (map (ring_at p) [0 ..< n], p\<lparr>pp_head := (pp_head p + n) mod VFS_PIPE_CAPACITY\<rparr>)"
  using assms
proof (induction n arbitrary: p)
  case (Suc n)
  let ?p = "p\<lparr>pp_head := (pp_head p + 1) mod VFS_PIPE_CAPACITY\<rparr>"
  have "0 < VFS_PIPE_CAPACITY" by (simp add: VFS_PIPE_CAPACITY_def)
  then have h: "pp_head ?p < VFS_PIPE_CAPACITY" by simp
  have r: "ring_at ?p i = ring_at p (Suc i)" for i by (simp add: ring_at_def mod_simps)
  have "map (ring_at p) [0 ..< Suc n] = ring_at p 0 # map (ring_at ?p) [0 ..< n]"
    unfolding r by (simp add: upt_conv_Cons map_Suc_upt [symmetric] comp_def del: upt_Suc)
  moreover have "ring_at p 0 = pp_data p ! pp_head p" using Suc.prems by (simp add: ring_at_def)
  ultimately show ?case using Suc.IH [OF h] by (simp add: mod_simps del: upt_Suc)
qed simp

lemma pipe_fill_val:
  "length (pp_data p) = VFS_PIPE_CAPACITY \<Longrightarrow> pp_tail p < VFS_PIPE_CAPACITY \<Longrightarrow> length bs \<le> VFS_PIPE_CAPACITY \<Longrightarrow>
   \<exists>d. pipe_fill bs p = p\<lparr>pp_data := d, pp_tail := (pp_tail p + length bs) mod VFS_PIPE_CAPACITY\<rparr> \<and>
     length d = VFS_PIPE_CAPACITY \<and>
     (\<forall>i < length bs. d ! ((pp_tail p + i) mod VFS_PIPE_CAPACITY) = bs ! i) \<and>
     (\<forall>i < VFS_PIPE_CAPACITY. length bs \<le> i \<longrightarrow> d ! ((pp_tail p + i) mod VFS_PIPE_CAPACITY) =
       pp_data p ! ((pp_tail p + i) mod VFS_PIPE_CAPACITY))"
proof (induction bs arbitrary: p)
  case Nil
  then show ?case by (intro exI [of _ "pp_data p"]) simp
next
  case (Cons b bs)
  let ?C = VFS_PIPE_CAPACITY
  let ?p = "p\<lparr>pp_data := (pp_data p)[pp_tail p := b], pp_tail := (pp_tail p + 1) mod ?C\<rparr>"
  have C: "0 < ?C" by (simp add: VFS_PIPE_CAPACITY_def)
  obtain d where d: "pipe_fill bs ?p = ?p\<lparr>pp_data := d, pp_tail := (pp_tail ?p + length bs) mod ?C\<rparr>" "length d = ?C"
    "\<And>i. i < length bs \<Longrightarrow> d ! ((pp_tail ?p + i) mod ?C) = bs ! i"
    "\<And>i. i < ?C \<Longrightarrow> length bs \<le> i \<Longrightarrow> d ! ((pp_tail ?p + i) mod ?C) = pp_data ?p ! ((pp_tail ?p + i) mod ?C)"
    using Cons.IH [of ?p] Cons.prems C by auto
  have s: "(pp_tail ?p + i) mod ?C = (pp_tail p + Suc i) mod ?C" for i by (simp add: mod_simps)
  have ne: "(pp_tail p + i) mod ?C \<noteq> pp_tail p" if "0 < i" "i < ?C" for i
    using that Cons.prems(2) by (auto simp: mod_if)
  have b: "d ! pp_tail p = b"
    using d(4) [of "?C - 1"] Cons.prems C s [of "?C - 1"] by (simp add: nth_list_update)
  have in_: "d ! ((pp_tail p + i) mod ?C) = (b # bs) ! i" if "i < Suc (length bs)" for i
    using that b d(3) [of "i - 1"] s [of "i - 1"] Cons.prems(2) by (cases i) auto
  have out: "d ! ((pp_tail p + i) mod ?C) = pp_data p ! ((pp_tail p + i) mod ?C)" if i: "i < ?C" "Suc (length bs) \<le> i" for i
  proof -
    obtain j where j: "i = Suc j" using i(2) by (cases i) auto
    then show ?thesis using d(4) [of j] s [of j] ne [of i] i by simp
  qed
  show ?case using d(1,2) in_ out by (intro exI [of _ d]) (simp add: mod_simps)
qed

lemma pipe_get_queued:
  assumes "pipe_inv p" "n \<le> pp_count p"
  shows "pipe_inv (snd (pipe_get n p)) \<and> fst (pipe_get n p) = take n (pipe_queued p) \<and>
    pipe_queued (snd (pipe_get n p)) = drop n (pipe_queued p)"
proof -
  let ?C = VFS_PIPE_CAPACITY
  have h: "pp_head p < ?C" using assms(1) by (simp add: pipe_inv_def)
  define q where "q = snd (pipe_get n p)"
  have q: "q = p\<lparr>pp_head := (pp_head p + n) mod ?C, pp_count := pp_count p - n\<rparr>"
    and f: "fst (pipe_get n p) = map (ring_at p) [0 ..< n]"
    by (simp_all add: q_def pipe_get_def pipe_take_val [OF h])
  have r: "ring_at q i = ring_at p (n + i)" for i by (simp add: q ring_at_def mod_simps add.assoc)
  have "pp_count q = pp_count p - n" by (simp add: q)
  then have "pipe_queued q = drop n (pipe_queued p)"
    using assms(2) by (intro nth_equalityI) (simp_all add: pipe_queued_def r)
  moreover have "fst (pipe_get n p) = take n (pipe_queued p)"
    using assms(2) by (simp add: f pipe_queued_def take_map)
  moreover have "((pp_head p + n) mod ?C + (pp_count p - n)) mod ?C = (pp_head p + pp_count p) mod ?C"
    using assms(2) by (simp only: mod_add_left_eq) (simp add: add.assoc)
  then have "pipe_inv q" using assms by (auto simp: pipe_inv_def q)
  ultimately show ?thesis by (simp add: q_def)
qed

lemma pipe_put_queued:
  assumes inv: "pipe_inv p" and fits: "pp_count p + length bs \<le> VFS_PIPE_CAPACITY"
  shows "pipe_inv (pipe_put bs p) \<and> pipe_queued (pipe_put bs p) = pipe_queued p @ bs"
proof -
  let ?C = VFS_PIPE_CAPACITY
  have t: "length (pp_data p) = ?C" "pp_tail p < ?C" "pp_tail p = (pp_head p + pp_count p) mod ?C"
    using inv by (auto simp: pipe_inv_def VFS_PIPE_CAPACITY_def)
  obtain d where d: "pipe_fill bs p = p\<lparr>pp_data := d, pp_tail := (pp_tail p + length bs) mod ?C\<rparr>" "length d = ?C"
    "\<And>i. i < length bs \<Longrightarrow> d ! ((pp_tail p + i) mod ?C) = bs ! i"
    "\<And>i. i < ?C \<Longrightarrow> length bs \<le> i \<Longrightarrow> d ! ((pp_tail p + i) mod ?C) = pp_data p ! ((pp_tail p + i) mod ?C)"
    using pipe_fill_val [OF t(1,2), of bs] fits by auto
  define q where "q = pipe_put bs p"
  have q: "q = p\<lparr>pp_data := d, pp_tail := (pp_tail p + length bs) mod ?C, pp_count := pp_count p + length bs\<rparr>"
    by (simp add: q_def pipe_put_def d(1))
  have new: "ring_at q (pp_count p + i) = bs ! i" if "i < length bs" for i
    using d(3) [OF that] by (simp add: q ring_at_def t(3) mod_simps add.assoc)
  have old: "ring_at q i = ring_at p i" if "i < pp_count p" for i
  proof -
    let ?j = "?C - pp_count p + i"
    have "(pp_tail p + ?j) mod ?C = (pp_head p + pp_count p + ?j) mod ?C" by (simp add: t(3) mod_simps)
    also have "pp_head p + pp_count p + ?j = pp_head p + i + ?C" using fits by simp
    finally have "(pp_tail p + ?j) mod ?C = (pp_head p + i) mod ?C" by simp
    then show ?thesis using d(4) [of ?j] that fits by (simp add: q ring_at_def)
  qed
  have "pp_count q = pp_count p + length bs" by (simp add: q)
  moreover have "ring_at q i = bs ! (i - pp_count p)" if "\<not> i < pp_count p" "i < pp_count p + length bs" for i
    using new [of "i - pp_count p"] that by simp
  ultimately have "pipe_queued q = pipe_queued p @ bs"
    by (intro nth_equalityI) (auto simp: pipe_queued_def nth_append old)
  moreover have "pipe_inv q" using inv fits d(2) by (auto simp: pipe_inv_def q mod_simps add.assoc)
  ultimately show ?thesis by (simp add: q_def)
qed

interpretation pipe_channel: byte_channel pipe_put pipe_get pipe_queued pipe_inv VFS_PIPE_CAPACITY
  using pipe_put_queued pipe_get_queued by unfold_locales (simp_all add: pipe_queued_def)

section \<open>Calls\<close>

definition accepted :: "nat io \<Rightarrow> nat" where
  "accepted r = (case r of Failed \<Rightarrow> 0 | Finished n \<Rightarrow> n | Blocked n \<Rightarrow> n)"

definition obtained :: "u8 list io \<Rightarrow> u8 list" where
  "obtained r = (case r of Failed \<Rightarrow> [] | Finished bs \<Rightarrow> bs | Blocked bs \<Rightarrow> bs)"

lemma pipe_put_fields [simp]:
  "pp_used (pipe_put bs p) = pp_used p" "pp_readers (pipe_put bs p) = pp_readers p"
  "pp_writers (pipe_put bs p) = pp_writers p" "pp_count (pipe_put bs p) = pp_count p + length bs"
proof -
  have "pp_used (pipe_fill bs p) = pp_used p \<and> pp_readers (pipe_fill bs p) = pp_readers p \<and>
      pp_writers (pipe_fill bs p) = pp_writers p \<and> pp_count (pipe_fill bs p) = pp_count p"
    by (induction bs arbitrary: p) simp_all
  then show "pp_used (pipe_put bs p) = pp_used p" "pp_readers (pipe_put bs p) = pp_readers p"
    "pp_writers (pipe_put bs p) = pp_writers p" "pp_count (pipe_put bs p) = pp_count p + length bs"
    by (simp_all add: pipe_put_def Let_def)
qed

lemma pipe_write_loop_queued:
  "pipe_inv p \<Longrightarrow> n \<le> length buffer \<Longrightarrow> pipe_write_loop buffer n woken p = ((r, w), q) \<Longrightarrow>
   pipe_inv q \<and> pp_used q = pp_used p \<and> pp_readers q = pp_readers p \<and> n \<le> accepted r \<and> accepted r \<le> length buffer \<and>
   pipe_queued q = pipe_queued p @ take (accepted r - n) (drop n buffer) \<and>
   (\<forall>k. r = Blocked k \<longrightarrow> pp_count q = VFS_PIPE_CAPACITY \<and> pp_readers q \<noteq> 0 \<and> k < length buffer)"
proof (induction buffer n woken p arbitrary: r w q rule: pipe_write_loop.induct)
  case (1 buffer n woken p)
  let ?a = "if VFS_PIPE_CAPACITY - pp_count p < length buffer - n then VFS_PIPE_CAPACITY - pp_count p else length buffer - n"
  show ?case
  proof (cases "n < length buffer \<and> pp_readers p \<noteq> 0 \<and> ?a \<noteq> 0")
    case False
    then show ?thesis
      using 1(2-4) by (subst (asm) pipe_write_loop.simps)
        (auto simp: Let_def accepted_def pipe_inv_def split: if_splits)
  next
    case True
    let ?xs = "take ?a (drop n buffer)"
    have len: "length ?xs = ?a" using True by auto
    have put: "pipe_inv (pipe_put ?xs p)" "pipe_queued (pipe_put ?xs p) = pipe_queued p @ ?xs"
      using pipe_channel.put_queued [of p ?xs] 1(2) len by (auto simp: pipe_inv_def pipe_queued_def)
    have loop: "pipe_write_loop buffer (n + ?a) True (pipe_put ?xs p) = ((r, w), q)"
      using 1(4) True by (subst (asm) pipe_write_loop.simps) (simp add: Let_def)
    have le: "n + ?a \<le> length buffer" using True by auto
    have IH: "pipe_inv q \<and> pp_used q = pp_used (pipe_put ?xs p) \<and> pp_readers q = pp_readers (pipe_put ?xs p) \<and>
        n + ?a \<le> accepted r \<and> accepted r \<le> length buffer \<and>
        pipe_queued q = pipe_queued (pipe_put ?xs p) @ take (accepted r - (n + ?a)) (drop (n + ?a) buffer) \<and>
        (\<forall>k. r = Blocked k \<longrightarrow> pp_count q = VFS_PIPE_CAPACITY \<and> pp_readers q \<noteq> 0 \<and> k < length buffer)"
      using True by (intro "1.IH" [OF _ _ refl refl _ put(1) le loop]) auto
    then have "take ?a (drop n buffer) @ take (accepted r - (n + ?a)) (drop (n + ?a) buffer) = take (accepted r - n) (drop n buffer)"
      using take_add [of ?a "accepted r - (n + ?a)" "drop n buffer"] by (simp add: add.commute)
    then show ?thesis using IH put(2) by (auto simp del: take_append)
  qed
qed

lemma pipe_write_queued:
  assumes "pipe_inv p" "pipe_write VFS_PIPE_WRITE buffer p = ((r, w), q)"
  shows "pipe_inv q" "pipe_queued q = pipe_queued p @ take (accepted r) buffer" "accepted r \<le> length buffer"
    "r = Blocked k \<Longrightarrow> pp_used p \<Longrightarrow> pipe_writer_should_wait q" "r = Blocked k \<Longrightarrow> k < length buffer"
  using pipe_write_loop_queued [OF assms(1), of 0 buffer False r w q] assms(2)
  by (auto simp: pipe_write_def pipe_writer_should_wait_def)

lemma pipe_read_queued:
  assumes "pipe_inv p" "pipe_read VFS_PIPE_READ n p = ((r, w), q)"
  shows "pipe_inv q" "pipe_queued p = obtained r @ pipe_queued q" "length (obtained r) \<le> n"
    "r = Blocked xs \<Longrightarrow> pp_used p \<Longrightarrow> pipe_reader_should_wait q"
proof -
  define k where "k = (if pp_count p < n then pp_count p else n)"
  obtain bs u where g: "pipe_get k p = (bs, u)" by fastforce
  have "k \<le> pp_count p" "k \<le> n" by (simp_all add: k_def)
  then have G: "pipe_inv u" "bs = take k (pipe_queued p)" "pipe_queued u = drop k (pipe_queued p)" "length bs \<le> n"
    using pipe_get_queued [OF assms(1), of k] g by auto
  have rd: "pipe_read VFS_PIPE_READ n p = (if n = 0 then ((Finished [], False), p)
      else if pp_count p \<noteq> 0 then ((Finished bs, True), u)
      else if pp_writers p = 0 then ((Finished [], False), p) else ((Blocked [], False), p))"
    by (simp add: pipe_read_def k_def [symmetric] g)
  show "pipe_inv q" "pipe_queued p = obtained r @ pipe_queued q" "length (obtained r) \<le> n"
    "r = Blocked xs \<Longrightarrow> pp_used p \<Longrightarrow> pipe_reader_should_wait q"
    using assms G by (auto simp: rd obtained_def pipe_reader_should_wait_def split: if_splits)
qed

text \<open>A run of read and write calls: what the writes accepted, what the reads delivered.\<close>

fun pipe_run :: "u8 channel_op list \<Rightarrow> pipe_struct \<Rightarrow> u8 list \<times> u8 list \<times> pipe_struct" where
  "pipe_run [] p = ([], [], p)"
| "pipe_run (Put xs # ops) p =
     (let ((r, w), q) = pipe_write VFS_PIPE_WRITE xs p; (ins, outs, t) = pipe_run ops q in (take (accepted r) xs @ ins, outs, t))"
| "pipe_run (Get n # ops) p =
     (let ((r, w), q) = pipe_read VFS_PIPE_READ n p; (ins, outs, t) = pipe_run ops q in (ins, obtained r @ outs, t))"

lemma pipe_run_fifo:
  "pipe_inv p \<Longrightarrow> pipe_run ops p = (ins, outs, q) \<Longrightarrow> pipe_inv q \<and> pipe_queued p @ ins = outs @ pipe_queued q"
proof (induction ops arbitrary: p ins outs)
  case (Cons op ops)
  show ?case
  proof (cases op)
    case (Put xs)
    obtain r w t where w: "pipe_write VFS_PIPE_WRITE xs p = ((r, w), t)" by (metis prod.collapse)
    obtain i u v where r: "pipe_run ops t = (i, u, v)" by (metis prod_cases3)
    note W = pipe_write_queued [OF Cons.prems(1) w]
    show ?thesis using Cons.IH [OF W(1)] Cons.prems(2) W(2) w r by (auto simp: Put)
  next
    case (Get n)
    obtain r w t where w: "pipe_read VFS_PIPE_READ n p = ((r, w), t)" by (metis prod.collapse)
    obtain i u v where r: "pipe_run ops t = (i, u, v)" by (metis prod_cases3)
    note W = pipe_read_queued [OF Cons.prems(1) w]
    show ?thesis using Cons.IH [OF W(1)] Cons.prems(2) W(2) w r by (auto simp: Get)
  qed
qed simp

section \<open>Properties\<close>

definition demo_pipe :: pipe_struct where
  "demo_pipe = \<lparr>pp_used = True, pp_readers = 1, pp_writers = 1, pp_head = 4095, pp_tail = 4095, pp_count = 0,
     pp_data = replicate 4096 0\<rparr>"

lemma demo_pipe_inv: "pipe_inv demo_pipe"
  by (simp add: pipe_inv_def demo_pipe_def VFS_PIPE_CAPACITY_def)

text \<open>C26. A pipe is a first-in first-out channel: over any sequence of read and write calls, the bytes that
  were queued before followed by those the writes accepted are the bytes the reads delivered followed by those
  still queued, whatever the sizes of the calls and wherever the ring buffer wraps around.\<close>

theorem pipe_fifo:
  assumes "pipe_inv p" "pipe_run ops p = (ins, outs, q)"
  shows "pipe_inv q \<and> pipe_queued p @ ins = outs @ pipe_queued q"
  by (rule pipe_run_fifo [OF assms])

theorem pipe_fifo_witness:
  "case pipe_run [Put [1, 2, 3], Get 2, Put [4], Get 9] demo_pipe of (ins, outs, q) \<Rightarrow> ins = outs @ pipe_queued q"
proof -
  obtain ins outs q where r: "pipe_run [Put [1, 2, 3], Get 2, Put [4], Get 9] demo_pipe = (ins, outs, q)" by (metis prod_cases3)
  have "pipe_queued demo_pipe = []" by (simp add: pipe_queued_def demo_pipe_def)
  then show ?thesis using pipe_fifo [OF demo_pipe_inv r] r by simp
qed

text \<open>C27. A reader or writer goes to sleep only when its wait condition holds: a blocked read leaves an empty
  pipe that still has writers, a blocked write a full pipe that still has readers, so the next call of the
  other side is the one that wakes it.\<close>

theorem pipe_blocks_only_when_waiting:
  assumes "pipe_inv p" "pp_used p"
  shows "(\<forall>n bs w q. pipe_read VFS_PIPE_READ n p = ((Blocked bs, w), q) \<longrightarrow> pipe_reader_should_wait q \<and> q = p) \<and>
    (\<forall>buffer k w q. pipe_write VFS_PIPE_WRITE buffer p = ((Blocked k, w), q) \<longrightarrow> pipe_writer_should_wait q \<and> k < length buffer)"
proof (intro conjI allI impI)
  fix n bs w q assume r: "pipe_read VFS_PIPE_READ n p = ((Blocked bs, w), q)"
  show "pipe_reader_should_wait q" using pipe_read_queued(4) [OF assms(1) r refl assms(2)] .
  show "q = p" using r by (auto simp: pipe_read_def split: if_splits prod.splits)
next
  fix buffer k w q assume r: "pipe_write VFS_PIPE_WRITE buffer p = ((Blocked k, w), q)"
  show "pipe_writer_should_wait q" using pipe_write_queued(4) [OF assms(1) r refl assms(2)] .
  show "k < length buffer" using pipe_write_queued(5) [OF assms(1) r refl] .
qed

theorem pipe_blocks_only_when_waiting_witness:
  "pipe_read VFS_PIPE_READ 5 demo_pipe = ((Blocked [], False), demo_pipe) \<and> pipe_reader_should_wait demo_pipe"
  using pipe_blocks_only_when_waiting [OF demo_pipe_inv] by (simp add: pipe_read_def demo_pipe_def pipe_reader_should_wait_def)

end
