(* ===== verification/Devfs.thy ===== *)
theory Devfs
  imports Ramfs Pipe
begin

text \<open>
  The device file system \<^verbatim>\<open>src/fs/devfs.c\<close> and the keyboard buffer of \<^verbatim>\<open>src/drivers/ps2.c\<close> it reads
  from. The port of the keyboard controller and the screen and serial line are hardware: a scan code
  is an argument of the interrupt handler, and the characters sent to the console are a log.
\<close>

section \<open>The keyboard\<close>

definition KEYBOARD_BUFFER_SIZE :: nat where "KEYBOARD_BUFFER_SIZE = 64"

record keyboard =
  kb_buffer :: "u8 list"
  kb_head :: nat
  kb_tail :: nat
  kb_shift_left :: bool
  kb_shift_right :: bool
  kb_caps_lock :: bool
  kb_wakeups :: nat

text \<open>The scan code tables; codes without an entry are 0.\<close>

definition table_of :: "(nat \<times> string) list \<Rightarrow> nat \<Rightarrow> u8" where
  "table_of rows sc = (case find (\<lambda>(start, cs). start \<le> sc \<and> sc < start + length cs) rows of
     None \<Rightarrow> 0 | Some (start, cs) \<Rightarrow> of_char (cs ! (sc - start)))"

definition keymap :: "nat \<Rightarrow> u8" where
  "keymap = table_of [(0x02, ''1234567890-=''), (0x0E, [CHR 0x08, CHR 0x09]), (0x10, ''qwertyuiop[]''), (0x1C, [CHR 0x0D]),
     (0x1E, ''asdfghjkl;''), (0x28, [CHR 0x27, CHR 0x60]), (0x2B, [CHR 0x5C]), (0x2C, ''zxcvbnm,./''), (0x39, '' '')]"

definition shifted_keymap :: "nat \<Rightarrow> u8" where
  "shifted_keymap = table_of [(0x02, ''!@#$%^&*()_+''), (0x1A, ''{}''), (0x27, '':''), (0x28, [CHR 0x22, CHR 0x7E]), (0x2B, ''|''),
     (0x33, ''<>?'')]"

definition keyboard_insert :: "u8 \<Rightarrow> keyboard \<Rightarrow> keyboard" where
  "keyboard_insert c kb =
     (let next = (kb_head kb + 1) mod KEYBOARD_BUFFER_SIZE in
      if next = kb_tail kb then kb
      else kb\<lparr>kb_buffer := (kb_buffer kb)[kb_head kb := c], kb_head := next, kb_wakeups := kb_wakeups kb + 1\<rparr>)"

definition keyboard_char :: "u8 \<Rightarrow> keyboard \<Rightarrow> u8" where
  "keyboard_char sc kb =
     (let c = keymap (unat sc);
          shifted = (kb_shift_left kb \<or> kb_shift_right kb)
      in if of_char CHR ''a'' \<le> c \<and> c \<le> of_char CHR ''z''
         then (if shifted \<noteq> kb_caps_lock kb then c - (of_char CHR ''a'' - of_char CHR ''A'') else c)
         else if shifted \<and> shifted_keymap (unat sc) \<noteq> 0 then shifted_keymap (unat sc)
         else c)"

definition keyboard_handler :: "u8 \<Rightarrow> keyboard \<Rightarrow> keyboard" where
  "keyboard_handler sc kb =
     (if sc = 0x2A then kb\<lparr>kb_shift_left := True\<rparr>
      else if sc = 0x36 then kb\<lparr>kb_shift_right := True\<rparr>
      else if sc = 0xAA then kb\<lparr>kb_shift_left := False\<rparr>
      else if sc = 0xB6 then kb\<lparr>kb_shift_right := False\<rparr>
      else if sc = 0x3A then kb\<lparr>kb_caps_lock := \<not> kb_caps_lock kb\<rparr>
      else if sc AND 0x80 \<noteq> 0 then kb
      else if keymap (unat sc) = 0 then kb
      else keyboard_insert (keyboard_char sc kb) kb)"

definition keyboard_read_char :: "keyboard \<Rightarrow> (u8 \<times> keyboard) option" where
  "keyboard_read_char kb =
     (if kb_tail kb = kb_head kb then None
      else Some (kb_buffer kb ! kb_tail kb, kb\<lparr>kb_tail := (kb_tail kb + 1) mod KEYBOARD_BUFFER_SIZE\<rparr>))"

definition keyboard_char_available :: "keyboard \<Rightarrow> bool" where
  "keyboard_char_available kb \<longleftrightarrow> kb_tail kb \<noteq> kb_head kb"

section \<open>The device file system\<close>

datatype devfs_device = DEVFS_DEVICE_NONE | DEVFS_DEVICE_CONSOLE | DEVFS_DEVICE_NULL | DEVFS_DEVICE_ZERO

record devfs =
  dv_keyboard :: keyboard
  dv_console :: "u8 list"

definition devices :: "(string \<times> devfs_device) list" where
  "devices = [(''console'', DEVFS_DEVICE_CONSOLE), (''null'', DEVFS_DEVICE_NULL), (''zero'', DEVFS_DEVICE_ZERO)]"

definition keyboard_input_waiting :: "devfs \<Rightarrow> bool" where
  "keyboard_input_waiting dv \<longleftrightarrow> \<not> keyboard_char_available (dv_keyboard dv)"

definition path_is_root :: "string \<Rightarrow> bool" where
  "path_is_root pathname \<longleftrightarrow> pathname = []"

definition devfs_device_for_path :: "string \<Rightarrow> devfs_device" where
  "devfs_device_for_path pathname =
     (case find (\<lambda>(name, device). strip_prefix name pathname = Some []) devices of
        None \<Rightarrow> DEVFS_DEVICE_NONE | Some (name, device) \<Rightarrow> device)"

text \<open>The inner loop of a console read: characters while there are any and there is room.\<close>

fun keyboard_drain :: "nat \<Rightarrow> keyboard \<Rightarrow> u8 list \<times> keyboard" where
  "keyboard_drain 0 kb = ([], kb)"
| "keyboard_drain (Suc room) kb =
     (case keyboard_read_char kb of
        None \<Rightarrow> ([], kb)
      | Some (c, kb1) \<Rightarrow> (case keyboard_drain room kb1 of (cs, kb2) \<Rightarrow> (c # cs, kb2)))"

definition devfs_read :: "devfs_device \<Rightarrow> nat \<Rightarrow> devfs \<Rightarrow> u8 list io \<times> devfs" where
  "devfs_read device len dv =
     (case device of
        DEVFS_DEVICE_NULL \<Rightarrow> (Finished [], dv)
      | DEVFS_DEVICE_ZERO \<Rightarrow> (Finished (replicate len 0), dv)
      | DEVFS_DEVICE_NONE \<Rightarrow> (Failed, dv)
      | DEVFS_DEVICE_CONSOLE \<Rightarrow>
          (case keyboard_drain len (dv_keyboard dv) of
             (cs, kb) \<Rightarrow>
               (if cs = [] \<and> len \<noteq> 0 then Blocked [] else Finished cs, dv\<lparr>dv_keyboard := kb\<rparr>)))"

definition devfs_write :: "devfs_device \<Rightarrow> u8 list \<Rightarrow> devfs \<Rightarrow> nat option \<times> devfs" where
  "devfs_write device buffer dv =
     (if device = DEVFS_DEVICE_CONSOLE then (Some (length buffer), dv\<lparr>dv_console := dv_console dv @ buffer\<rparr>)
      else if device \<noteq> DEVFS_DEVICE_NULL \<and> device \<noteq> DEVFS_DEVICE_ZERO then (None, dv)
      else (Some (length buffer), dv))"

definition devfs_stat :: "string \<Rightarrow> nat option" where
  "devfs_stat pathname = (if devfs_device_for_path pathname = DEVFS_DEVICE_NONE then None else Some 0)"

definition devfs_readdir :: "string \<Rightarrow> nat \<Rightarrow> int \<times> fs_dirent option" where
  "devfs_readdir pathname index =
     (if \<not> path_is_root pathname \<or> length devices \<le> index then (0, None)
      else (1, Some \<lparr>de_name = copy_string FS_DIRENT_NAME_MAX (fst (devices ! index)), de_size = 0,
                     de_type = FS_DIRENT_FILE\<rparr>))"

definition devfs_is_directory :: "string \<Rightarrow> bool" where
  "devfs_is_directory pathname = path_is_root pathname"

definition devfs_reject :: "string \<Rightarrow> bool" where
  "devfs_reject pathname = False"

definition devfs_sync :: bool where
  "devfs_sync = True"

section \<open>The keyboard buffer is a channel\<close>

definition keyboard_count :: "keyboard \<Rightarrow> nat" where
  "keyboard_count kb = (kb_head kb + KEYBOARD_BUFFER_SIZE - kb_tail kb) mod KEYBOARD_BUFFER_SIZE"

definition keyboard_queued :: "keyboard \<Rightarrow> u8 list" where
  "keyboard_queued kb = map (\<lambda>i. kb_buffer kb ! ((kb_tail kb + i) mod KEYBOARD_BUFFER_SIZE)) [0 ..< keyboard_count kb]"

definition keyboard_inv :: "keyboard \<Rightarrow> bool" where
  "keyboard_inv kb \<longleftrightarrow> length (kb_buffer kb) = KEYBOARD_BUFFER_SIZE \<and> kb_head kb < KEYBOARD_BUFFER_SIZE \<and>
     kb_tail kb < KEYBOARD_BUFFER_SIZE"

lemma keyboard_count_lt: "keyboard_count kb < KEYBOARD_BUFFER_SIZE"
  by (simp add: keyboard_count_def KEYBOARD_BUFFER_SIZE_def)

lemma mod_wrap: "(a :: nat) < n \<Longrightarrow> b \<le> n \<Longrightarrow> (a + b) mod n = (if a + b < n then a + b else a + b - n)"
  by (simp add: mod_if)

lemma keyboard_count_if:
  "keyboard_inv kb \<Longrightarrow> keyboard_count kb = (if kb_tail kb \<le> kb_head kb then kb_head kb - kb_tail kb
     else kb_head kb + KEYBOARD_BUFFER_SIZE - kb_tail kb)"
  using mod_wrap [of "kb_head kb" KEYBOARD_BUFFER_SIZE "KEYBOARD_BUFFER_SIZE - kb_tail kb"]
  by (auto simp: keyboard_count_def keyboard_inv_def)

lemma keyboard_invD: "keyboard_inv kb \<Longrightarrow> kb_head kb < KEYBOARD_BUFFER_SIZE" "keyboard_inv kb \<Longrightarrow> kb_tail kb < KEYBOARD_BUFFER_SIZE"
  "keyboard_inv kb \<Longrightarrow> length (kb_buffer kb) = KEYBOARD_BUFFER_SIZE" "keyboard_inv kb \<Longrightarrow> 0 < KEYBOARD_BUFFER_SIZE"
  by (simp_all add: keyboard_inv_def KEYBOARD_BUFFER_SIZE_def)

lemma keyboard_count_zero: "keyboard_inv kb \<Longrightarrow> keyboard_count kb = 0 \<longleftrightarrow> kb_tail kb = kb_head kb"
  by (auto simp: keyboard_count_if keyboard_invD not_le split: if_splits dest: keyboard_invD(2))

lemma keyboard_insert_queued:
  assumes inv: "keyboard_inv kb" and room: "keyboard_count kb + 1 < KEYBOARD_BUFFER_SIZE"
  shows "keyboard_inv (keyboard_insert c kb)" "keyboard_queued (keyboard_insert c kb) = keyboard_queued kb @ [c]"
    "keyboard_count (keyboard_insert c kb) = keyboard_count kb + 1"
proof -
  let ?C = KEYBOARD_BUFFER_SIZE and ?n = "keyboard_count kb"
  let ?kb = "kb\<lparr>kb_buffer := (kb_buffer kb)[kb_head kb := c], kb_head := (kb_head kb + 1) mod ?C, kb_wakeups := kb_wakeups kb + 1\<rparr>"
  have ne: "(kb_head kb + 1) mod ?C \<noteq> kb_tail kb"
    using room keyboard_invD [OF inv] mod_wrap [of "kb_head kb" ?C 1] by (auto simp: keyboard_count_if [OF inv] split: if_splits)
  then have k: "keyboard_insert c kb = ?kb" by (simp add: keyboard_insert_def Let_def)
  show inv': "keyboard_inv (keyboard_insert c kb)" using inv by (simp add: k keyboard_inv_def KEYBOARD_BUFFER_SIZE_def)
  show cnt: "keyboard_count (keyboard_insert c kb) = ?n + 1"
    using room keyboard_invD [OF inv] mod_wrap [of "kb_head kb" ?C 1] keyboard_count_if [OF inv'] ne
    by (auto simp: keyboard_count_if [OF inv] k split: if_splits)
  have hd: "(kb_tail kb + ?n) mod ?C = kb_head kb"
    using keyboard_invD [OF inv] mod_wrap [of "kb_tail kb" ?C ?n] by (auto simp: keyboard_count_if [OF inv] split: if_splits)
  have other: "kb_head kb \<noteq> (kb_tail kb + i) mod ?C" if "i < ?n" for i
    using that keyboard_invD [OF inv] mod_wrap [of "kb_tail kb" ?C i] by (auto simp: keyboard_count_if [OF inv] split: if_splits)
  have "kb_head kb < length (kb_buffer kb)" using inv by (simp add: keyboard_inv_def)
  then show "keyboard_queued (keyboard_insert c kb) = keyboard_queued kb @ [c]"
    unfolding keyboard_queued_def cnt using hd other by (auto simp: k)
qed

lemma keyboard_insert_full:
  assumes inv: "keyboard_inv kb" and full: "keyboard_count kb + 1 = KEYBOARD_BUFFER_SIZE"
  shows "keyboard_insert c kb = kb"
  using full keyboard_invD [OF inv] mod_wrap [of "kb_head kb" KEYBOARD_BUFFER_SIZE 1]
  by (auto simp: keyboard_insert_def Let_def keyboard_count_if [OF inv] split: if_splits)

lemma keyboard_insert_count_le:
  assumes "keyboard_inv kb" shows "keyboard_inv (keyboard_insert c kb)"
  using assms keyboard_insert_queued(1) [OF assms] keyboard_insert_full [OF assms] keyboard_count_lt [of kb]
  by (cases "keyboard_count kb + 1 < KEYBOARD_BUFFER_SIZE") auto

lemma keyboard_read_queued:
  assumes inv: "keyboard_inv kb" and ne: "keyboard_queued kb = c # cs"
  obtains kb' where "keyboard_read_char kb = Some (c, kb')" "keyboard_inv kb'" "keyboard_queued kb' = cs"
proof -
  let ?C = KEYBOARD_BUFFER_SIZE and ?kb = "kb\<lparr>kb_tail := (kb_tail kb + 1) mod KEYBOARD_BUFFER_SIZE\<rparr>"
  define m where "m = length cs"
  have n: "keyboard_count kb = Suc m" unfolding m_def using arg_cong [OF ne, of length] by (simp add: keyboard_queued_def)
  then have th: "kb_tail kb \<noteq> kb_head kb" using keyboard_count_zero [OF inv] by auto
  have e: "[0 ..< Suc m] = 0 # map Suc [0 ..< m]" by (simp add: upt_conv_Cons map_Suc_upt del: upt_Suc)
  have q: "c # cs = map (\<lambda>i. kb_buffer kb ! ((kb_tail kb + i) mod ?C)) (0 # map Suc [0 ..< m])"
    using ne unfolding keyboard_queued_def n e by (rule sym)
  have c0: "c = kb_buffer kb ! kb_tail kb" using q keyboard_invD(2) [OF inv] by simp
  from th c0 have r: "keyboard_read_char kb = Some (c, ?kb)" by (simp add: keyboard_read_char_def)
  have inv': "keyboard_inv ?kb" using inv by (simp add: keyboard_inv_def KEYBOARD_BUFFER_SIZE_def)
  have t: "kb_tail ?kb = (if kb_tail kb + 1 = ?C then 0 else kb_tail kb + 1)"
    using keyboard_invD(2) [OF inv] by (simp add: mod_if)
  have "keyboard_count ?kb = m"
    using n keyboard_invD [OF inv] keyboard_count_if [OF inv] keyboard_count_if [OF inv'] unfolding t
    by (auto split: if_splits)
  then have "keyboard_queued ?kb = map (\<lambda>i. kb_buffer kb ! ((kb_tail kb + Suc i) mod ?C)) [0 ..< m]"
    by (simp add: keyboard_queued_def mod_simps)
  also have "\<dots> = cs" using q by (simp add: comp_def)
  finally have "keyboard_queued ?kb = cs" .
  then show ?thesis using that r inv' by blast
qed

lemma keyboard_drain_queued:
  "keyboard_inv kb \<Longrightarrow> keyboard_inv (snd (keyboard_drain n kb)) \<and> fst (keyboard_drain n kb) = take n (keyboard_queued kb) \<and>
   keyboard_queued (snd (keyboard_drain n kb)) = drop n (keyboard_queued kb)"
proof (induction n arbitrary: kb)
  case (Suc n)
  show ?case
  proof (cases "keyboard_queued kb")
    case Nil
    then have "keyboard_count kb = 0" using arg_cong [OF Nil, of length] by (simp add: keyboard_queued_def)
    then have "keyboard_read_char kb = None" using keyboard_count_zero [OF Suc.prems] by (simp add: keyboard_read_char_def)
    then show ?thesis using Nil Suc.prems by simp
  next
    case (Cons c cs)
    then obtain kb' where "keyboard_read_char kb = Some (c, kb')" "keyboard_inv kb'" "keyboard_queued kb' = cs"
      using keyboard_read_queued [OF Suc.prems] by blast
    then show ?thesis using Suc.IH [of kb'] Cons by (simp add: split_beta)
  qed
qed simp

interpretation keyboard_channel: byte_channel "fold keyboard_insert" keyboard_drain keyboard_queued keyboard_inv
  "KEYBOARD_BUFFER_SIZE - 1"
proof
  fix s and xs :: "u8 list"
  assume "keyboard_inv s" "length (keyboard_queued s) + length xs \<le> KEYBOARD_BUFFER_SIZE - 1"
  then show "keyboard_inv (fold keyboard_insert xs s) \<and> keyboard_queued (fold keyboard_insert xs s) = keyboard_queued s @ xs"
  proof (induction xs arbitrary: s)
    case (Cons x xs)
    have "keyboard_count s + 1 < KEYBOARD_BUFFER_SIZE"
      using Cons.prems(2) by (simp add: keyboard_queued_def KEYBOARD_BUFFER_SIZE_def)
    note I = keyboard_insert_queued [OF Cons.prems(1) this, of x]
    show ?case using Cons.IH [OF I(1)] I(2) Cons.prems(2) by simp
  qed simp
qed (use keyboard_drain_queued in blast)

section \<open>Properties\<close>

definition demo_keyboard :: keyboard where
  "demo_keyboard = \<lparr>kb_buffer = replicate 64 0, kb_head = 63, kb_tail = 63, kb_shift_left = True, kb_shift_right = False,
     kb_caps_lock = False, kb_wakeups = 0\<rparr>"

definition key_code :: "u8 \<Rightarrow> bool" where
  "key_code sc \<longleftrightarrow> sc \<notin> {0x2A, 0x36, 0xAA, 0xB6, 0x3A} \<and> sc AND 0x80 = 0 \<and> keymap (unat sc) \<noteq> 0"

text \<open>
  The keys of a US keyboard, row by row: the scan code of the first key, the characters of the keys and
  the characters they have with shift. The editing keys and the space bar have the same one.
\<close>

definition us_rows :: "(nat \<times> string \<times> string) list" where
  "us_rows =
     [(0x02, ''1234567890-='', ''!@#$%^&*()_+''),
      (0x10, ''qwertyuiop[]'', ''QWERTYUIOP{}''),
      (0x1E, ''asdfghjkl;'' @ [CHR 0x27, CHR 0x60], ''ASDFGHJKL:'' @ [CHR 0x22, CHR 0x7E]),
      (0x2B, CHR 0x5C # ''zxcvbnm,./'', ''|ZXCVBNM<>?''),
      (0x0E, [CHR 0x08, CHR 0x09], [CHR 0x08, CHR 0x09]), (0x1C, [CHR 0x0D], [CHR 0x0D]), (0x39, '' '', '' '')]"

definition us_layout :: "(nat \<times> char \<times> char) list" where
  "us_layout = concat (map (\<lambda>(start, plain, shifted). zip [start ..< start + length plain] (zip plain shifted)) us_rows)"

text \<open>Shift selects the second character of a key; for letters caps lock reverses the choice.\<close>

definition typed :: "char \<Rightarrow> char \<Rightarrow> bool \<Rightarrow> bool \<Rightarrow> char" where
  "typed plain shifted shift caps =
     (if (if plain \<in> set ''abcdefghijklmnopqrstuvwxyz'' then shift \<noteq> caps else shift) then shifted else plain)"

definition plain_keyboard :: "bool \<Rightarrow> bool \<Rightarrow> keyboard" where
  "plain_keyboard shift caps = \<lparr>kb_buffer = [], kb_head = 0, kb_tail = 0, kb_shift_left = shift, kb_shift_right = False,
     kb_caps_lock = caps, kb_wakeups = 0\<rparr>"

lemma keyboard_char_plain:
  "keyboard_char sc kb = keyboard_char sc (plain_keyboard (kb_shift_left kb \<or> kb_shift_right kb) (kb_caps_lock kb))"
  by (simp add: keyboard_char_def plain_keyboard_def Let_def)

lemma us_layout_typed:
  "list_all (\<lambda>(sc, plain, shifted). key_code (word_of_nat sc) \<and>
     keyboard_char (word_of_nat sc) (plain_keyboard shift caps) = of_char (typed plain shifted shift caps)) us_layout"
  by (cases shift; cases caps; simp only:; code_simp)

lemma us_layout_char:
  assumes "(sc, plain, shifted) \<in> set us_layout"
  shows "key_code (word_of_nat sc)" "keyboard_char (word_of_nat sc) kb =
    of_char (typed plain shifted (kb_shift_left kb \<or> kb_shift_right kb) (kb_caps_lock kb))"
proof -
  have "(\<lambda>(sc, plain, shifted). key_code (word_of_nat sc) \<and>
      keyboard_char (word_of_nat sc) (plain_keyboard (kb_shift_left kb \<or> kb_shift_right kb) (kb_caps_lock kb)) =
      of_char (typed plain shifted (kb_shift_left kb \<or> kb_shift_right kb) (kb_caps_lock kb))) (sc, plain, shifted)"
    using us_layout_typed assms unfolding list_all_iff by blast
  then show "key_code (word_of_nat sc)" "keyboard_char (word_of_nat sc) kb =
      of_char (typed plain shifted (kb_shift_left kb \<or> kb_shift_right kb) (kb_caps_lock kb))"
    unfolding prod.case keyboard_char_plain [of _ kb] by blast+
qed



end
