(* ===== verification/Vfs.thy ===== *)
theory Vfs
  imports Devfs
begin

text \<open>
  The virtual file system, \<^verbatim>\<open>src/fs/vfs.c\<close>: descriptors, shared open files, pipes and mounts. The state
  is generic in the state \<open>'b\<close> of the file systems behind it; the operation tables of the file systems
  are \<open>fs_env\<close>, the record of function pointers the code has in \<open>struct vfs_fs_ops\<close>. An operation that
  does not return has the result None, so has a call of a NULL function pointer. Pointers into the
  arrays are indices; the code between \<open>vfs_interrupt_lock\<close> and \<open>vfs_interrupt_restore\<close> is one step.
  The running task's identifier and working directory are arguments, and \<open>vs_wakeups\<close> counts the
  calls of \<open>task_wake_blocked\<close>.
\<close>

section \<open>State\<close>

definition VFS_MAX_FDS :: int where "VFS_MAX_FDS = 32"
definition VFS_MAX_PROCESSES :: nat where "VFS_MAX_PROCESSES = 16"
definition VFS_DESCRIPTOR_SLOTS :: nat where "VFS_DESCRIPTOR_SLOTS = 512"
definition VFS_MAX_MOUNTS :: nat where "VFS_MAX_MOUNTS = 8"
definition VFS_MAX_PIPES :: nat where "VFS_MAX_PIPES = 16"

record vfs_open_file =
  of_used :: bool
  of_references :: nat
  of_offset :: nat

datatype fs_kind = Ramfs_Ops | Fat32_Ops | Devfs_Ops

record 'b vfs_fs_ops =
  op_read :: "string \<Rightarrow> nat \<Rightarrow> 'b \<Rightarrow> (u8 list option \<times> 'b) option"
  op_write :: "string \<Rightarrow> u8 list \<Rightarrow> 'b \<Rightarrow> (bool \<times> 'b) option"
  op_stat :: "string \<Rightarrow> 'b \<Rightarrow> (nat option \<times> 'b) option"
  op_create :: "string \<Rightarrow> 'b \<Rightarrow> (bool \<times> 'b) option"
  op_readdir :: "string \<Rightarrow> nat \<Rightarrow> 'b \<Rightarrow> ((int \<times> fs_dirent option) \<times> 'b) option"
  op_mkdir :: "string \<Rightarrow> 'b \<Rightarrow> (bool \<times> 'b) option"
  op_unlink :: "string \<Rightarrow> 'b \<Rightarrow> (bool \<times> 'b) option"
  op_rmdir :: "string \<Rightarrow> 'b \<Rightarrow> (bool \<times> 'b) option"
  op_is_directory :: "string \<Rightarrow> 'b \<Rightarrow> (bool \<times> 'b) option"
  op_sync :: "'b \<Rightarrow> (bool \<times> 'b) option"
  op_device :: "(string \<Rightarrow> devfs_device) option"

record 'b fs_env =
  env_ops :: "fs_kind \<Rightarrow> 'b vfs_fs_ops"
  env_fat32_mounted :: "'b \<Rightarrow> bool"
  env_devfs_read :: "devfs_device \<Rightarrow> nat \<Rightarrow> 'b \<Rightarrow> u8 list io \<times> 'b"
  env_devfs_write :: "devfs_device \<Rightarrow> u8 list \<Rightarrow> 'b \<Rightarrow> nat option \<times> 'b"

record mount_struct =
  mt_used :: bool
  mt_removable :: bool
  mt_path :: string
  mt_type :: string
  mt_ops :: fs_kind

record vfs_fd =
  fd_used :: bool
  fd_owner :: u64
  fd_number :: int
  fd_name :: string
  fd_file :: "nat option"
  fd_device :: devfs_device
  fd_pipe :: "nat option"
  fd_pipe_mode :: vfs_pipe_mode

record 'b vfs =
  vs_fds :: "vfs_fd list"
  vs_files :: "vfs_open_file list"
  vs_mounts :: "mount_struct list"
  vs_pipes :: "pipe_struct list"
  vs_wakeups :: nat
  vs_backend :: 'b

section \<open>Open files and pipes\<close>

definition with_pipe :: "nat option \<Rightarrow> (pipe_struct \<Rightarrow> pipe_struct) \<Rightarrow> 'b vfs \<Rightarrow> 'b vfs" where
  "with_pipe p f st = (case p of None \<Rightarrow> st | Some i \<Rightarrow> st\<lparr>vs_pipes := (vs_pipes st)[i := f (vs_pipes st ! i)]\<rparr>)"

definition allocate_open_file_locked :: "'b vfs \<Rightarrow> nat option \<times> 'b vfs" where
  "allocate_open_file_locked st =
     (case first_index (\<lambda>f. \<not> of_used f) (vs_files st) of
        None \<Rightarrow> (None, st)
      | Some i \<Rightarrow> (Some i, st\<lparr>vs_files := (vs_files st)[i := \<lparr>of_used = True, of_references = 1, of_offset = 0\<rparr>]\<rparr>))"

definition open_file_retain_locked :: "nat option \<Rightarrow> 'b vfs \<Rightarrow> 'b vfs" where
  "open_file_retain_locked file st =
     (case file of None \<Rightarrow> st
      | Some i \<Rightarrow> st\<lparr>vs_files := (vs_files st)[i := (vs_files st ! i)\<lparr>of_references := of_references (vs_files st ! i) + 1\<rparr>]\<rparr>)"

definition open_file_release_locked :: "nat option \<Rightarrow> 'b vfs \<Rightarrow> 'b vfs" where
  "open_file_release_locked file st =
     (case file of None \<Rightarrow> st
      | Some i \<Rightarrow>
          let f = vs_files st ! i in
          if of_references f = 0 then st
          else if of_references f - 1 = 0
          then st\<lparr>vs_files := (vs_files st)[i := \<lparr>of_used = False, of_references = 0, of_offset = 0\<rparr>]\<rparr>
          else st\<lparr>vs_files := (vs_files st)[i := f\<lparr>of_references := of_references f - 1\<rparr>]\<rparr>)"

definition open_file_retain :: "nat option \<Rightarrow> 'b vfs \<Rightarrow> 'b vfs" where
  "open_file_retain file st = open_file_retain_locked file st"

section \<open>Descriptors\<close>

definition lookup :: "u64 \<Rightarrow> int \<Rightarrow> 'b vfs \<Rightarrow> nat option" where
  "lookup owner number st =
     first_index (\<lambda>fd. fd_used fd \<and> fd_owner fd = owner \<and> fd_number fd = number) (vs_fds st)"

definition allocate_slot :: "'b vfs \<Rightarrow> nat option" where
  "allocate_slot st = first_index (\<lambda>fd. \<not> fd_used fd) (vs_fds st)"

definition set_fd :: "nat \<Rightarrow> vfs_fd \<Rightarrow> 'b vfs \<Rightarrow> 'b vfs" where
  "set_fd i fd st = st\<lparr>vs_fds := (vs_fds st)[i := fd]\<rparr>"

definition wake :: "bool \<Rightarrow> 'b vfs \<Rightarrow> 'b vfs" where
  "wake b st = (if b then st\<lparr>vs_wakeups := vs_wakeups st + 1\<rparr> else st)"

definition stream_name :: "int \<Rightarrow> string" where
  "stream_name number = [''stdin'', ''stdout'', ''stderr''] ! nat number"

definition stream_fd :: "u64 \<Rightarrow> int \<Rightarrow> vfs_fd" where
  "stream_fd owner number = \<lparr>fd_used = True, fd_owner = owner, fd_number = number, fd_name = stream_name number,
     fd_file = None, fd_device = DEVFS_DEVICE_CONSOLE, fd_pipe = None, fd_pipe_mode = VFS_PIPE_NONE\<rparr>"

fun ensure_streams_from :: "u64 \<Rightarrow> int list \<Rightarrow> 'b vfs \<Rightarrow> 'b vfs" where
  "ensure_streams_from owner [] st = st"
| "ensure_streams_from owner (number # numbers) st =
     (if lookup owner number st \<noteq> None then ensure_streams_from owner numbers st
      else
        (case allocate_slot st of
           None \<Rightarrow> st
         | Some i \<Rightarrow> ensure_streams_from owner numbers (set_fd i (stream_fd owner number) st)))"

definition ensure_standard_streams :: "u64 \<Rightarrow> 'b vfs \<Rightarrow> 'b vfs" where
  "ensure_standard_streams owner st = ensure_streams_from owner [0, 1, 2] st"

section \<open>Paths and mounts\<close>

definition path_has_prefix :: "string \<Rightarrow> string \<Rightarrow> bool" where
  "path_has_prefix pathname prefix =
     (case strip_prefix prefix pathname of None \<Rightarrow> False | Some rest \<Rightarrow> rest = [] \<or> hd rest = CHR ''/'')"

fun best_mount :: "string \<Rightarrow> mount_struct list \<Rightarrow> mount_struct option \<Rightarrow> nat \<Rightarrow> mount_struct option \<times> nat" where
  "best_mount pathname [] best best_length = (best, best_length)"
| "best_mount pathname (m # ms) best best_length =
     (if \<not> mt_used m \<or> \<not> path_has_prefix pathname (mt_path m) then best_mount pathname ms best best_length
      else if best_length \<le> length (mt_path m) then best_mount pathname ms (Some m) (length (mt_path m))
      else best_mount pathname ms best best_length)"

definition find_mount :: "string \<Rightarrow> 'b vfs \<Rightarrow> (mount_struct \<times> string) option" where
  "find_mount pathname st =
     (case best_mount pathname (vs_mounts st) None 0 of
        (None, _) \<Rightarrow> None
      | (Some m, best_length) \<Rightarrow>
          let rest = drop best_length pathname
          in Some (m, if rest \<noteq> [] \<and> hd rest = CHR ''/'' then tl rest else rest))"

definition path_ops :: "string \<Rightarrow> 'b vfs \<Rightarrow> fs_kind \<times> string" where
  "path_ops pathname st =
     (case find_mount pathname st of
        Some (m, relative) \<Rightarrow> (mt_ops m, relative)
      | None \<Rightarrow> (Ramfs_Ops, pathname))"

definition install_mount :: "string \<Rightarrow> string \<Rightarrow> fs_kind \<Rightarrow> bool \<Rightarrow> 'b vfs \<Rightarrow> bool \<times> 'b vfs" where
  "install_mount pathname type ops removable st =
     (if list_ex (\<lambda>m. mt_used m \<and> name_equal (mt_path m) pathname) (vs_mounts st) then (False, st)
      else
        (case first_index (\<lambda>m. \<not> mt_used m) (vs_mounts st) of
           None \<Rightarrow> (False, st)
         | Some i \<Rightarrow>
             (True, st\<lparr>vs_mounts := (vs_mounts st)[i := \<lparr>mt_used = True, mt_removable = removable,
                mt_path = pathname, mt_type = type, mt_ops = ops\<rparr>]\<rparr>)))"

text \<open>
  \<open>resolve_path\<close> builds an absolute name in a buffer of \<open>capacity\<close> characters. The output so far is
  \<open>out\<close>; \<open>pop_component\<close> is the loop that removes the last component for a \<open>..\<close>.
\<close>

function pop_component :: "string \<Rightarrow> string" where
  "pop_component out = (if 1 < length out \<and> last out \<noteq> CHR ''/'' then pop_component (butlast out) else out)"
  by auto
termination by (relation "measure length") auto

declare pop_component.simps [simp del]

definition parent_of :: "string \<Rightarrow> string" where
  "parent_of out =
     (if 1 < length out then pop_component (if last out = CHR ''/'' then butlast out else out) else out)"

function resolve_loop :: "nat \<Rightarrow> string \<Rightarrow> string \<Rightarrow> string option" where
  "resolve_loop capacity out input =
     (if input = [] then Some out
      else
        let part = takeWhile (\<lambda>c. c \<noteq> CHR ''/'') input;
            rest = dropWhile (\<lambda>c. c = CHR ''/'') (dropWhile (\<lambda>c. c \<noteq> CHR ''/'') input)
        in if part = [] \<or> part = ''.'' then resolve_loop capacity out rest
           else if part = ''..'' then resolve_loop capacity (parent_of out) rest
           else
             let slash = (1 < length out \<and> last out \<noteq> CHR ''/'')
             in if slash \<and> capacity - 1 \<le> length out then None
                else
                  let out1 = (if slash then out @ ''/'' else out)
                  in if capacity \<le> length out1 + length part then None
                     else resolve_loop capacity (out1 @ part) rest)"
  by auto

lemma rest_shorter:
  "input \<noteq> [] \<Longrightarrow> length (dropWhile (\<lambda>c. c = s) (dropWhile (\<lambda>c. c \<noteq> s) input)) < length input"
proof (cases input)
  case (Cons a xs)
  have le: "length (dropWhile P ys) \<le> length ys" for P :: "'a \<Rightarrow> bool" and ys by (rule length_dropWhile_le)
  show ?thesis
  proof (cases "a = s")
    case True
    then show ?thesis using Cons le [of "\<lambda>c. c = s" xs] by simp
  next
    case False
    then show ?thesis using Cons le [of "\<lambda>c. c \<noteq> s" xs] le [of "\<lambda>c. c = s" "dropWhile (\<lambda>c. c \<noteq> s) xs"] by simp
  qed
qed simp

termination resolve_loop
  by (relation "measure (\<lambda>(capacity, out, input). length input)") (auto simp: rest_shorter)

declare resolve_loop.simps [simp del]

definition resolve_path :: "string option \<Rightarrow> string \<Rightarrow> nat \<Rightarrow> string option" where
  "resolve_path cwd input capacity =
     (if capacity < 2 then None
      else
        let start = (if input \<noteq> [] \<and> hd input = CHR ''/'' then Some (''/'', dropWhile (\<lambda>c. c = CHR ''/'') input)
                     else (case cwd of None \<Rightarrow> None | Some d \<Rightarrow> Some (take (capacity - 1) d, input)))
        in (case start of
              None \<Rightarrow> None
            | Some (out, rest) \<Rightarrow> map_option (\<lambda>o'. if o' = [] then ''/'' else o') (resolve_loop capacity out rest)))"

definition vfs_init :: "'b vfs \<Rightarrow> 'b vfs" where
  "vfs_init st =
     (let st1 = st\<lparr>vs_fds := map (\<lambda>fd. fd\<lparr>fd_used := False\<rparr>) (vs_fds st),
                   vs_files := map (\<lambda>f. f\<lparr>of_used := False\<rparr>) (vs_files st),
                   vs_mounts := map (\<lambda>m. m\<lparr>mt_used := False\<rparr>) (vs_mounts st),
                   vs_pipes := map (\<lambda>p. p\<lparr>pp_used := False\<rparr>) (vs_pipes st)\<rparr>;
          st2 = snd (install_mount ''/dev'' ''devfs'' Devfs_Ops False st1)
      in ensure_standard_streams 0 st2)"

section \<open>Descriptor operations\<close>

definition free_number :: "u64 \<Rightarrow> int \<Rightarrow> 'b vfs \<Rightarrow> int option" where
  "free_number owner lowest st = find (\<lambda>number. lookup owner number st = None) [lowest .. VFS_MAX_FDS - 1]"

definition vfs_open_fd :: "'b fs_env \<Rightarrow> u64 \<Rightarrow> string \<Rightarrow> fs_kind \<Rightarrow> string \<Rightarrow> 'b vfs \<Rightarrow> int \<times> 'b vfs" where
  "vfs_open_fd env owner name ops backend st =
     (case free_number owner 3 st of
        None \<Rightarrow> (-1, st)
      | Some number \<Rightarrow>
          let slot = allocate_slot st;
              (file, st1) = allocate_open_file_locked st
          in (case (slot, file) of
                (Some i, Some f) \<Rightarrow>
                  (number, set_fd i \<lparr>fd_used = True, fd_owner = owner, fd_number = number, fd_name = name, fd_file = Some f,
                     fd_device = (case op_device (env_ops env ops) of None \<Rightarrow> DEVFS_DEVICE_NONE | Some d \<Rightarrow> d backend),
                     fd_pipe = None, fd_pipe_mode = VFS_PIPE_NONE\<rparr> st1)
              | _ \<Rightarrow> (-1, open_file_release_locked file st1)))"

definition vfs_open :: "'b fs_env \<Rightarrow> u64 \<Rightarrow> string option \<Rightarrow> string \<Rightarrow> bool \<Rightarrow> 'b vfs \<Rightarrow> (int \<times> 'b vfs) option" where
  "vfs_open env owner cwd name create st =
     (if name = [] \<or> RAMFS_NAME_SIZE \<le> length name then Some (-1, st)
      else
        (case resolve_path cwd name RAMFS_NAME_SIZE of
           None \<Rightarrow> Some (-1, st)
         | Some absolute \<Rightarrow>
             let (ops, backend) = path_ops absolute st in
             do {
               (size, b1) \<leftarrow> op_stat (env_ops env ops) backend (vs_backend st);
               (ok, b2) \<leftarrow> (if size \<noteq> None then Some (True, b1)
                            else if \<not> create then Some (False, b1)
                            else op_create (env_ops env ops) backend b1);
               let st1 = st\<lparr>vs_backend := b2\<rparr>;
               if \<not> ok then Some (-1, st1)
               else Some (vfs_open_fd env owner absolute ops backend (ensure_standard_streams owner st1))
             }))"

fun first_two :: "('a \<Rightarrow> bool) \<Rightarrow> 'a list \<Rightarrow> 'a list" where
  "first_two P xs = take 2 (filter P xs)"

definition pipe_fd :: "u64 \<Rightarrow> int \<Rightarrow> nat \<Rightarrow> vfs_pipe_mode \<Rightarrow> vfs_fd" where
  "pipe_fd owner number pipe mode = \<lparr>fd_used = True, fd_owner = owner, fd_number = number, fd_name = ''[pipe]'',
     fd_file = None, fd_device = DEVFS_DEVICE_NONE, fd_pipe = Some pipe, fd_pipe_mode = mode\<rparr>"

definition vfs_pipe :: "u64 \<Rightarrow> 'b vfs \<Rightarrow> (int \<times> int) option \<times> 'b vfs" where
  "vfs_pipe owner st0 =
     (let st = ensure_standard_streams owner st0;
          pipe = first_index (\<lambda>p. \<not> pp_used p) (vs_pipes st);
          numbers = first_two (\<lambda>number. lookup owner number st = None) [3 .. VFS_MAX_FDS - 1];
          slots = first_two (\<lambda>i. \<not> fd_used (vs_fds st ! i)) [0 ..< length (vs_fds st)]
      in (case (pipe, numbers, slots) of
            (Some p, [n0, n1], [s0, s1]) \<Rightarrow>
              (Some (n0, n1),
               set_fd s1 (pipe_fd owner n1 p VFS_PIPE_WRITE)
                 (set_fd s0 (pipe_fd owner n0 p VFS_PIPE_READ)
                   (with_pipe (Some p) (\<lambda>pipe. pipe\<lparr>pp_used := True, pp_readers := 1, pp_writers := 1,
                      pp_head := 0, pp_tail := 0, pp_count := 0\<rparr>) st)))
          | _ \<Rightarrow> (None, st)))"

text \<open>The end of \<open>vfs_dup\<close> and \<open>vfs_dup2\<close>: a copy of a descriptor shares its open file and pipe.\<close>

definition share_fd :: "nat \<Rightarrow> vfs_fd \<Rightarrow> 'b vfs \<Rightarrow> 'b vfs" where
  "share_fd i fd st =
     (let st1 = open_file_retain_locked (fd_file fd) (set_fd i fd st);
          st2 = (if fd_pipe_mode fd = VFS_PIPE_READ
                 then with_pipe (fd_pipe fd) (\<lambda>p. p\<lparr>pp_readers := pp_readers p + 1\<rparr>) st1 else st1)
      in if fd_pipe_mode fd = VFS_PIPE_WRITE
         then with_pipe (fd_pipe fd) (\<lambda>p. p\<lparr>pp_writers := pp_writers p + 1\<rparr>) st2 else st2)"

definition vfs_dup :: "u64 \<Rightarrow> int \<Rightarrow> 'b vfs \<Rightarrow> int \<times> 'b vfs" where
  "vfs_dup owner number st0 =
     (let st = ensure_standard_streams owner st0 in
      (case lookup owner number st of
         None \<Rightarrow> (-1, st)
       | Some source \<Rightarrow>
           (case (free_number owner 0 st, allocate_slot st) of
              (Some destination, Some target) \<Rightarrow>
                (destination, share_fd target
                   ((vs_fds st ! source)\<lparr>fd_owner := owner, fd_number := destination, fd_used := True\<rparr>) st)
            | _ \<Rightarrow> (-1, st))))"

definition drop_fd :: "nat \<Rightarrow> 'b vfs \<Rightarrow> 'b vfs" where
  "drop_fd i st =
     (let fd = vs_fds st ! i in
      open_file_release_locked (fd_file fd)
        (with_pipe (fd_pipe fd) (pipe_drop_reference_locked (fd_pipe_mode fd)) st))"

definition vfs_dup2 :: "u64 \<Rightarrow> int \<Rightarrow> int \<Rightarrow> 'b vfs \<Rightarrow> int \<times> 'b vfs" where
  "vfs_dup2 owner source_number destination_number st0 =
     (if destination_number < 0 \<or> VFS_MAX_FDS \<le> destination_number then (-1, st0)
      else
        let st = ensure_standard_streams owner st0 in
        (case lookup owner source_number st of
           None \<Rightarrow> (-1, st)
         | Some source \<Rightarrow>
             if source_number = destination_number then (destination_number, st)
             else
               let saved = vs_fds st ! source in
               (case (case lookup owner destination_number st of Some t \<Rightarrow> Some t | None \<Rightarrow> allocate_slot st) of
                  None \<Rightarrow> (-1, st)
                | Some target \<Rightarrow>
                    let st1 = (if fd_used (vs_fds st ! target) then drop_fd target st else st);
                        st2 = share_fd target (saved\<lparr>fd_owner := owner, fd_number := destination_number, fd_used := True\<rparr>) st1
                    in (destination_number, wake True st2))))"

definition clear_fd :: "nat \<Rightarrow> 'b vfs \<Rightarrow> 'b vfs" where
  "clear_fd i st =
     (let st1 = drop_fd i st
      in set_fd i ((vs_fds st1 ! i)\<lparr>fd_used := False, fd_file := None, fd_pipe := None, fd_pipe_mode := VFS_PIPE_NONE\<rparr>) st1)"

definition vfs_close :: "u64 \<Rightarrow> int \<Rightarrow> 'b vfs \<Rightarrow> int \<times> 'b vfs" where
  "vfs_close owner number st =
     (case lookup owner number st of
        None \<Rightarrow> (-1, st)
      | Some i \<Rightarrow>
          if number < 3 then (-1, st)
          else (0, wake (fd_pipe_mode (vs_fds st ! i) \<noteq> VFS_PIPE_NONE) (clear_fd i st)))"

fun close_all_from :: "u64 \<Rightarrow> nat list \<Rightarrow> bool \<Rightarrow> 'b vfs \<Rightarrow> bool \<times> 'b vfs" where
  "close_all_from owner [] closed_pipe st = (closed_pipe, st)"
| "close_all_from owner (i # is) closed_pipe st =
     (let fd = vs_fds st ! i in
      if fd_used fd \<and> fd_owner fd = owner
      then close_all_from owner is (closed_pipe \<or> fd_pipe_mode fd \<noteq> VFS_PIPE_NONE) (clear_fd i st)
      else close_all_from owner is closed_pipe st)"

definition vfs_close_all :: "u64 \<Rightarrow> 'b vfs \<Rightarrow> 'b vfs" where
  "vfs_close_all owner st =
     (case close_all_from owner [0 ..< length (vs_fds st)] False st of (closed_pipe, st1) \<Rightarrow> wake closed_pipe st1)"

fun inherit_from :: "u64 \<Rightarrow> u64 \<Rightarrow> int list \<Rightarrow> 'b vfs \<Rightarrow> bool \<times> 'b vfs" where
  "inherit_from parent child [] st = (True, st)"
| "inherit_from parent child (number # numbers) st =
     (case (lookup parent number st, allocate_slot st) of
        (Some source, Some target) \<Rightarrow>
          let fd = (vs_fds st ! source)\<lparr>fd_owner := child\<rparr>
          in inherit_from parent child numbers
               (with_pipe (fd_pipe fd) (pipe_retain_reference (fd_pipe_mode fd))
                 (open_file_retain (fd_file fd) (set_fd target fd st)))
      | _ \<Rightarrow> (False, vfs_close_all child st))"

definition vfs_inherit_standard :: "u64 \<Rightarrow> u64 \<Rightarrow> 'b vfs \<Rightarrow> bool \<times> 'b vfs" where
  "vfs_inherit_standard parent child st =
     inherit_from parent child [0, 1, 2] (vfs_close_all child (ensure_standard_streams parent st))"

fun fork_from :: "u64 \<Rightarrow> u64 \<Rightarrow> nat list \<Rightarrow> bool \<Rightarrow> 'b vfs \<Rightarrow> bool \<times> 'b vfs" where
  "fork_from parent child [] inherited_pipe st = (True, wake inherited_pipe st)"
| "fork_from parent child (i # is) inherited_pipe st =
     (let source = vs_fds st ! i in
      if \<not> fd_used source \<or> fd_owner source \<noteq> parent then fork_from parent child is inherited_pipe st
      else
        (case allocate_slot st of
           None \<Rightarrow> (False, vfs_close_all child st)
         | Some target \<Rightarrow>
             let fd = source\<lparr>fd_owner := child, fd_used := True\<rparr>;
                 live = (case fd_pipe fd of None \<Rightarrow> False | Some p \<Rightarrow> fd_pipe_mode fd \<noteq> VFS_PIPE_NONE \<and> pp_used (vs_pipes st ! p))
             in fork_from parent child is (inherited_pipe \<or> live)
                  (with_pipe (fd_pipe fd) (pipe_retain_reference (fd_pipe_mode fd))
                    (open_file_retain_locked (fd_file fd) (set_fd target fd st)))))"

definition vfs_fork :: "u64 \<Rightarrow> u64 \<Rightarrow> 'b vfs \<Rightarrow> bool \<times> 'b vfs" where
  "vfs_fork parent child st0 =
     (let st = vfs_close_all child (ensure_standard_streams parent st0);
          needed = length (filter (\<lambda>fd. fd_used fd \<and> fd_owner fd = parent) (vs_fds st));
          available = length (filter (\<lambda>fd. \<not> fd_used fd) (vs_fds st))
      in if available < needed then (False, st)
         else fork_from parent child [0 ..< length (vs_fds st)] False st)"

section \<open>Reading and writing\<close>

definition vfs_read :: "'b fs_env \<Rightarrow> u64 \<Rightarrow> int \<Rightarrow> nat \<Rightarrow> 'b vfs \<Rightarrow> (u8 list io \<times> 'b vfs) option" where
  "vfs_read env owner number len st0 =
     (let st = ensure_standard_streams owner st0 in
      (case lookup owner number st of
         None \<Rightarrow> Some (Failed, st)
       | Some i \<Rightarrow>
           let fd = vs_fds st ! i in
           if fd_pipe_mode fd \<noteq> VFS_PIPE_NONE
           then (case fd_pipe fd of
                   None \<Rightarrow> Some (Failed, st)
                 | Some p \<Rightarrow>
                     (case pipe_read (fd_pipe_mode fd) len (vs_pipes st ! p) of
                        ((r, woken), pipe) \<Rightarrow> Some (r, wake woken (st\<lparr>vs_pipes := (vs_pipes st)[p := pipe]\<rparr>))))
           else if number = 1 \<or> number = 2 then Some (Failed, st)
           else if fd_device fd \<noteq> DEVFS_DEVICE_NONE
           then (case env_devfs_read env (fd_device fd) len (vs_backend st) of
                   (r, b) \<Rightarrow> Some (r, st\<lparr>vs_backend := b\<rparr>))
           else if number < 3 then Some (Failed, st)
           else
             let (ops, backend) = path_ops (fd_name fd) st in
             (case fd_file fd of
                None \<Rightarrow> Some (Failed, st)
              | Some f \<Rightarrow> do {
                  (data, b) \<leftarrow> op_read (env_ops env ops) backend RAMFS_DATA_SIZE (vs_backend st);
                  let st1 = st\<lparr>vs_backend := b\<rparr>;
                  Some (case data of
                    None \<Rightarrow> (Failed, st1)
                  | Some bytes \<Rightarrow>
                      let file = vs_files st ! f; offset = of_offset file in
                      if length bytes \<le> offset then (Finished [], st1)
                      else
                        let n = (if len < length bytes - offset then len else length bytes - offset)
                        in (Finished (take n (drop offset bytes)),
                            st1\<lparr>vs_files := (vs_files st)[f := file\<lparr>of_offset := offset + n\<rparr>]\<rparr>))
                })))"

definition vfs_write :: "'b fs_env \<Rightarrow> u64 \<Rightarrow> int \<Rightarrow> u8 list \<Rightarrow> 'b vfs \<Rightarrow> (nat io \<times> 'b vfs) option" where
  "vfs_write env owner number buffer st0 =
     (let st = ensure_standard_streams owner st0 in
      (case lookup owner number st of
         None \<Rightarrow> Some (Failed, st)
       | Some i \<Rightarrow>
           let fd = vs_fds st ! i in
           if RAMFS_DATA_SIZE < length buffer then Some (Failed, st)
           else if fd_pipe_mode fd \<noteq> VFS_PIPE_NONE
           then (case fd_pipe fd of
                   None \<Rightarrow> Some (Failed, st)
                 | Some p \<Rightarrow>
                     (case pipe_write (fd_pipe_mode fd) buffer (vs_pipes st ! p) of
                        ((r, woken), pipe) \<Rightarrow> Some (r, wake woken (st\<lparr>vs_pipes := (vs_pipes st)[p := pipe]\<rparr>))))
           else if number = 0 then Some (Failed, st)
           else if fd_device fd \<noteq> DEVFS_DEVICE_NONE
           then (case env_devfs_write env (fd_device fd) buffer (vs_backend st) of
                   (r, b) \<Rightarrow> Some (case r of None \<Rightarrow> Failed | Some n \<Rightarrow> Finished n, st\<lparr>vs_backend := b\<rparr>))
           else
             let (ops, backend) = path_ops (fd_name fd) st in
             (case fd_file fd of
                None \<Rightarrow> Some (Failed, st)
              | Some f \<Rightarrow> do {
                  (ok, b) \<leftarrow> op_write (env_ops env ops) backend buffer (vs_backend st);
                  let st1 = st\<lparr>vs_backend := b\<rparr>;
                  Some (if \<not> ok then (Failed, st1)
                        else (Finished (length buffer),
                              st1\<lparr>vs_files := (vs_files st)[f := (vs_files st ! f)\<lparr>of_offset := length buffer\<rparr>]\<rparr>))
                })))"

definition vfs_seek :: "'b fs_env \<Rightarrow> u64 \<Rightarrow> int \<Rightarrow> int \<Rightarrow> int \<Rightarrow> 'b vfs \<Rightarrow> (int \<times> 'b vfs) option" where
  "vfs_seek env owner number offset whence st =
     (case lookup owner number st of
        None \<Rightarrow> Some (-1, st)
      | Some i \<Rightarrow>
          let fd = vs_fds st ! i in
          (case fd_file fd of
             None \<Rightarrow> Some (-1, st)
           | Some f \<Rightarrow>
               if number < 3 \<or> fd_device fd \<noteq> DEVFS_DEVICE_NONE \<or> fd_pipe_mode fd \<noteq> VFS_PIPE_NONE then Some (-1, st)
               else
                 let (ops, backend) = path_ops (fd_name fd) st in
                 do {
                   (size, b) \<leftarrow> op_stat (env_ops env ops) backend (vs_backend st);
                   let st1 = st\<lparr>vs_backend := b\<rparr>;
                   Some (case size of
                     None \<Rightarrow> (-1, st1)
                   | Some n \<Rightarrow>
                       let file = vs_files st ! f;
                           base = (if whence = 0 then 0 else if whence = 1 then int (of_offset file)
                                   else if whence = 2 then int n else -1)
                       in if base < 0 \<or> offset < - base \<or> base + offset < 0 \<or> int n < base + offset then (-1, st1)
                          else (base + offset,
                                st1\<lparr>vs_files := (vs_files st)[f := file\<lparr>of_offset := nat (base + offset)\<rparr>]\<rparr>))
                 }))"

section \<open>Names\<close>

definition with_backend :: "('b \<Rightarrow> ('r \<times> 'b) option) \<Rightarrow> 'b vfs \<Rightarrow> ('r \<times> 'b vfs) option" where
  "with_backend f st = map_option (\<lambda>(r, b). (r, st\<lparr>vs_backend := b\<rparr>)) (f (vs_backend st))"

text \<open>Resolve a name, find its file system and run one of its operations on the rest of the name.\<close>

definition on_path :: "'b fs_env \<Rightarrow> string option \<Rightarrow> string \<Rightarrow> 'r \<Rightarrow> ('b vfs_fs_ops \<Rightarrow> string \<Rightarrow> 'b \<Rightarrow> ('r \<times> 'b) option) \<Rightarrow>
  'b vfs \<Rightarrow> ('r \<times> 'b vfs) option" where
  "on_path env cwd name failure operation st =
     (case resolve_path cwd name RAMFS_NAME_SIZE of
        None \<Rightarrow> Some (failure, st)
      | Some absolute \<Rightarrow>
          (case path_ops absolute st of (ops, backend) \<Rightarrow> with_backend (operation (env_ops env ops) backend) st))"

definition vfs_stat :: "'b fs_env \<Rightarrow> string option \<Rightarrow> string \<Rightarrow> 'b vfs \<Rightarrow> (nat option \<times> 'b vfs) option" where
  "vfs_stat env cwd name st = on_path env cwd name None op_stat st"

definition vfs_readdir :: "'b fs_env \<Rightarrow> string option \<Rightarrow> string \<Rightarrow> nat \<Rightarrow> 'b vfs \<Rightarrow> ((int \<times> fs_dirent option) \<times> 'b vfs) option" where
  "vfs_readdir env cwd name index st = on_path env cwd name (-1, None) (\<lambda>ops backend. op_readdir ops backend index) st"

definition vfs_mkdir :: "'b fs_env \<Rightarrow> string option \<Rightarrow> string \<Rightarrow> 'b vfs \<Rightarrow> (bool \<times> 'b vfs) option" where
  "vfs_mkdir env cwd name st = on_path env cwd name False op_mkdir st"

definition vfs_unlink :: "'b fs_env \<Rightarrow> string option \<Rightarrow> string \<Rightarrow> 'b vfs \<Rightarrow> (bool \<times> 'b vfs) option" where
  "vfs_unlink env cwd name st = on_path env cwd name False op_unlink st"

definition vfs_rmdir :: "'b fs_env \<Rightarrow> string option \<Rightarrow> string \<Rightarrow> 'b vfs \<Rightarrow> (bool \<times> 'b vfs) option" where
  "vfs_rmdir env cwd name st = on_path env cwd name False op_rmdir st"

definition vfs_is_directory :: "'b fs_env \<Rightarrow> string option \<Rightarrow> string \<Rightarrow> 'b vfs \<Rightarrow> (bool \<times> 'b vfs) option" where
  "vfs_is_directory env cwd name st =
     (case resolve_path cwd name RAMFS_NAME_SIZE of
        None \<Rightarrow> Some (False, st)
      | Some absolute \<Rightarrow>
          if name_equal absolute ''/'' then Some (True, st)
          else if (case find_mount absolute st of Some (m, _) \<Rightarrow> name_equal absolute (mt_path m) | None \<Rightarrow> False)
          then Some (True, st)
          else (case path_ops absolute st of (ops, backend) \<Rightarrow> with_backend (op_is_directory (env_ops env ops) backend) st))"

fun sync_mounts :: "'b fs_env \<Rightarrow> mount_struct list \<Rightarrow> 'b vfs \<Rightarrow> (bool \<times> 'b vfs) option" where
  "sync_mounts env [] st = Some (True, st)"
| "sync_mounts env (m # ms) st =
     (if \<not> mt_used m then sync_mounts env ms st
      else do {
        (ok, st1) \<leftarrow> with_backend (op_sync (env_ops env (mt_ops m))) st;
        if \<not> ok then Some (False, st1) else sync_mounts env ms st1
      })"

definition vfs_sync :: "'b fs_env \<Rightarrow> 'b vfs \<Rightarrow> (bool \<times> 'b vfs) option" where
  "vfs_sync env st = sync_mounts env (vs_mounts st) st"

definition vfs_mount :: "'b fs_env \<Rightarrow> string option \<Rightarrow> string \<Rightarrow> string \<Rightarrow> 'b vfs \<Rightarrow> (bool \<times> 'b vfs) option" where
  "vfs_mount env cwd type target st =
     (if \<not> name_equal type ''fat32'' \<or> \<not> env_fat32_mounted env (vs_backend st) then Some (False, st)
      else
        (case resolve_path cwd target FS_PATH_MAX of
           None \<Rightarrow> Some (False, st)
         | Some absolute \<Rightarrow>
             if name_equal absolute ''/'' then Some (False, st)
             else do {
               (ok, st1) \<leftarrow> vfs_is_directory env cwd absolute st;
               if \<not> ok then Some (False, st1)
               else Some (install_mount absolute ''fat32'' Fat32_Ops True st1)
             }))"

definition vfs_mount_info :: "nat \<Rightarrow> 'b vfs \<Rightarrow> (string \<times> string) option" where
  "vfs_mount_info index st =
     (if index = 0 then Some (''ramfs'', ''/'')
      else
        let used = filter mt_used (vs_mounts st)
        in if index - 1 < length used then Some (mt_type (used ! (index - 1)), mt_path (used ! (index - 1))) else None)"

definition vfs_unmount :: "'b fs_env \<Rightarrow> string option \<Rightarrow> (string \<Rightarrow> bool) \<Rightarrow> string \<Rightarrow> 'b vfs \<Rightarrow> (bool \<times> 'b vfs) option" where
  "vfs_unmount env cwd process_cwd_in_mount target st =
     (case resolve_path cwd target FS_PATH_MAX of
        None \<Rightarrow> Some (False, st)
      | Some absolute \<Rightarrow>
          if name_equal absolute ''/'' then Some (False, st)
          else
            (case first_index (\<lambda>m. mt_used m \<and> name_equal (mt_path m) absolute) (vs_mounts st) of
               None \<Rightarrow> Some (False, st)
             | Some k \<Rightarrow>
                 if \<not> mt_removable (vs_mounts st ! k) \<or> process_cwd_in_mount absolute then Some (False, st)
                 else if list_ex (\<lambda>i. i \<noteq> k \<and> mt_used (vs_mounts st ! i) \<and> path_has_prefix (mt_path (vs_mounts st ! i)) absolute)
                           [0 ..< length (vs_mounts st)]
                 then Some (False, st)
                 else if list_ex (\<lambda>fd. fd_used fd \<and> 3 \<le> fd_number fd \<and> path_has_prefix (fd_name fd) absolute) (vs_fds st)
                 then Some (False, st)
                 else do {
                   (ok, st1) \<leftarrow> with_backend (op_sync (env_ops env (mt_ops (vs_mounts st ! k)))) st;
                   if \<not> ok then Some (False, st1)
                   else Some (True, st1\<lparr>vs_mounts := (vs_mounts st1)[k := (vs_mounts st1 ! k)\<lparr>mt_used := False,
                          mt_path := [], mt_type := [], mt_removable := False\<rparr>]\<rparr>)
                 }))"

text \<open>The tables as the program is loaded: the arrays are static, so zero.\<close>

definition vfs_static :: "'b \<Rightarrow> 'b vfs" where
  "vfs_static b = \<lparr>
     vs_fds = replicate VFS_DESCRIPTOR_SLOTS \<lparr>fd_used = False, fd_owner = 0, fd_number = 0, fd_name = [], fd_file = None,
       fd_device = DEVFS_DEVICE_NONE, fd_pipe = None, fd_pipe_mode = VFS_PIPE_NONE\<rparr>,
     vs_files = replicate VFS_DESCRIPTOR_SLOTS \<lparr>of_used = False, of_references = 0, of_offset = 0\<rparr>,
     vs_mounts = replicate VFS_MAX_MOUNTS \<lparr>mt_used = False, mt_removable = False, mt_path = [], mt_type = [], mt_ops = Ramfs_Ops\<rparr>,
     vs_pipes = replicate VFS_MAX_PIPES \<lparr>pp_used = False, pp_readers = 0, pp_writers = 0, pp_head = 0, pp_tail = 0, pp_count = 0,
       pp_data = replicate VFS_PIPE_CAPACITY 0\<rparr>,
     vs_wakeups = 0, vs_backend = b\<rparr>"

end
