(* ===== verification/Vfs_Names.thy ===== *)
theory Vfs_Names
  imports Vfs
begin

text \<open>
  The names of the virtual file system: resolving a name against the working directory, and choosing the
  file system that handles a resolved name.
\<close>

section \<open>Names are normalised\<close>

text \<open>The components of a name, and what \<open>.\<close> and \<open>..\<close> mean for a sequence of them.\<close>

primrec segments :: "string \<Rightarrow> string list" where
  "segments [] = [[]]"
| "segments (c # s) = (if c = CHR ''/'' then [] # segments s else (c # hd (segments s)) # tl (segments s))"

definition path_parts :: "string \<Rightarrow> string list" where
  "path_parts s = filter (\<lambda>x. x \<noteq> []) (segments s)"

definition walk :: "string list \<Rightarrow> string \<Rightarrow> string list" where
  "walk ps c = (if c = ''.'' then ps else if c = ''..'' then butlast ps else ps @ [c])"

definition slashed :: "string list \<Rightarrow> string" where
  "slashed ps = concat (map (\<lambda>p. CHR ''/'' # p) ps)"

text \<open>An absolute name with these components and single slashes, possibly one at the end.\<close>

definition names_path :: "string list \<Rightarrow> string \<Rightarrow> bool" where
  "names_path ps s \<longleftrightarrow> (\<forall>p \<in> set ps. p \<noteq> [] \<and> CHR ''/'' \<notin> set p) \<and> (ps \<noteq> [] \<and> s = slashed ps \<or> s = slashed ps @ ''/'')"

lemma segments_ne [simp]: "segments s \<noteq> []"
  by (induction s) auto

lemma segments_append: "segments (a @ CHR ''/'' # b) = segments a @ segments b"
  by (induction a) auto

lemma segments_plain: "CHR ''/'' \<notin> set a \<Longrightarrow> segments a = [a]"
  by (induction a) auto

lemma path_parts_slashes: "path_parts (dropWhile (\<lambda>c. c = CHR ''/'') s) = path_parts s"
  by (induction s) (auto simp: path_parts_def)

lemma path_parts_next:
  "path_parts input = (let part = takeWhile (\<lambda>c. c \<noteq> CHR ''/'') input
     in (if part = [] then [] else [part]) @
        path_parts (dropWhile (\<lambda>c. c = CHR ''/'') (dropWhile (\<lambda>c. c \<noteq> CHR ''/'') input)))"
proof -
  define part where "part = takeWhile (\<lambda>c. c \<noteq> CHR ''/'') input"
  define rest where "rest = dropWhile (\<lambda>c. c \<noteq> CHR ''/'') input"
  have in_eq: "input = part @ rest" by (simp add: part_def rest_def)
  have part: "segments part = [part]" by (rule segments_plain) (auto simp: part_def dest: set_takeWhileD)
  have "path_parts input = (if part = [] then [] else [part]) @ path_parts (dropWhile (\<lambda>c. c = CHR ''/'') rest)"
  proof (cases rest)
    case Nil
    then show ?thesis using part by (simp add: path_parts_def in_eq)
  next
    case (Cons c r)
    then have c: "c = CHR ''/''" using hd_dropWhile [of "\<lambda>c. c \<noteq> CHR ''/''" input] by (simp add: rest_def)
    then show ?thesis using part Cons by (simp add: path_parts_slashes) (simp add: path_parts_def in_eq segments_append)
  qed
  then show ?thesis by (simp add: part_def rest_def Let_def)
qed

lemma pop_component_append: "CHR ''/'' \<notin> set p \<Longrightarrow> pop_component (xs @ CHR ''/'' # p) = xs @ ''/''"
proof (induction p rule: rev_induct)
  case (snoc c p)
  then show ?case by (subst pop_component.simps) (auto simp: butlast_append)
qed (simp add: pop_component.simps)

lemma slashed_snoc [simp]: "slashed (ps @ [p]) = slashed ps @ CHR ''/'' # p" "slashed [] = []"
  by (simp_all add: slashed_def)

lemma parent_of_names:
  assumes "names_path ps out" shows "names_path (butlast ps) (parent_of out)"
proof (cases ps rule: rev_cases)
  case Nil
  then show ?thesis using assms by (simp add: names_path_def parent_of_def)
next
  case (snoc qs p)
  have p: "p \<noteq> []" "CHR ''/'' \<notin> set p" "\<forall>q \<in> set qs. q \<noteq> [] \<and> CHR ''/'' \<notin> set q" using assms by (auto simp: names_path_def snoc)
  have "out = slashed qs @ CHR ''/'' # p \<or> out = slashed qs @ CHR ''/'' # p @ ''/''" using assms by (auto simp: names_path_def snoc)
  moreover have "last p \<noteq> CHR ''/''" using p by (metis last_in_set)
  ultimately have "parent_of out = slashed qs @ ''/''"
    using p pop_component_append [OF p(2)] by (cases p rule: rev_cases) (auto simp: parent_of_def butlast_append)
  then show ?thesis using p(3) by (simp add: names_path_def snoc)
qed

lemma append_names:
  assumes "names_path ps out" "part \<noteq> []" "CHR ''/'' \<notin> set part"
  shows "names_path (ps @ [part]) ((if 1 < length out \<and> last out \<noteq> CHR ''/'' then out @ ''/'' else out) @ part)"
proof -
  have ok: "\<forall>p \<in> set ps. p \<noteq> [] \<and> CHR ''/'' \<notin> set p" using assms(1) by (simp add: names_path_def)
  have "(if 1 < length out \<and> last out \<noteq> CHR ''/'' then out @ ''/'' else out) = slashed ps @ ''/''"
  proof (cases ps rule: rev_cases)
    case Nil
    then show ?thesis using assms(1) by (simp add: names_path_def)
  next
    case (snoc qs p)
    then have "p \<noteq> []" "last p \<noteq> CHR ''/''" using ok by (auto, metis last_in_set)
    then show ?thesis using assms(1) snoc by (auto simp: names_path_def)
  qed
  then show ?thesis using ok assms(2,3) by (auto simp: names_path_def)
qed

definition joined :: "string \<Rightarrow> string" where
  "joined out = (if 1 < length out \<and> last out \<noteq> CHR ''/'' then out @ ''/'' else out)"

lemma joined_length: "length out \<le> length (joined out)" "length (joined out) \<le> Suc (length out)"
  by (simp_all add: joined_def)

lemma parent_of_length: "length (parent_of out) \<le> length out"
proof -
  have "length (pop_component s) \<le> length s" for s
    by (induction s rule: pop_component.induct) (subst pop_component.simps, auto)
  from this [of "butlast out"] this [of out] show ?thesis by (auto simp: parent_of_def)
qed

text \<open>One round of the loop: the first component of a non-empty input and what is left after it.\<close>

lemma resolve_loop_step:
  assumes "input \<noteq> []"
  obtains part rest where "path_parts input = (if part = [] then [] else [part]) @ path_parts rest" "CHR ''/'' \<notin> set part"
    "length part + length rest \<le> length input" "length rest < length input" "rest \<noteq> [] \<longrightarrow> length part + length rest < length input"
    "resolve_loop capacity out input =
      (if part = [] \<or> part = ''.'' then resolve_loop capacity out rest
       else if part = ''..'' then resolve_loop capacity (parent_of out) rest
       else if length out < length (joined out) \<and> capacity - 1 \<le> length out \<or> capacity \<le> length (joined out) + length part then None
       else resolve_loop capacity (joined out @ part) rest)"
proof
  let ?part = "takeWhile (\<lambda>c. c \<noteq> CHR ''/'') input" and ?tail = "dropWhile (\<lambda>c. c \<noteq> CHR ''/'') input"
  let ?rest = "dropWhile (\<lambda>c. c = CHR ''/'') ?tail"
  show "path_parts input = (if ?part = [] then [] else [?part]) @ path_parts ?rest"
    using path_parts_next [of input] by (simp add: Let_def)
  show "CHR ''/'' \<notin> set ?part" by (auto dest: set_takeWhileD)
  have l: "length ?part + length ?tail = length input" by (metis length_append takeWhile_dropWhile_id)
  then show "length ?part + length ?rest \<le> length input" using length_dropWhile_le [of "\<lambda>c. c = CHR ''/''" ?tail] by linarith
  show "length ?rest < length input" using assms by (rule rest_shorter)
  show "?rest \<noteq> [] \<longrightarrow> length ?part + length ?rest < length input"
  proof (cases ?tail)
    case Nil
    then show ?thesis by (simp only: dropWhile.simps simp_thms)
  next
    case (Cons c r)
    then have "c = CHR ''/''" using hd_dropWhile [of "\<lambda>c. c \<noteq> CHR ''/''" input] by simp
    then show ?thesis using l Cons length_dropWhile_le [of "\<lambda>c. c = CHR ''/''" r] by simp
  qed
  show "resolve_loop capacity out input =
      (if ?part = [] \<or> ?part = ''.'' then resolve_loop capacity out ?rest
       else if ?part = ''..'' then resolve_loop capacity (parent_of out) ?rest
       else if length out < length (joined out) \<and> capacity - 1 \<le> length out \<or> capacity \<le> length (joined out) + length ?part then None
       else resolve_loop capacity (joined out @ ?part) ?rest)"
    unfolding resolve_loop.simps [of capacity out input] joined_def Let_def using assms by simp
qed

lemma resolve_loop_names:
  "names_path ps out \<Longrightarrow> length out < capacity \<Longrightarrow>
    (case resolve_loop capacity out input of
       None \<Rightarrow> capacity \<le> length out + length input + 1
     | Some r \<Rightarrow> names_path (foldl walk ps (path_parts input)) r \<and> length r < capacity)"
proof (induction "length input" arbitrary: ps out input rule: less_induct)
  case less
  show ?case
  proof (cases "input = []")
    case True
    then show ?thesis using less.prems by (simp add: resolve_loop.simps path_parts_def)
  next
    case False
    obtain part rest where s: "path_parts input = (if part = [] then [] else [part]) @ path_parts rest" "CHR ''/'' \<notin> set part"
      "length part + length rest \<le> length input" "length rest < length input" "rest \<noteq> [] \<longrightarrow> length part + length rest < length input"
      "resolve_loop capacity out input =
        (if part = [] \<or> part = ''.'' then resolve_loop capacity out rest
         else if part = ''..'' then resolve_loop capacity (parent_of out) rest
         else if length out < length (joined out) \<and> capacity - 1 \<le> length out \<or> capacity \<le> length (joined out) + length part then None
         else resolve_loop capacity (joined out @ part) rest)"
      by (rule resolve_loop_step [OF False])
    consider (skip) "part = [] \<or> part = ''.''" | (up) "part = ''..''" | (down) "part \<noteq> []" "part \<noteq> ''.''" "part \<noteq> ''..''" by blast
    then show ?thesis
    proof cases
      case skip
      then show ?thesis using less.hyps [OF s(4) less.prems] s by (auto simp: walk_def split: option.splits)
    next
      case up
      have "length (parent_of out) < capacity" using less.prems(2) parent_of_length [of out] by linarith
      then show ?thesis
        using less.hyps [OF s(4) parent_of_names [OF less.prems(1)]] s up parent_of_length [of out]
        by (auto simp: walk_def split: option.splits)
    next
      case down
      show ?thesis
      proof (cases "capacity - 1 \<le> length out \<and> length out < length (joined out) \<or> capacity \<le> length (joined out) + length part")
        case True
        then show ?thesis using s down joined_length [of out] by (auto split: option.splits)
      next
        case False
        have n: "names_path (ps @ [part]) (joined out @ part)"
          unfolding joined_def by (rule append_names [OF less.prems(1) down(1) s(2)])
        have l: "length (joined out @ part) < capacity" using False by simp
        have e: "resolve_loop capacity out input = resolve_loop capacity (joined out @ part) rest" using s(6) down False by auto
        have "rest = [] \<or> length (joined out @ part) + length rest + 1 \<le> length out + length input + 1"
          using s(5) joined_length [of out] by auto
        then show ?thesis
          using less.hyps [OF s(4) n l] s(1) down unfolding e
          by (cases "rest = []") (auto simp: walk_def resolve_loop.simps [of _ _ "[]"] split: option.splits)
      qed
    qed
  qed
qed

section \<open>Mounts\<close>

lemma best_mount_result:
  assumes "best_mount p ms best n = (r, k)" "\<And>m. best = Some m \<Longrightarrow> n = length (mt_path m)" "best = None \<Longrightarrow> n = 0"
  shows "(case r of
      None \<Rightarrow> best = None \<and> (\<forall>m \<in> set ms. mt_used m \<longrightarrow> \<not> path_has_prefix p (mt_path m))
    | Some m \<Rightarrow> k = length (mt_path m) \<and> (best = Some m \<or> m \<in> set ms \<and> mt_used m \<and> path_has_prefix p (mt_path m)) \<and> n \<le> k \<and>
        (\<forall>m' \<in> set ms. mt_used m' \<longrightarrow> path_has_prefix p (mt_path m') \<longrightarrow> length (mt_path m') \<le> k))"
  using assms
proof (induction p ms best n rule: best_mount.induct)
  case (2 p m ms best n)
  consider (skip) "\<not> mt_used m \<or> \<not> path_has_prefix p (mt_path m)" | (take) "mt_used m" "path_has_prefix p (mt_path m)" "n \<le> length (mt_path m)"
    | (leave) "mt_used m" "path_has_prefix p (mt_path m)" "length (mt_path m) < n" by linarith
  then show ?case
  proof cases
    case skip
    then show ?thesis using "2.IH"(1) [OF skip] "2.prems" by (auto split: option.splits)
  next
    case take
    then show ?thesis using "2.IH"(2) "2.prems" by (fastforce split: option.splits)
  next
    case leave
    then have "best \<noteq> None" using "2.prems"(3) by auto
    then show ?thesis using "2.IH"(3) "2.prems" leave by (fastforce split: option.splits)
  qed
qed (auto split: option.splits)

section \<open>Properties\<close>

text \<open>C30. Names are normalised. For a working directory with the components \<open>ds\<close> and single slashes, a resolved
  name is absolute, has single slashes, fits the buffer with its terminator, and its components are those of
  the working directory, or of the root for an absolute name, after walking the components of the input,
  where \<open>.\<close> stays and \<open>..\<close> goes up but never above the root. Resolving fails only for lack of room.\<close>

theorem resolve_path_normalises:
  assumes "names_path ds d" "length d < capacity" "2 \<le> capacity"
  shows "case resolve_path (Some d) input capacity of
      None \<Rightarrow> capacity \<le> length d + length input + 1
    | Some out \<Rightarrow> length out < capacity \<and>
        names_path (foldl walk (if input \<noteq> [] \<and> hd input = CHR ''/'' then [] else ds) (path_parts input)) out"
proof -
  have ne: "r \<noteq> []" if "names_path ps r" for ps r using that by (cases ps) (auto simp: names_path_def slashed_def)
  have d: "1 \<le> length d" using ne [OF assms(1)] by (simp add: Suc_le_eq)
  have root: "names_path [] ''/''" by (simp add: names_path_def)
  show ?thesis
  proof (cases "input \<noteq> [] \<and> hd input = CHR ''/''")
    case True
    have len: "length (dropWhile (\<lambda>c. c = CHR ''/'') input) \<le> length input" by (rule length_dropWhile_le)
    have "length ''/'' < capacity" using assms(3) by simp
    from resolve_loop_names [OF root this, of "dropWhile (\<lambda>c. c = CHR ''/'') input"] show ?thesis
      using True assms(3) d len
      by (auto simp: resolve_path_def Let_def path_parts_slashes split: option.splits dest: ne)
  next
    case False
    then show ?thesis
      using resolve_loop_names [OF assms(1,2), of input] assms(2,3)
      by (auto simp: resolve_path_def Let_def split: option.splits dest: ne)
  qed
qed

theorem resolve_path_normalises_witness:
  "case resolve_path (Some ''/bin'') ''../disk/./a'' 256 of
     None \<Rightarrow> False | Some out \<Rightarrow> names_path [''disk'', ''a''] out"
proof -
  have "names_path [''bin''] ''/bin''" by (simp add: names_path_def slashed_def)
  from resolve_path_normalises [OF this, of 256 "''../disk/./a''"] show ?thesis
    by (auto simp: path_parts_def walk_def split: option.splits)
qed


definition demo_mounts :: "nat vfs" where
  "demo_mounts = (vfs_static 0)\<lparr>vs_mounts := [
     \<lparr>mt_used = True, mt_removable = False, mt_path = ''/dev'', mt_type = ''devfs'', mt_ops = Devfs_Ops\<rparr>,
     \<lparr>mt_used = True, mt_removable = True, mt_path = ''/dev/disk'', mt_type = ''fat32'', mt_ops = Fat32_Ops\<rparr>]\<rparr>"


end
