(* ===== verification/Vfs_References.thy ===== *)
theory Vfs_References
  imports Vfs
begin

text \<open>
  The reference counts of the virtual file system: every operation keeps the counts of open files and
  pipes equal to the number of descriptors that refer to them, so they are exact in every reachable state.
\<close>

section \<open>Reference counts\<close>

text \<open>The number of descriptors that refer to an open file, and to one end of a pipe.\<close>

definition file_users :: "vfs_fd list \<Rightarrow> nat \<Rightarrow> nat" where
  "file_users fds k = length (filter (\<lambda>fd. fd_used fd \<and> fd_file fd = Some k) fds)"

definition pipe_users :: "vfs_pipe_mode \<Rightarrow> vfs_fd list \<Rightarrow> nat \<Rightarrow> nat" where
  "pipe_users mode fds p = length (filter (\<lambda>fd. fd_used fd \<and> fd_pipe fd = Some p \<and> fd_pipe_mode fd = mode) fds)"

definition fd_ok :: "nat \<Rightarrow> nat \<Rightarrow> vfs_fd \<Rightarrow> bool" where
  "fd_ok nfiles npipes fd \<longleftrightarrow> (\<forall>k. fd_file fd = Some k \<longrightarrow> k < nfiles) \<and> (\<forall>p. fd_pipe fd = Some p \<longrightarrow> p < npipes) \<and>
     (fd_pipe_mode fd = VFS_PIPE_NONE \<longleftrightarrow> fd_pipe fd = None)"

definition file_ok_count :: "vfs_fd list \<Rightarrow> nat \<Rightarrow> vfs_open_file \<Rightarrow> bool" where
  "file_ok_count fds k f \<longleftrightarrow> of_references f = file_users fds k \<and> (of_used f \<longleftrightarrow> of_references f \<noteq> 0)"

definition pipe_ok_count :: "vfs_fd list \<Rightarrow> nat \<Rightarrow> pipe_struct \<Rightarrow> bool" where
  "pipe_ok_count fds p pipe \<longleftrightarrow> pp_readers pipe = pipe_users VFS_PIPE_READ fds p \<and>
     pp_writers pipe = pipe_users VFS_PIPE_WRITE fds p \<and> (pp_used pipe \<longleftrightarrow> pp_readers pipe + pp_writers pipe \<noteq> 0)"

definition vfs_ok :: "'b vfs \<Rightarrow> bool" where
  "vfs_ok st \<longleftrightarrow> (\<forall>fd \<in> set (vs_fds st). fd_used fd \<longrightarrow> fd_ok (length (vs_files st)) (length (vs_pipes st)) fd) \<and>
     (\<forall>k < length (vs_files st). file_ok_count (vs_fds st) k (vs_files st ! k)) \<and>
     (\<forall>p < length (vs_pipes st). pipe_ok_count (vs_fds st) p (vs_pipes st ! p))"

lemma filter_update:
  "i < length xs \<Longrightarrow> length (filter P (xs[i := x])) + (if P (xs ! i) then 1 else 0) = length (filter P xs) + (if P x then 1 else 0)"
proof (induction xs arbitrary: i)
  case (Cons y ys)
  then show ?case by (cases i) auto
qed simp

lemma users_update:
  assumes "i < length fds"
  shows "file_users (fds[i := fd]) k + (if fd_used (fds ! i) \<and> fd_file (fds ! i) = Some k then 1 else 0) =
      file_users fds k + (if fd_used fd \<and> fd_file fd = Some k then 1 else 0)"
    "pipe_users m (fds[i := fd]) p + (if fd_used (fds ! i) \<and> fd_pipe (fds ! i) = Some p \<and> fd_pipe_mode (fds ! i) = m then 1 else 0) =
      pipe_users m fds p + (if fd_used fd \<and> fd_pipe fd = Some p \<and> fd_pipe_mode fd = m then 1 else 0)"
  unfolding file_users_def pipe_users_def by (rule filter_update [OF assms])+

lemma users_pos:
  assumes "i < length fds" "fd_used (fds ! i)"
  shows "fd_file (fds ! i) = Some k \<Longrightarrow> 0 < file_users fds k"
    "fd_pipe (fds ! i) = Some p \<Longrightarrow> fd_pipe_mode (fds ! i) = m \<Longrightarrow> 0 < pipe_users m fds p"
  using assms by (auto simp: file_users_def pipe_users_def filter_empty_conv intro!: bexI [of _ "fds ! i"])

lemma vfs_okD:
  assumes "vfs_ok st"
  shows "i < length (vs_fds st) \<Longrightarrow> fd_used (vs_fds st ! i) \<Longrightarrow> fd_ok (length (vs_files st)) (length (vs_pipes st)) (vs_fds st ! i)"
    "k < length (vs_files st) \<Longrightarrow> file_ok_count (vs_fds st) k (vs_files st ! k)"
    "p < length (vs_pipes st) \<Longrightarrow> pipe_ok_count (vs_fds st) p (vs_pipes st ! p)"
  using assms by (auto simp: vfs_ok_def)

text \<open>The state with one descriptor, its open file and its pipe replaced.\<close>

lemma vfs_okI_update:
  assumes ok: "vfs_ok st" and i: "i < length (vs_fds st)"
    and fds: "vs_fds st' = (vs_fds st)[i := fd]" and fd: "fd_used fd \<longrightarrow> fd_ok (length (vs_files st)) (length (vs_pipes st)) fd"
    and len: "length (vs_files st') = length (vs_files st)" "length (vs_pipes st') = length (vs_pipes st)"
    and files: "\<And>k. k < length (vs_files st) \<Longrightarrow> file_ok_count ((vs_fds st)[i := fd]) k (vs_files st' ! k)"
    and pipes: "\<And>p. p < length (vs_pipes st) \<Longrightarrow> pipe_ok_count ((vs_fds st)[i := fd]) p (vs_pipes st' ! p)"
  shows "vfs_ok st'"
proof -
  have "\<forall>g \<in> set ((vs_fds st)[i := fd]). fd_used g \<longrightarrow> fd_ok (length (vs_files st)) (length (vs_pipes st)) g"
    using ok fd i by (auto simp: vfs_ok_def dest!: set_update_subset_insert [THEN subsetD])
  then show ?thesis using files pipes len by (simp add: vfs_ok_def fds)
qed

lemma share_fd_fields:
  "vs_fds (share_fd i fd st) = (vs_fds st)[i := fd]"
  "length (vs_files (share_fd i fd st)) = length (vs_files st)" "length (vs_pipes (share_fd i fd st)) = length (vs_pipes st)"
  "k < length (vs_files st) \<Longrightarrow> vs_files (share_fd i fd st) ! k =
     (if fd_file fd = Some k then (vs_files st ! k)\<lparr>of_references := of_references (vs_files st ! k) + 1\<rparr> else vs_files st ! k)"
  "p < length (vs_pipes st) \<Longrightarrow> vs_pipes (share_fd i fd st) ! p =
     (if fd_pipe fd \<noteq> Some p then vs_pipes st ! p
      else if fd_pipe_mode fd = VFS_PIPE_READ then (vs_pipes st ! p)\<lparr>pp_readers := pp_readers (vs_pipes st ! p) + 1\<rparr>
      else if fd_pipe_mode fd = VFS_PIPE_WRITE then (vs_pipes st ! p)\<lparr>pp_writers := pp_writers (vs_pipes st ! p) + 1\<rparr>
      else vs_pipes st ! p)"
  by (auto simp: share_fd_def Let_def open_file_retain_locked_def with_pipe_def set_fd_def nth_list_update split: option.split)

lemma share_fd_ok:
  assumes ok: "vfs_ok st" and i: "i < length (vs_fds st)" "\<not> fd_used (vs_fds st ! i)" and u: "fd_used fd"
    and j: "j < length (vs_fds st)" "fd_used (vs_fds st ! j)" "fd_file (vs_fds st ! j) = fd_file fd"
      "fd_pipe (vs_fds st ! j) = fd_pipe fd" "fd_pipe_mode (vs_fds st ! j) = fd_pipe_mode fd"
  shows "vfs_ok (share_fd i fd st)"
proof (rule vfs_okI_update [OF ok i(1), of _ fd])
  show "fd_used fd \<longrightarrow> fd_ok (length (vs_files st)) (length (vs_pipes st)) fd"
    using vfs_okD(1) [OF ok j(1,2)] j by (simp add: fd_ok_def)
next
  fix k assume k: "k < length (vs_files st)"
  show "file_ok_count ((vs_fds st)[i := fd]) k (vs_files (share_fd i fd st) ! k)"
    using vfs_okD(2) [OF ok k] users_update(1) [OF i(1), of fd k] i(2) u users_pos(1) [OF j(1,2), of k] j
    by (auto simp: share_fd_fields(4) [OF k] file_ok_count_def)
next
  fix p assume p: "p < length (vs_pipes st)"
  show "pipe_ok_count ((vs_fds st)[i := fd]) p (vs_pipes (share_fd i fd st) ! p)"
    using vfs_okD(3) [OF ok p] users_update(2) [OF i(1), of VFS_PIPE_READ fd p] users_update(2) [OF i(1), of VFS_PIPE_WRITE fd p]
      i(2) u users_pos(2) [OF j(1,2), of p] j vfs_okD(1) [OF ok j(1,2)]
    by (cases "fd_pipe_mode fd") (auto simp: share_fd_fields(5) [OF p] pipe_ok_count_def fd_ok_def)
qed (simp_all add: share_fd_fields)

lemma drop_fd_fields:
  "vs_fds (drop_fd i st) = vs_fds st"
  "length (vs_files (drop_fd i st)) = length (vs_files st)" "length (vs_pipes (drop_fd i st)) = length (vs_pipes st)"
  "k < length (vs_files st) \<Longrightarrow> fd_file (vs_fds st ! i) \<noteq> Some k \<Longrightarrow> vs_files (drop_fd i st) ! k = vs_files st ! k"
  "k < length (vs_files st) \<Longrightarrow> fd_file (vs_fds st ! i) = Some k \<Longrightarrow> of_references (vs_files st ! k) \<noteq> 0 \<Longrightarrow>
     of_used (vs_files st ! k) \<Longrightarrow> of_references (vs_files (drop_fd i st) ! k) = of_references (vs_files st ! k) - 1 \<and>
     (of_used (vs_files (drop_fd i st) ! k) \<longleftrightarrow> of_references (vs_files st ! k) \<noteq> 1)"
  "p < length (vs_pipes st) \<Longrightarrow> vs_pipes (drop_fd i st) ! p =
     (if fd_pipe (vs_fds st ! i) = Some p then pipe_drop_reference_locked (fd_pipe_mode (vs_fds st ! i)) (vs_pipes st ! p)
      else vs_pipes st ! p)"
  by (auto simp: drop_fd_def Let_def open_file_release_locked_def with_pipe_def nth_list_update split: option.split)

lemma clear_fd_fds: "vs_fds (clear_fd i st) =
  (vs_fds st)[i := (vs_fds st ! i)\<lparr>fd_used := False, fd_file := None, fd_pipe := None, fd_pipe_mode := VFS_PIPE_NONE\<rparr>]"
  by (simp add: clear_fd_def Let_def set_fd_def drop_fd_fields)

lemma clear_fd_ok:
  assumes ok: "vfs_ok st" and i: "i < length (vs_fds st)" "fd_used (vs_fds st ! i)"
  shows "vfs_ok (clear_fd i st)"
proof -
  define fd where "fd = (vs_fds st ! i)\<lparr>fd_used := False, fd_file := None, fd_pipe := None, fd_pipe_mode := VFS_PIPE_NONE\<rparr>"
  have same: "vs_files (clear_fd i st) = vs_files (drop_fd i st)" "vs_pipes (clear_fd i st) = vs_pipes (drop_fd i st)"
    by (simp_all add: clear_fd_def Let_def set_fd_def)
  have nu: "\<not> fd_used fd" by (simp add: fd_def)
  show ?thesis
  proof (rule vfs_okI_update [OF ok i(1), of _ fd])
    fix k assume k: "k < length (vs_files st)"
    show "file_ok_count ((vs_fds st)[i := fd]) k (vs_files (clear_fd i st) ! k)"
      using vfs_okD(2) [OF ok k] users_update(1) [OF i(1), of fd k] i(2) nu users_pos(1) [OF i, of k]
        drop_fd_fields(4,5) [OF k, of i]
      by (cases "fd_file (vs_fds st ! i) = Some k") (auto simp: same file_ok_count_def)
  next
    fix p assume p: "p < length (vs_pipes st)"
    show "pipe_ok_count ((vs_fds st)[i := fd]) p (vs_pipes (clear_fd i st) ! p)"
      using vfs_okD(3) [OF ok p] users_update(2) [OF i(1), of VFS_PIPE_READ fd p] users_update(2) [OF i(1), of VFS_PIPE_WRITE fd p]
        i(2) nu users_pos(2) [OF i, of p] vfs_okD(1) [OF ok i]
      by (cases "fd_pipe_mode (vs_fds st ! i)"; cases "fd_pipe (vs_fds st ! i) = Some p")
         (auto simp: same drop_fd_fields(6) [OF p] pipe_ok_count_def fd_ok_def pipe_drop_reference_locked_def Let_def)
  qed (simp_all add: clear_fd_fds fd_def same drop_fd_fields)
qed

subsection \<open>Every operation keeps the counts\<close>

lemma lookupD:
  "lookup owner number st = Some i \<Longrightarrow> i < length (vs_fds st) \<and> fd_used (vs_fds st ! i) \<and>
     fd_owner (vs_fds st ! i) = owner \<and> fd_number (vs_fds st ! i) = number"
  using first_index_SomeD unfolding lookup_def by fastforce

lemma allocate_slotD: "allocate_slot st = Some i \<Longrightarrow> i < length (vs_fds st) \<and> \<not> fd_used (vs_fds st ! i)"
  using first_index_SomeD unfolding allocate_slot_def by fastforce

lemma nth_update_if: "k < length xs \<Longrightarrow> xs[f := x] ! k = (if f = k then x else xs ! k)"
  by (cases "f < length xs") auto

text \<open>Changes that do not touch descriptors, pipes and reference counts.\<close>

lemma vfs_ok_cong:
  assumes "vfs_ok st" "vs_fds st' = vs_fds st" "vs_pipes st' = vs_pipes st" "length (vs_files st') = length (vs_files st)"
    "\<And>k. k < length (vs_files st) \<Longrightarrow> of_used (vs_files st' ! k) = of_used (vs_files st ! k) \<and>
      of_references (vs_files st' ! k) = of_references (vs_files st ! k)"
  shows "vfs_ok st'"
  using assms by (auto simp: vfs_ok_def file_ok_count_def)

lemma vfs_ok_wake [simp]: "vfs_ok (wake b st) = vfs_ok st"
  by (simp add: wake_def vfs_ok_def)

lemma vfs_ok_backend [simp]: "vfs_ok (st\<lparr>vs_backend := b\<rparr>) = vfs_ok st" "vfs_ok (st\<lparr>vs_mounts := ms\<rparr>) = vfs_ok st"
  by (simp_all add: vfs_ok_def)

lemma vfs_ok_pipe_io:
  assumes "vfs_ok st" "pp_used q = pp_used (vs_pipes st ! p)" "pp_readers q = pp_readers (vs_pipes st ! p)"
    "pp_writers q = pp_writers (vs_pipes st ! p)"
  shows "vfs_ok (st\<lparr>vs_pipes := (vs_pipes st)[p := q]\<rparr>)"
  using assms by (auto simp: vfs_ok_def pipe_ok_count_def nth_update_if)

lemma vfs_ok_offset:
  assumes "vfs_ok st"
  shows "vfs_ok (st\<lparr>vs_files := (vs_files st)[f := (vs_files st ! f)\<lparr>of_offset := k\<rparr>]\<rparr>)"
    "vfs_ok (st\<lparr>vs_backend := b, vs_files := (vs_files st)[f := (vs_files st ! f)\<lparr>of_offset := k\<rparr>]\<rparr>)"
  using assms by (auto intro!: vfs_ok_cong [OF assms] simp: nth_update_if split: if_splits)

lemma plain_fd_ok:
  assumes ok: "vfs_ok st" and i: "i < length (vs_fds st)" "\<not> fd_used (vs_fds st ! i)"
    and fd: "fd_file fd = None" "fd_pipe fd = None" "fd_pipe_mode fd = VFS_PIPE_NONE"
  shows "vfs_ok (set_fd i fd st)"
proof (rule vfs_okI_update [OF ok i(1), of _ fd])
  fix k assume k: "k < length (vs_files st)"
  show "file_ok_count ((vs_fds st)[i := fd]) k (vs_files (set_fd i fd st) ! k)"
    using vfs_okD(2) [OF ok k] users_update(1) [OF i(1), of fd k] i(2) fd by (simp add: set_fd_def file_ok_count_def)
next
  fix p assume p: "p < length (vs_pipes st)"
  show "pipe_ok_count ((vs_fds st)[i := fd]) p (vs_pipes (set_fd i fd st) ! p)"
    using vfs_okD(3) [OF ok p] users_update(2) [OF i(1), of VFS_PIPE_READ fd p] users_update(2) [OF i(1), of VFS_PIPE_WRITE fd p]
      i(2) fd by (simp add: set_fd_def pipe_ok_count_def)
qed (use fd in \<open>auto simp: set_fd_def fd_ok_def\<close>)

lemma ensure_streams_ok: "vfs_ok st \<Longrightarrow> vfs_ok (ensure_streams_from owner ns st)"
proof (induction owner ns st rule: ensure_streams_from.induct)
  case (2 owner n ns st)
  show ?case
  proof (cases "lookup owner n st = None \<and> allocate_slot st \<noteq> None")
    case True
    then obtain i where i: "allocate_slot st = Some i" by blast
    have "vfs_ok (set_fd i (stream_fd owner n) st)"
      using plain_fd_ok [OF "2.prems", of i] allocate_slotD [OF i] by (simp add: stream_fd_def)
    then show ?thesis using 2(2) True i by simp
  next
    case False
    then show ?thesis using 2 by auto
  qed
qed simp

lemma ensure_standard_streams_ok [simp]: "vfs_ok st \<Longrightarrow> vfs_ok (ensure_standard_streams owner st)"
  unfolding ensure_standard_streams_def by (rule ensure_streams_ok)

lemma file_reset_ok:
  assumes "vfs_ok st" "\<not> of_used (vs_files st ! f)"
  shows "vfs_ok (st\<lparr>vs_files := (vs_files st)[f := \<lparr>of_used = False, of_references = 0, of_offset = 0\<rparr>]\<rparr>)"
  using assms by (auto simp: vfs_ok_def file_ok_count_def nth_update_if)

lemma vfs_open_fd_ok:
  assumes ok: "vfs_ok st" shows "vfs_ok (snd (vfs_open_fd env owner name ops backend st))"
proof (cases "first_index (\<lambda>f. \<not> of_used f) (vs_files st)")
  case None
  then show ?thesis
    using ok by (auto simp: vfs_open_fd_def allocate_open_file_locked_def open_file_release_locked_def split: option.split)
next
  case (Some f)
  let ?st1 = "st\<lparr>vs_files := (vs_files st)[f := \<lparr>of_used = True, of_references = 1, of_offset = 0\<rparr>]\<rparr>"
  have f: "f < length (vs_files st)" "\<not> of_used (vs_files st ! f)" using first_index_SomeD [OF Some] by auto
  have fu: "file_users (vs_fds st) f = 0" using vfs_okD(2) [OF ok f(1)] f(2) by (simp add: file_ok_count_def)
  have a: "allocate_open_file_locked st = (Some f, ?st1)" using Some by (simp add: allocate_open_file_locked_def)
  have rel: "vfs_ok (open_file_release_locked (Some f) ?st1)"
    using file_reset_ok [OF ok f(2)] f(1) by (simp add: open_file_release_locked_def Let_def)
  have new: "vfs_ok (set_fd i fd ?st1)" if "allocate_slot st = Some i" "fd_file fd = Some f" "fd_used fd" "fd_pipe fd = None"
    "fd_pipe_mode fd = VFS_PIPE_NONE" for i fd
  proof -
    note i = allocate_slotD [OF that(1)]
    show ?thesis
    proof (rule vfs_okI_update [OF ok, of i _ fd])
      fix k assume k: "k < length (vs_files st)"
      show "file_ok_count ((vs_fds st)[i := fd]) k (vs_files (set_fd i fd ?st1) ! k)"
        using vfs_okD(2) [OF ok k] users_update(1) [of i "vs_fds st" fd k] i that fu f(1)
        by (auto simp: set_fd_def file_ok_count_def nth_list_update)
    next
      fix p assume p: "p < length (vs_pipes st)"
      show "pipe_ok_count ((vs_fds st)[i := fd]) p (vs_pipes (set_fd i fd ?st1) ! p)"
        using vfs_okD(3) [OF ok p] users_update(2) [of i "vs_fds st" VFS_PIPE_READ fd p]
          users_update(2) [of i "vs_fds st" VFS_PIPE_WRITE fd p] i that by (simp add: set_fd_def pipe_ok_count_def)
    qed (use i that f in \<open>auto simp: set_fd_def fd_ok_def\<close>)
  qed
  show ?thesis
    using ok a rel new by (auto simp: vfs_open_fd_def split: option.split)
qed

lemma vfs_open_ok:
  assumes "vfs_ok st" "vfs_open env owner cwd name create st = Some (r, st')"
  shows "vfs_ok st'"
proof -
  have new: "vfs_ok t" if "vfs_open_fd env owner n ops be (ensure_standard_streams owner (st\<lparr>vs_backend := b\<rparr>)) = (k, t)" for n ops be b k t
    using vfs_open_fd_ok [of "ensure_standard_streams owner (st\<lparr>vs_backend := b\<rparr>)" env owner n ops be] assms(1) that by simp
  show ?thesis
    using assms(2) assms(1)
    by (auto simp: vfs_open_def Let_def bind_eq_Some_conv split: if_splits option.splits prod.splits dest: new)
qed

text \<open>A copy of a descriptor in use, installed in a free slot.\<close>

lemma copy_fd_ok:
  assumes "vfs_ok st" "lookup owner n st = Some j" "allocate_slot st = Some i" "fd_used fd" "fd_file fd = fd_file (vs_fds st ! j)"
    "fd_pipe fd = fd_pipe (vs_fds st ! j)" "fd_pipe_mode fd = fd_pipe_mode (vs_fds st ! j)"
  shows "vfs_ok (share_fd i fd st)"
  using assms lookupD [OF assms(2)] allocate_slotD [OF assms(3)] by (intro share_fd_ok [of st i fd j]) simp_all

lemma vfs_dup_ok: "vfs_ok st \<Longrightarrow> vfs_ok (snd (vfs_dup owner n st))"
  by (auto simp: vfs_dup_def Let_def split: option.split intro: copy_fd_ok)

lemma vfs_close_ok: "vfs_ok st \<Longrightarrow> vfs_ok (snd (vfs_close owner n st))"
  by (auto simp: vfs_close_def split: option.split intro!: clear_fd_ok dest: lookupD)

lemma close_all_from_ok:
  "vfs_ok st \<Longrightarrow> set is \<subseteq> {..< length (vs_fds st)} \<Longrightarrow> vfs_ok (snd (close_all_from owner is c st))"
proof (induction owner "is" c st rule: close_all_from.induct)
  case (2 owner i "is" c st)
  have "vfs_ok (clear_fd i st)" if "fd_used (vs_fds st ! i)" using clear_fd_ok [OF "2.prems"(1)] that "2.prems"(2) by simp
  then show ?case using 2 by (auto simp: Let_def clear_fd_fds)
qed simp

lemma vfs_close_all_ok [simp]: "vfs_ok st \<Longrightarrow> vfs_ok (vfs_close_all owner st)"
  using close_all_from_ok [of st "[0 ..< length (vs_fds st)]" owner False]
  by (simp add: vfs_close_all_def split_beta atLeast0LessThan)

lemma share_over_drop: "share_fd i fd (drop_fd i st) = share_fd i fd (clear_fd i st)"
  by (simp add: clear_fd_def share_fd_def set_fd_def Let_def open_file_retain_locked_def with_pipe_def split: option.split)

lemma vfs_dup2_ok:
  assumes ok0: "vfs_ok st0" shows "vfs_ok (snd (vfs_dup2 owner a b st0))"
proof -
  define st where "st = ensure_standard_streams owner st0"
  have ok: "vfs_ok st" using ok0 by (simp add: st_def)
  have main: "vfs_ok (share_fd t (fd\<lparr>fd_owner := owner, fd_number := b, fd_used := True\<rparr>)
      (if fd_used (vs_fds st ! t) then drop_fd t st else st))"
    if s: "lookup owner a st = Some s" and "a \<noteq> b" and fd: "fd = vs_fds st ! s"
      and t: "(case lookup owner b st of Some t \<Rightarrow> Some t | None \<Rightarrow> allocate_slot st) = Some t" for s t fd
  proof (cases "fd_used (vs_fds st ! t)")
    case False
    then have "allocate_slot st = Some t" using t lookupD by (auto split: option.splits)
    then show ?thesis using copy_fd_ok [OF ok s] False by (simp add: fd)
  next
    case True
    then have l: "lookup owner b st = Some t" using t allocate_slotD by (fastforce split: option.splits)
    have ne: "s \<noteq> t" using lookupD [OF s] lookupD [OF l] \<open>a \<noteq> b\<close> by auto
    have c: "vfs_ok (clear_fd t st)" using clear_fd_ok [OF ok] lookupD [OF l] by blast
    have "vfs_ok (share_fd t (fd\<lparr>fd_owner := owner, fd_number := b, fd_used := True\<rparr>) (clear_fd t st))"
      using lookupD [OF s] lookupD [OF l] ne
      by (intro share_fd_ok [OF c, of t _ s]) (auto simp: clear_fd_fds fd)
    then show ?thesis using True by (simp add: share_over_drop)
  qed
  show ?thesis
    using ok ok0 main by (auto simp: vfs_dup2_def Let_def st_def [symmetric] split: option.split)
qed

text \<open>Retaining what a descriptor in use refers to is the sharing of \<open>vfs_dup\<close>.\<close>

lemma retain_share:
  assumes ok: "vfs_ok st" and j: "j < length (vs_fds st)" "fd_used (vs_fds st ! j)" "fd_pipe (vs_fds st ! j) = fd_pipe fd"
    "fd_pipe_mode (vs_fds st ! j) = fd_pipe_mode fd"
  shows "with_pipe (fd_pipe fd) (pipe_retain_reference (fd_pipe_mode fd)) (open_file_retain_locked (fd_file fd) (set_fd i fd st)) =
    share_fd i fd st"
proof (cases "fd_pipe fd")
  case None
  then show ?thesis using vfs_okD(1) [OF ok j(1,2)] j by (auto simp: share_fd_def Let_def with_pipe_def fd_ok_def)
next
  case (Some p)
  have p: "p < length (vs_pipes st)" "fd_pipe_mode fd \<noteq> VFS_PIPE_NONE"
    using vfs_okD(1) [OF ok j(1,2)] j Some by (auto simp: fd_ok_def)
  have "pp_used (vs_pipes st ! p)"
    using vfs_okD(3) [OF ok p(1)] users_pos(2) [OF j(1,2), of p "fd_pipe_mode fd"] j Some p(2)
    by (cases "fd_pipe_mode fd") (auto simp: pipe_ok_count_def)
  then show ?thesis
    using Some p(2) by (cases "fd_pipe_mode fd")
      (auto simp: share_fd_def Let_def with_pipe_def pipe_retain_reference_def open_file_retain_locked_def set_fd_def split: option.split)
qed

lemma inherit_from_ok: "vfs_ok st \<Longrightarrow> vfs_ok (snd (inherit_from parent child ns st))"
proof (induction parent child ns st rule: inherit_from.induct)
  case (2 parent child n ns st)
  show ?case
  proof (cases "lookup parent n st = None \<or> allocate_slot st = None")
    case True
    then show ?thesis using "2.prems" by (auto split: option.split)
  next
    case False
    then obtain s t where st: "lookup parent n st = Some s" "allocate_slot st = Some t" by auto
    let ?fd = "(vs_fds st ! s)\<lparr>fd_owner := child\<rparr>"
    have s: "s < length (vs_fds st)" "fd_used (vs_fds st ! s)" using lookupD [OF st(1)] by auto
    have "vfs_ok (share_fd t ?fd st)" using copy_fd_ok [OF "2.prems" st] s by simp
    moreover have "with_pipe (fd_pipe ?fd) (pipe_retain_reference (fd_pipe_mode ?fd)) (open_file_retain (fd_file ?fd) (set_fd t ?fd st)) =
        share_fd t ?fd st"
      unfolding open_file_retain_def by (rule retain_share [OF "2.prems" s]) simp_all
    ultimately show ?thesis using "2.IH" [OF refl st] st by (simp add: Let_def)
  qed
qed simp

lemma vfs_inherit_standard_ok: "vfs_ok st \<Longrightarrow> vfs_ok (snd (vfs_inherit_standard parent child st))"
  unfolding vfs_inherit_standard_def by (rule inherit_from_ok) simp

lemma fork_from_ok:
  "vfs_ok st \<Longrightarrow> set is \<subseteq> {..< length (vs_fds st)} \<Longrightarrow> vfs_ok (snd (fork_from parent child is c st))"
proof (induction parent child "is" c st rule: fork_from.induct)
  case (2 parent child i "is" c st)
  show ?case
  proof (cases "fd_used (vs_fds st ! i) \<and> fd_owner (vs_fds st ! i) = parent")
    case False
    then show ?thesis using "2.IH"(1) [OF refl] "2.prems" by (simp add: Let_def)
  next
    case True
    show ?thesis
    proof (cases "allocate_slot st")
      case None
      then show ?thesis using True "2.prems" by simp
    next
      case (Some t)
      let ?fd = "(vs_fds st ! i)\<lparr>fd_owner := child, fd_used := True\<rparr>"
      have i: "i < length (vs_fds st)" "fd_used (vs_fds st ! i)" using "2.prems"(2) True by auto
      have ok: "vfs_ok (share_fd t ?fd st)"
        using allocate_slotD [OF Some] i by (intro share_fd_ok [OF "2.prems"(1), of t ?fd i]) simp_all
      have eq: "with_pipe (fd_pipe ?fd) (pipe_retain_reference (fd_pipe_mode ?fd)) (open_file_retain_locked (fd_file ?fd) (set_fd t ?fd st)) =
          share_fd t ?fd st"
        by (rule retain_share [OF "2.prems"(1) i]) simp_all
      have "set is \<subseteq> {..< length (vs_fds (share_fd t ?fd st))}" using "2.prems"(2) by (simp add: share_fd_fields)
      then show ?thesis using "2.IH"(2) [OF refl _ Some refl refl] True Some ok eq by (simp add: Let_def)
    qed
  qed
qed simp

lemma vfs_fork_ok: "vfs_ok st \<Longrightarrow> vfs_ok (snd (vfs_fork parent child st))"
  by (auto simp: vfs_fork_def Let_def intro!: fork_from_ok)

lemma first_two_upt:
  assumes "first_two P [0 ..< n] = [a, b]"
  shows "a < n" "b < n" "a \<noteq> b" "P a" "P b"
proof -
  have t: "take 2 (filter P [0 ..< n]) = [a, b]" using assms by simp
  have "set (take 2 (filter P [0 ..< n])) = {a, b}" unfolding t by simp
  then have "{a, b} \<subseteq> set (filter P [0 ..< n])" by (metis set_take_subset)
  then show "a < n" "b < n" "P a" "P b" by auto
  have "distinct (take 2 (filter P [0 ..< n]))" by simp
  then show "a \<noteq> b" unfolding t by simp
qed

lemma vfs_pipe_ok:
  assumes ok0: "vfs_ok st0" shows "vfs_ok (snd (vfs_pipe owner st0))"
proof -
  define st where "st = ensure_standard_streams owner st0"
  have ok: "vfs_ok st" using ok0 by (simp add: st_def)
  have main: "vfs_ok (set_fd b (pipe_fd owner n1 p VFS_PIPE_WRITE) (set_fd a (pipe_fd owner n0 p VFS_PIPE_READ)
      (with_pipe (Some p) (\<lambda>pipe. pipe\<lparr>pp_used := True, pp_readers := 1, pp_writers := 1, pp_head := 0, pp_tail := 0, pp_count := 0\<rparr>) st)))"
    (is "vfs_ok ?st")
    if p: "first_index (\<lambda>p. \<not> pp_used p) (vs_pipes st) = Some p"
      and ab: "first_two (\<lambda>i. \<not> fd_used (vs_fds st ! i)) [0 ..< length (vs_fds st)] = [a, b]" for p a b n0 n1
  proof -
    let ?r = "pipe_fd owner n0 p VFS_PIPE_READ" and ?w = "pipe_fd owner n1 p VFS_PIPE_WRITE"
    note ab' = first_two_upt [OF ab]
    have pl: "p < length (vs_pipes st)" "\<not> pp_used (vs_pipes st ! p)" using first_index_SomeD [OF p] by auto
    have b2: "b < length ((vs_fds st)[a := ?r])" "\<not> fd_used ((vs_fds st)[a := ?r] ! b)" using ab' by auto
    have fu: "file_users ((vs_fds st)[a := ?r, b := ?w]) k = file_users (vs_fds st) k" for k
      using users_update(1) [OF ab'(1), of ?r k] users_update(1) [OF b2(1), of ?w k] ab'(4) b2(2) by (simp add: pipe_fd_def)
    have pu: "pipe_users m ((vs_fds st)[a := ?r, b := ?w]) q =
        pipe_users m (vs_fds st) q + (if q = p \<and> m \<noteq> VFS_PIPE_NONE then 1 else 0)" for m q
      using users_update(2) [OF ab'(1), of m ?r q] users_update(2) [OF b2(1), of m ?w q] ab'(4) b2(2)
      by (cases m) (auto simp: pipe_fd_def split: if_splits)
    have z: "pipe_users VFS_PIPE_READ (vs_fds st) p = 0" "pipe_users VFS_PIPE_WRITE (vs_fds st) p = 0"
      using vfs_okD(3) [OF ok pl(1)] pl(2) by (auto simp: pipe_ok_count_def)
    have fds: "vs_fds ?st = (vs_fds st)[a := ?r, b := ?w]" by (simp add: set_fd_def with_pipe_def)
    have "\<forall>fd \<in> set ((vs_fds st)[a := ?r, b := ?w]). fd_used fd \<longrightarrow> fd_ok (length (vs_files st)) (length (vs_pipes st)) fd"
      using ok pl(1) by (auto simp: vfs_ok_def pipe_fd_def fd_ok_def dest!: set_update_subset_insert [THEN subsetD])
    then show ?thesis
      unfolding vfs_ok_def fds using vfs_okD(2,3) [OF ok] fu pu z pl(1)
      by (auto simp: set_fd_def with_pipe_def file_ok_count_def pipe_ok_count_def nth_list_update)
  qed
  show ?thesis
    using ok main
    by (auto simp: vfs_pipe_def Let_def st_def [symmetric] simp del: first_two.simps split: option.split list.split)
qed

lemma pipe_take_fields: "pipe_take n p = (bs, q) \<Longrightarrow> pp_used q = pp_used p \<and> pp_readers q = pp_readers p \<and> pp_writers q = pp_writers p"
  by (induction n arbitrary: p bs) (fastforce simp: Let_def split: prod.splits)+

lemma pipe_read_fields:
  "pipe_read m n p = (r, q) \<Longrightarrow> pp_used q = pp_used p \<and> pp_readers q = pp_readers p \<and> pp_writers q = pp_writers p"
  by (auto simp: pipe_read_def pipe_get_def split: if_splits prod.splits dest!: pipe_take_fields)

lemma pipe_write_loop_fields:
  "pipe_write_loop buffer k w p = (r, q) \<Longrightarrow> pp_used q = pp_used p \<and> pp_readers q = pp_readers p \<and> pp_writers q = pp_writers p"
proof (induction buffer k w p rule: pipe_write_loop.induct)
  case (1 buffer k w p)
  define a where "a = (if VFS_PIPE_CAPACITY - pp_count p < length buffer - k then VFS_PIPE_CAPACITY - pp_count p else length buffer - k)"
  show ?case
  proof (cases "k < length buffer \<and> pp_readers p \<noteq> 0 \<and> a \<noteq> 0")
    case True
    then have "pipe_write_loop buffer (k + a) True (pipe_put (take a (drop k buffer)) p) = (r, q)"
      using 1(2) by (subst (asm) pipe_write_loop.simps) (simp add: Let_def a_def [symmetric])
    then show ?thesis using 1(1) [OF _ _ refl a_def] True by simp
  next
    case False
    then show ?thesis
      using 1(2) by (subst (asm) pipe_write_loop.simps) (auto simp: Let_def a_def [symmetric] split: if_splits)
  qed
qed

lemma pipe_write_fields:
  "pipe_write m buffer p = (r, q) \<Longrightarrow> pp_used q = pp_used p \<and> pp_readers q = pp_readers p \<and> pp_writers q = pp_writers p"
  by (auto simp: pipe_write_def split: if_splits dest: pipe_write_loop_fields)

lemma vfs_read_ok: "vfs_ok st \<Longrightarrow> vfs_read env owner n len st = Some (r, st') \<Longrightarrow> vfs_ok st'"
  by (auto simp: vfs_read_def Let_def bind_eq_Some_conv intro!: vfs_ok_pipe_io vfs_ok_offset dest: pipe_read_fields
      split: if_splits option.splits prod.splits)

lemma vfs_write_ok: "vfs_ok st \<Longrightarrow> vfs_write env owner n buffer st = Some (r, st') \<Longrightarrow> vfs_ok st'"
  by (auto simp: vfs_write_def Let_def bind_eq_Some_conv intro!: vfs_ok_pipe_io vfs_ok_offset dest: pipe_write_fields
      split: if_splits option.splits prod.splits)

lemma vfs_seek_ok: "vfs_ok st \<Longrightarrow> vfs_seek env owner n offset whence st = Some (r, st') \<Longrightarrow> vfs_ok st'"
  by (auto simp: vfs_seek_def Let_def bind_eq_Some_conv intro!: vfs_ok_offset split: if_splits option.splits prod.splits)

text \<open>The operations on names leave descriptors, open files and pipes alone.\<close>

definition same_tables :: "'b vfs \<Rightarrow> 'b vfs \<Rightarrow> bool" where
  "same_tables st st' \<longleftrightarrow> vs_fds st' = vs_fds st \<and> vs_files st' = vs_files st \<and> vs_pipes st' = vs_pipes st"

lemma same_tables_ok: "same_tables st st' \<Longrightarrow> vfs_ok st' = vfs_ok st"
  by (simp add: same_tables_def vfs_ok_def)

lemma with_backend_same: "with_backend f st = Some (r, st') \<Longrightarrow> same_tables st st' \<and> vs_mounts st' = vs_mounts st"
  by (auto simp: with_backend_def same_tables_def)

lemma on_path_same: "on_path env cwd name x f st = Some (r, st') \<Longrightarrow> same_tables st st'"
  by (auto simp: on_path_def same_tables_def dest!: with_backend_same split: option.splits prod.splits)

lemma is_directory_same: "vfs_is_directory env cwd name st = Some (r, st') \<Longrightarrow> same_tables st st'"
  by (auto simp: vfs_is_directory_def same_tables_def dest!: with_backend_same split: option.splits prod.splits if_splits)

lemma sync_mounts_same: "sync_mounts env ms st = Some (r, st') \<Longrightarrow> same_tables st st'"
  by (induction ms arbitrary: st)
    (fastforce simp: same_tables_def bind_eq_Some_conv dest!: with_backend_same split: if_splits)+

lemma install_mount_same: "same_tables st (snd (install_mount pathname type ops removable st))"
  by (auto simp: install_mount_def same_tables_def split: option.split)

lemma install_mount_same': "install_mount pathname type ops removable st = (r, st') \<Longrightarrow> same_tables st st'"
  using install_mount_same [of st pathname type ops removable] by simp

lemma same_tables_trans: "same_tables a b \<Longrightarrow> same_tables b c \<Longrightarrow> same_tables a c"
  by (simp add: same_tables_def)

lemma same_tables_refl [simp]: "same_tables a a"
  by (simp add: same_tables_def)

lemma vfs_mount_same: "vfs_mount env cwd type target st = Some (r, st') \<Longrightarrow> same_tables st st'"
  by (auto simp: vfs_mount_def bind_eq_Some_conv split: if_splits option.splits
      dest: is_directory_same intro: same_tables_trans [OF is_directory_same install_mount_same'])

lemma vfs_unmount_same: "vfs_unmount env cwd busy target st = Some (r, st') \<Longrightarrow> same_tables st st'"
  by (auto simp: vfs_unmount_def bind_eq_Some_conv same_tables_def split: if_splits option.splits dest!: with_backend_same)

section \<open>Runs of the file system\<close>

text \<open>One step for each entry point of \<^verbatim>\<open>vfs.h\<close> that changes the state, called by any process.\<close>

inductive vfs_step :: "'b fs_env \<Rightarrow> 'b vfs \<Rightarrow> 'b vfs \<Rightarrow> bool" for env where
  step_open: "vfs_open env owner cwd name create st = Some (n, st') \<Longrightarrow> vfs_step env st st'"
| step_pipe: "vfs_step env st (snd (vfs_pipe owner st))"
| step_dup: "vfs_step env st (snd (vfs_dup owner n st))"
| step_dup2: "vfs_step env st (snd (vfs_dup2 owner a b st))"
| step_close: "vfs_step env st (snd (vfs_close owner n st))"
| step_close_all: "vfs_step env st (vfs_close_all owner st)"
| step_inherit: "vfs_step env st (snd (vfs_inherit_standard parent child st))"
| step_fork: "vfs_step env st (snd (vfs_fork parent child st))"
| step_read: "vfs_read env owner n len st = Some (r, st') \<Longrightarrow> vfs_step env st st'"
| step_write: "vfs_write env owner n buffer st = Some (w, st') \<Longrightarrow> vfs_step env st st'"
| step_seek: "vfs_seek env owner n offset whence st = Some (k, st') \<Longrightarrow> vfs_step env st st'"
| step_stat: "vfs_stat env cwd name st = Some (s, st') \<Longrightarrow> vfs_step env st st'"
| step_readdir: "vfs_readdir env cwd name index st = Some (e, st') \<Longrightarrow> vfs_step env st st'"
| step_mkdir: "vfs_mkdir env cwd name st = Some (ok, st') \<Longrightarrow> vfs_step env st st'"
| step_unlink: "vfs_unlink env cwd name st = Some (ok, st') \<Longrightarrow> vfs_step env st st'"
| step_rmdir: "vfs_rmdir env cwd name st = Some (ok, st') \<Longrightarrow> vfs_step env st st'"
| step_is_directory: "vfs_is_directory env cwd name st = Some (ok, st') \<Longrightarrow> vfs_step env st st'"
| step_sync: "vfs_sync env st = Some (ok, st') \<Longrightarrow> vfs_step env st st'"
| step_mount: "vfs_mount env cwd type target st = Some (ok, st') \<Longrightarrow> vfs_step env st st'"
| step_unmount: "vfs_unmount env cwd busy target st = Some (ok, st') \<Longrightarrow> vfs_step env st st'"

inductive vfs_reachable :: "'b fs_env \<Rightarrow> 'b vfs \<Rightarrow> bool" for env where
  boot: "vfs_reachable env (vfs_init (vfs_static b))"
| step: "vfs_reachable env st \<Longrightarrow> vfs_step env st st' \<Longrightarrow> vfs_reachable env st'"

lemmas vfs_op_ok = vfs_open_ok vfs_pipe_ok vfs_dup_ok vfs_dup2_ok vfs_close_ok vfs_close_all_ok vfs_inherit_standard_ok
  vfs_fork_ok vfs_read_ok vfs_write_ok vfs_seek_ok

lemma vfs_step_ok: "vfs_step env st st' \<Longrightarrow> vfs_ok st \<Longrightarrow> vfs_ok st'"
  by (induction rule: vfs_step.induct)
    (auto simp: vfs_stat_def vfs_readdir_def vfs_mkdir_def vfs_unlink_def vfs_rmdir_def vfs_sync_def
      intro: vfs_op_ok dest!: on_path_same is_directory_same sync_mounts_same vfs_mount_same vfs_unmount_same
      dest: same_tables_ok)

lemma vfs_static_ok: "vfs_ok (vfs_static b)"
  by (simp add: vfs_ok_def vfs_static_def file_ok_count_def pipe_ok_count_def file_users_def pipe_users_def)

lemma vfs_init_ok: "vfs_ok (vfs_init (vfs_static b))"
proof -
  have "vfs_init (vfs_static b) = ensure_standard_streams 0 (snd (install_mount ''/dev'' ''devfs'' Devfs_Ops False (vfs_static b)))"
    by (simp add: vfs_init_def Let_def vfs_static_def)
  then show ?thesis using vfs_static_ok install_mount_same same_tables_ok ensure_standard_streams_ok by metis
qed

lemma vfs_reachable_ok: "vfs_reachable env st \<Longrightarrow> vfs_ok st"
  by (induction rule: vfs_reachable.induct) (auto simp: vfs_init_ok vfs_step_ok)

section \<open>Properties\<close>

text \<open>C29. The reference counts are exact at every moment of every run: however processes open, duplicate,
  pipe, fork, read and close, the count of an open file is the number of descriptors that refer to it, a pipe's
  reader and writer counts are the numbers of descriptors of its two ends, and a slot is in use exactly
  while its count is positive. So no open file or pipe is recycled under a descriptor and none leaks.\<close>

theorem vfs_references_exact:
  assumes "vfs_reachable env st"
  shows "(\<forall>k < length (vs_files st). of_references (vs_files st ! k) = file_users (vs_fds st) k \<and>
      (of_used (vs_files st ! k) \<longleftrightarrow> 0 < file_users (vs_fds st) k)) \<and>
    (\<forall>p < length (vs_pipes st). pp_readers (vs_pipes st ! p) = pipe_users VFS_PIPE_READ (vs_fds st) p \<and>
      pp_writers (vs_pipes st ! p) = pipe_users VFS_PIPE_WRITE (vs_fds st) p \<and>
      (pp_used (vs_pipes st ! p) \<longleftrightarrow> 0 < pipe_users VFS_PIPE_READ (vs_fds st) p + pipe_users VFS_PIPE_WRITE (vs_fds st) p)) \<and>
    (\<forall>fd \<in> set (vs_fds st). fd_used fd \<longrightarrow> fd_ok (length (vs_files st)) (length (vs_pipes st)) fd)"
  using vfs_reachable_ok [OF assms] by (auto simp: vfs_ok_def file_ok_count_def pipe_ok_count_def)

lemma ensure_streams_pipes: "vs_pipes (ensure_streams_from owner ns st) = vs_pipes st"
  by (induction owner ns st rule: ensure_streams_from.induct) (auto simp: set_fd_def split: option.split)

lemma ensure_standard_streams_pipes [simp]: "vs_pipes (ensure_standard_streams owner st) = vs_pipes st"
  unfolding ensure_standard_streams_def by (rule ensure_streams_pipes)

lemma vfs_pipe_length: "length (vs_pipes (snd (vfs_pipe owner st))) = length (vs_pipes st)"
  by (auto simp: vfs_pipe_def Let_def set_fd_def with_pipe_def simp del: first_two.simps split: option.split list.split)

lemma vfs_init_length: "length (vs_pipes (vfs_init (st :: 'a vfs))) = length (vs_pipes st)"
proof -
  have "vs_pipes (snd (install_mount p t ops r s)) = vs_pipes s" for p t ops r and s :: "'a vfs"
    using install_mount_same [of s p t ops r] by (simp add: same_tables_def)
  then show ?thesis unfolding vfs_init_def Let_def by simp
qed

theorem vfs_references_exact_witness:
  "pp_readers (vs_pipes (snd (vfs_pipe 7 (vfs_init (vfs_static (0 :: nat))))) ! 3) =
     pipe_users VFS_PIPE_READ (vs_fds (snd (vfs_pipe 7 (vfs_init (vfs_static (0 :: nat)))))) 3"
proof -
  have r: "vfs_reachable undefined (snd (vfs_pipe 7 (vfs_init (vfs_static (0 :: nat)))))"
    by (rule vfs_reachable.step [OF vfs_reachable.boot vfs_step.step_pipe])
  have "length (vs_pipes (snd (vfs_pipe 7 (vfs_init (vfs_static (0 :: nat)))))) = 16"
    unfolding vfs_pipe_length vfs_init_length by (simp add: vfs_static_def VFS_MAX_PIPES_def)
  then have "3 < length (vs_pipes (snd (vfs_pipe 7 (vfs_init (vfs_static (0 :: nat))))))" by linarith
  with vfs_references_exact [OF r] show ?thesis by blast
qed

end
