(* ===== verification/Vfs_Fork.thy ===== *)
theory Vfs_Fork
  imports Vfs_References "HOL-Library.Multiset"
begin

text \<open>
  What \<open>vfs_fork\<close> and \<open>vfs_close_all\<close> do to the descriptors of each process, as multisets of descriptors.
\<close>

section \<open>Forking a descriptor table\<close>

definition owned :: "u64 \<Rightarrow> vfs_fd list \<Rightarrow> vfs_fd list" where
  "owned owner fds = filter (\<lambda>fd. fd_used fd \<and> fd_owner fd = owner) fds"

lemma owned_update:
  assumes "i < length fds"
  shows "mset (owned o' (fds[i := fd])) + (if fd_used (fds ! i) \<and> fd_owner (fds ! i) = o' then {# fds ! i #} else {#}) =
    mset (owned o' fds) + (if fd_used fd \<and> fd_owner fd = o' then {# fd #} else {#})"
proof -
  have "owned o' fds = owned o' (take i fds @ fds ! i # drop (Suc i) fds)" using id_take_nth_drop [OF assms] by simp
  then show ?thesis unfolding upd_conv_take_nth_drop [OF assms] by (simp add: owned_def)
qed

definition unused :: "vfs_fd list \<Rightarrow> nat" where
  "unused fds = length (filter (\<lambda>fd. \<not> fd_used fd) fds)"

lemma allocate_unused: "allocate_slot st = None \<longleftrightarrow> unused (vs_fds st) = 0"
  by (auto simp: allocate_slot_def first_index_None_iff unused_def filter_empty_conv)

lemma unused_update: "i < length fds \<Longrightarrow> \<not> fd_used (fds ! i) \<Longrightarrow> fd_used fd \<Longrightarrow> unused (fds[i := fd]) + 1 = unused fds"
  unfolding unused_def using filter_update [of i fds "\<lambda>fd. \<not> fd_used fd" fd] by simp

lemma owned_nth_update:
  assumes "t < length fds" "\<not> fd_used (fds ! t)" "fd_owner fd \<noteq> parent" "set is \<subseteq> {..< length fds}"
  shows "owned parent (map ((!) (fds[t := fd])) is) = owned parent (map ((!) fds) is)"
  using assms by (induction "is") (auto simp: owned_def nth_list_update)

lemma fork_from_result:
  assumes "parent \<noteq> child" "length (owned parent (map ((!) (vs_fds st)) is)) \<le> unused (vs_fds st)" "set is \<subseteq> {..< length (vs_fds st)}"
    "fork_from parent child is c st = (ok, st')"
  shows "ok \<and> mset (owned child (vs_fds st')) = mset (owned child (vs_fds st)) +
      mset (map (\<lambda>fd. fd\<lparr>fd_owner := child\<rparr>) (owned parent (map ((!) (vs_fds st)) is))) \<and>
    (\<forall>o'. o' \<noteq> child \<longrightarrow> mset (owned o' (vs_fds st')) = mset (owned o' (vs_fds st)))"
  using assms
proof (induction parent child "is" c st rule: fork_from.induct)
  case (1 parent child c st)
  then show ?case by (auto simp: owned_def wake_def)
next
  case (2 parent child i "is" c st)
  show ?case
  proof (cases "fd_used (vs_fds st ! i) \<and> fd_owner (vs_fds st ! i) = parent")
    case False
    then have e: "owned parent (map ((!) (vs_fds st)) (i # is)) = owned parent (map ((!) (vs_fds st)) is)" by (auto simp: owned_def)
    show ?thesis unfolding e using "2.IH"(1) [OF refl] "2.prems" False unfolding e by simp
  next
    case True
    then have e: "owned parent (map ((!) (vs_fds st)) (i # is)) = vs_fds st ! i # owned parent (map ((!) (vs_fds st)) is)"
      by (auto simp: owned_def)
    then obtain t where t: "allocate_slot st = Some t" using "2.prems"(2) allocate_unused [of st] by fastforce
    let ?fd = "(vs_fds st ! i)\<lparr>fd_owner := child, fd_used := True\<rparr>"
    let ?live = "case fd_pipe ?fd of None \<Rightarrow> False | Some p \<Rightarrow> fd_pipe_mode ?fd \<noteq> VFS_PIPE_NONE \<and> pp_used (vs_pipes st ! p)"
    define st1 where "st1 = with_pipe (fd_pipe ?fd) (pipe_retain_reference (fd_pipe_mode ?fd)) (open_file_retain_locked (fd_file ?fd) (set_fd t ?fd st))"
    have fds: "vs_fds st1 = (vs_fds st)[t := ?fd]"
      by (simp add: st1_def with_pipe_def open_file_retain_locked_def set_fd_def split: option.split)
    note tt = allocate_slotD [OF t]
    have fd: "?fd = (vs_fds st ! i)\<lparr>fd_owner := child\<rparr>" using True by simp
    have o: "owned parent (map ((!) (vs_fds st1)) is) = owned parent (map ((!) (vs_fds st)) is)"
      unfolding fds using "2.prems"(1,3) tt by (intro owned_nth_update) auto
    have u: "unused (vs_fds st1) + 1 = unused (vs_fds st)" unfolding fds using tt by (intro unused_update) auto
    have "fork_from parent child is (c \<or> ?live) st1 = (ok, st')"
      using "2.prems"(4) True t by (simp add: Let_def st1_def)
    moreover have "set is \<subseteq> {..< length (vs_fds st1)}" "length (owned parent (map ((!) (vs_fds st1)) is)) \<le> unused (vs_fds st1)"
      using "2.prems"(2,3) u unfolding e o by (auto simp: fds)
    ultimately have "ok \<and> mset (owned child (vs_fds st')) = mset (owned child (vs_fds st1)) +
        mset (map (\<lambda>fd. fd\<lparr>fd_owner := child\<rparr>) (owned parent (map ((!) (vs_fds st1)) is))) \<and>
        (\<forall>o'. o' \<noteq> child \<longrightarrow> mset (owned o' (vs_fds st')) = mset (owned o' (vs_fds st1)))"
      using "2.IH"(2) [OF refl _ t refl refl] "2.prems"(1) True unfolding st1_def by simp
    moreover have "mset (owned o' (vs_fds st1)) = mset (owned o' (vs_fds st)) + (if o' = child then {# ?fd #} else {#})" for o'
      using owned_update [of t "vs_fds st" o' ?fd] tt unfolding fds by (auto split: if_splits)
    ultimately show ?thesis unfolding e o using fd by auto
  qed
qed

definition closed :: "u64 \<Rightarrow> vfs_fd \<Rightarrow> vfs_fd" where
  "closed owner fd = (if fd_used fd \<and> fd_owner fd = owner
     then fd\<lparr>fd_used := False, fd_file := None, fd_pipe := None, fd_pipe_mode := VFS_PIPE_NONE\<rparr> else fd)"

lemma close_all_from_fds:
  "vs_fds (snd (close_all_from owner is c st)) = foldl (\<lambda>fds i. fds[i := closed owner (fds ! i)]) (vs_fds st) is"
proof (induction owner "is" c st rule: close_all_from.induct)
  case (2 owner i "is" c st)
  show ?case
  proof (cases "fd_used (vs_fds st ! i) \<and> fd_owner (vs_fds st ! i) = owner")
    case True
    then show ?thesis using "2.IH"(1) [OF refl True] by (simp add: Let_def clear_fd_fds closed_def)
  next
    case False
    then have "closed owner (vs_fds st ! i) = vs_fds st ! i" by (auto simp: closed_def)
    then show ?thesis using "2.IH"(2) [OF refl False] False by auto
  qed
qed simp

lemma foldl_update_upt:
  "k \<le> length xs \<Longrightarrow> foldl (\<lambda>xs i. xs[i := f (xs ! i)]) xs [0 ..< k] = map f (take k xs) @ drop k xs"
proof (induction k)
  case (Suc k)
  then have "drop k xs = xs ! k # drop (Suc k) xs" by (simp add: Cons_nth_drop_Suc)
  then show ?case using Suc by (simp add: nth_append list_update_append take_Suc_conv_app_nth)
qed simp

lemma close_all_fds: "vs_fds (vfs_close_all owner st) = map (closed owner) (vs_fds st)"
  using close_all_from_fds [of owner "[0 ..< length (vs_fds st)]" False st] foldl_update_upt [of "length (vs_fds st)" "vs_fds st" "closed owner"]
  by (auto simp: vfs_close_all_def wake_def split: prod.splits)

lemma owned_closed:
  "owned o' (map (closed owner) fds) = (if o' = owner then [] else owned o' fds)"
  "unused (map (closed owner) fds) = unused fds + length (owned owner fds)"
  by (induction fds) (auto simp: owned_def closed_def unused_def)

lemma ensure_streams_owned:
  "o' \<noteq> owner \<Longrightarrow> mset (owned o' (vs_fds (ensure_streams_from owner ns st))) = mset (owned o' (vs_fds st))"
proof (induction owner ns st rule: ensure_streams_from.induct)
  case (2 owner n ns st)
  have "mset (owned o' (vs_fds (set_fd i (stream_fd owner n) st))) = mset (owned o' (vs_fds st))" if "allocate_slot st = Some i" for i
    using owned_update [of i "vs_fds st" o' "stream_fd owner n"] allocate_slotD [OF that] "2.prems" by (simp add: set_fd_def stream_fd_def)
  then show ?case using "2.IH" "2.prems" by (auto split: option.split)
qed simp

lemma owned_map_nth: "owned o' (map ((!) fds) [0 ..< length fds]) = owned o' fds"
  by (simp add: map_nth)

lemma vfs_fork_result:
  assumes "parent \<noteq> child" "vfs_fork parent child st0 = (ok, st')"
  defines "fds \<equiv> vs_fds (ensure_standard_streams parent st0)"
  shows "(ok \<longleftrightarrow> length (owned parent fds) \<le> unused fds + length (owned child fds)) \<and>
    mset (owned child (vs_fds st')) = (if ok then mset (map (\<lambda>fd. fd\<lparr>fd_owner := child\<rparr>) (owned parent fds)) else {#}) \<and>
    (\<forall>o'. o' \<noteq> child \<longrightarrow> mset (owned o' (vs_fds st')) = mset (owned o' fds))"
proof -
  define st where "st = vfs_close_all child (ensure_standard_streams parent st0)"
  have st: "vs_fds st = map (closed child) fds" by (simp add: st_def close_all_fds fds_def)
  have u: "unused (vs_fds st) = unused fds + length (owned child fds)" by (simp add: st owned_closed)
  have o: "owned parent (vs_fds st) = owned parent fds" using assms(1) by (simp add: st owned_closed)
  have f: "(if unused (vs_fds st) < length (owned parent (vs_fds st)) then (False, st)
      else fork_from parent child [0 ..< length (vs_fds st)] False st) = (ok, st')"
    using assms(2) by (simp add: vfs_fork_def Let_def st_def [symmetric] unused_def owned_def)
  show ?thesis
  proof (cases "unused (vs_fds st) < length (owned parent (vs_fds st))")
    case True
    then have "st' = st" "\<not> ok" using f by auto
    then show ?thesis using True unfolding u o by (simp add: st owned_closed)
  next
    case False
    then have "fork_from parent child [0 ..< length (vs_fds st)] False st = (ok, st')" using f by simp
    from fork_from_result [OF assms(1) _ _ this] have R: "ok" "mset (owned child (vs_fds st')) = mset (owned child (vs_fds st)) +
        mset (map (\<lambda>fd. fd\<lparr>fd_owner := child\<rparr>) (owned parent fds))"
      "\<And>o'. o' \<noteq> child \<Longrightarrow> mset (owned o' (vs_fds st')) = mset (owned o' (vs_fds st))"
      using False by (simp_all add: owned_map_nth o lessThan_atLeast0)
    show ?thesis using R False unfolding u o by (simp add: st owned_closed)
  qed
qed

section \<open>Properties\<close>

text \<open>C32. Forking copies the descriptor table: it succeeds exactly when there are enough free slots, the child's
  descriptors are then precisely the parent's, sharing their open files and pipes, otherwise the child has
  none, and no other process's descriptors change.\<close>

theorem vfs_fork_shares:
  assumes "parent \<noteq> child" "vfs_fork parent child st0 = (ok, st')"
  defines "fds \<equiv> vs_fds (ensure_standard_streams parent st0)"
  shows "(ok \<longleftrightarrow> length (owned parent fds) \<le> unused fds + length (owned child fds)) \<and>
    mset (owned child (vs_fds st')) = (if ok then mset (map (\<lambda>fd. fd\<lparr>fd_owner := child\<rparr>) (owned parent fds)) else {#}) \<and>
    (\<forall>o'. o' \<noteq> child \<longrightarrow> mset (owned o' (vs_fds st')) = mset (owned o' fds))"
  unfolding fds_def by (rule vfs_fork_result [OF assms(1,2)])

theorem vfs_fork_shares_witness:
  "mset (owned 1 (vs_fds (snd (vfs_fork 1 2 (vfs_static (0 :: nat)))))) =
     mset (owned 1 (vs_fds (ensure_standard_streams 1 (vfs_static (0 :: nat)))))"
proof -
  obtain ok st' where f: "vfs_fork 1 2 (vfs_static (0 :: nat)) = (ok, st')" by fastforce
  show ?thesis using vfs_fork_shares [OF _ f] f by simp
qed

end
