(* ===== verification/Word_Bytes.thy ===== *)
theory Word_Bytes
  imports ConeOS_Prelude
begin

text \<open>
  Words as numbers: the shifts, masks and casts with which C code takes words apart and puts them together,
  as arithmetic on natural numbers, for every width.
\<close>

lemma unat_or_shift:
  fixes x y :: "'a::len word"
  assumes "unat y < 2 ^ n" "unat x * 2 ^ n < 2 ^ LENGTH('a)"
  shows "unat (push_bit n x OR y) = unat x * 2 ^ n + unat y"
proof -
  have "push_bit n (unat x) AND unat y = 0"
  proof (rule bit_eqI)
    fix k
    have "\<not> bit (unat y) k" if "n \<le> k"
      using assms(1) that by (metis bit_iff_odd div_less even_zero less_le_trans one_le_numeral power_increasing)
    then show "bit (push_bit n (unat x) AND unat y) k = bit (0 :: nat) k" by (auto simp: bit_simps)
  qed
  then have "push_bit n (unat x) OR unat y = unat x * 2 ^ n + unat y"
    using disjunctive_add_eq_or [of "push_bit n (unat x)" "unat y"] by (simp add: push_bit_eq_mult)
  moreover have "unat (push_bit n x) = push_bit n (unat x)"
  proof -
    have "unat (push_bit n x) = take_bit LENGTH('a) (push_bit n (unat x))" by (rule unsigned_push_bit_eq)
    then show ?thesis using assms(2) by (simp only: push_bit_eq_mult take_bit_nat_eq_self)
  qed
  ultimately show ?thesis by (simp add: unsigned_or_eq)
qed

lemma unat_and_mask: "unat (x AND mask n :: 'a::len word) = unat x mod 2 ^ n"
  by (simp only: take_bit_eq_mask [symmetric] unsigned_take_bit_eq) (simp add: take_bit_eq_mod)

lemma unat_drop_bit: "unat (drop_bit n x :: 'a::len word) = unat x div 2 ^ n"
proof -
  have "unat (drop_bit n x) = drop_bit n (take_bit LENGTH('a) (unat x))" by (rule unsigned_drop_bit_eq)
  then show ?thesis by (simp add: take_bit_nat_eq_self drop_bit_eq_div)
qed

lemma unat_ucast_small: "unat (x :: 'a::len word) < 2 ^ LENGTH('b::len) \<Longrightarrow> unat (ucast x :: 'b word) = unat x"
  by (simp add: unsigned_ucast_eq take_bit_nat_eq_self)

lemma unat_ucast_mod: "unat (ucast (x :: 'a::len word) :: 'b::len word) = unat x mod 2 ^ LENGTH('b)"
  by (simp add: unsigned_ucast_eq take_bit_eq_mod)

end
