(* ===== verification/Fat32_Names.thy ===== *)
theory Fat32_Names
  imports Word_Bytes
begin

text \<open>
  The data formats of \<^verbatim>\<open>src/fs/fat32.c\<close>: little-endian fields, 8.3 names, the conversions between UTF-8
  and UTF-16, and the long file name entries. Strings of the file system are lists of bytes without the
  terminator. A function that fails has the result None; what it left in its output buffer is not used
  by any caller.
\<close>

section \<open>Little-endian fields\<close>

definition read16 :: "u8 list \<Rightarrow> nat \<Rightarrow> u16" where
  "read16 data offset = ucast (data ! offset) OR push_bit 8 (ucast (data ! (offset + 1)))"

definition read32 :: "u8 list \<Rightarrow> nat \<Rightarrow> u32" where
  "read32 data offset = ucast (data ! offset) OR push_bit 8 (ucast (data ! (offset + 1))) OR
     push_bit 16 (ucast (data ! (offset + 2))) OR push_bit 24 (ucast (data ! (offset + 3)))"

definition write32 :: "nat \<Rightarrow> u32 \<Rightarrow> u8 list \<Rightarrow> u8 list" where
  "write32 offset value data =
     data[offset := ucast value, offset + 1 := ucast (drop_bit 8 value), offset + 2 := ucast (drop_bit 16 value),
          offset + 3 := ucast (drop_bit 24 value)]"

definition write16 :: "nat \<Rightarrow> u16 \<Rightarrow> u8 list \<Rightarrow> u8 list" where
  "write16 offset value data = data[offset := ucast value, offset + 1 := ucast (drop_bit 8 value)]"

section \<open>Short names\<close>

definition upper :: "u8 \<Rightarrow> u8" where
  "upper c = (if 0x61 \<le> c \<and> c \<le> 0x7A then c - 0x20 else c)"

fun short_name_from :: "u8 list \<Rightarrow> nat \<Rightarrow> bool \<Rightarrow> u8 list \<Rightarrow> u8 list option" where
  "short_name_from [] target extension result = (if extension \<and> target = 8 then None else Some result)"
| "short_name_from (c # name) target extension result =
     (if c = 0x2E then (if extension \<or> target = 0 then None else short_name_from name 8 True result)
      else if extension \<and> 11 \<le> target \<or> \<not> extension \<and> 8 \<le> target then None
      else
        let u = upper c in
        if u < 0x21 \<or> 0x7E < u \<or> u = 0x2F \<or> u = 0x5C then None
        else short_name_from name (target + 1) extension (result[target := u]))"

definition short_name :: "u8 list \<Rightarrow> u8 list option" where
  "short_name name = (if name = [] then None else short_name_from name 0 False (replicate 11 0x20))"

text \<open>The name a short entry stands for.\<close>

definition short_display :: "u8 list \<Rightarrow> u8 list" where
  "short_display entry =
     takeWhile (\<lambda>c. c \<noteq> 0x20) (take 8 entry) @
     (if entry ! 8 \<noteq> 0x20 then 0x2E # takeWhile (\<lambda>c. c \<noteq> 0x20) (take 3 (drop 8 entry)) else [])"

definition canonical_short_name :: "u8 list \<Rightarrow> u8 list \<Rightarrow> bool" where
  "canonical_short_name name entry \<longleftrightarrow> name = takeWhile (\<lambda>c. c \<noteq> 0) (short_display entry)"

section \<open>UTF-8 and UTF-16\<close>

definition continuation :: "u8 \<Rightarrow> bool" where
  "continuation b \<longleftrightarrow> b AND 0xC0 = 0x80"

definition low6 :: "u8 \<Rightarrow> u32" where
  "low6 b = ucast (b AND 0x3F)"

text \<open>One character of the input and the rest of it.\<close>

fun decode_utf8 :: "u8 list \<Rightarrow> (u32 \<times> u8 list) option" where
  "decode_utf8 [] = None"
| "decode_utf8 (first # rest) =
     (if first < 0x80 then Some (ucast first, rest)
      else if 0xC2 \<le> first \<and> first \<le> 0xDF
      then (case rest of
              b1 # more \<Rightarrow>
                if \<not> continuation b1 then None
                else Some (push_bit 6 (ucast (first AND 0x1F)) OR low6 b1, more)
            | _ \<Rightarrow> None)
      else if 0xE0 \<le> first \<and> first \<le> 0xEF
      then (case rest of
              b1 # b2 # more \<Rightarrow>
                if \<not> continuation b1 \<or> \<not> continuation b2 \<or> first = 0xE0 \<and> b1 < 0xA0 \<or> first = 0xED \<and> 0xA0 \<le> b1 then None
                else Some (push_bit 12 (ucast (first AND 0x0F)) OR push_bit 6 (low6 b1) OR low6 b2, more)
            | _ \<Rightarrow> None)
      else if 0xF0 \<le> first \<and> first \<le> 0xF4
      then (case rest of
              b1 # b2 # b3 # more \<Rightarrow>
                if \<not> continuation b1 \<or> \<not> continuation b2 \<or> \<not> continuation b3 \<or> first = 0xF0 \<and> b1 < 0x90 \<or>
                   first = 0xF4 \<and> 0x90 \<le> b1 then None
                else Some (push_bit 18 (ucast (first AND 7)) OR push_bit 12 (low6 b1) OR push_bit 6 (low6 b2) OR low6 b3, more)
            | _ \<Rightarrow> None)
      else None)"

definition forbidden :: "u32 \<Rightarrow> bool" where
  "forbidden c \<longleftrightarrow> c < 0x20 \<or> c = 0x7F \<or> c = 0x2F \<or> c = 0x5C \<or> c = 0x3A \<or> c = 0x2A \<or> c = 0x3F \<or> c = 0x22 \<or> c = 0x3C \<or>
     c = 0x3E \<or> c = 0x7C"

lemma decode_utf8_shorter: "decode_utf8 bs = Some (c, rest) \<Longrightarrow> length rest < length bs"
  by (induction bs rule: decode_utf8.induct) (auto split: if_splits list.splits)

function utf8_to_utf16_from :: "u8 list \<Rightarrow> u16 list \<Rightarrow> u16 list option" where
  "utf8_to_utf16_from input output =
     (if input = [] then Some output
      else
        (case decode_utf8 input of
           None \<Rightarrow> None
         | Some (c, rest) \<Rightarrow>
             if forbidden c then None
             else if c \<le> 0xFFFF
             then (if length output = 255 then None else utf8_to_utf16_from rest (output @ [ucast c]))
             else if 253 < length output then None
             else
               let d = c - 0x10000
               in utf8_to_utf16_from rest (output @ [0xD800 OR ucast (drop_bit 10 d), 0xDC00 OR ucast (d AND 0x3FF)])))"
  by auto
termination by (relation "measure (\<lambda>(input, output). length input)") (auto dest: decode_utf8_shorter)

declare utf8_to_utf16_from.simps [simp del]

definition utf8_to_utf16 :: "u8 list \<Rightarrow> u16 list option" where
  "utf8_to_utf16 input =
     (if input = [] \<or> hd input = 0x20 \<or> last input = 0x20 \<or> last input = 0x2E then None
      else
        (case utf8_to_utf16_from input [] of
           None \<Rightarrow> None
         | Some units \<Rightarrow> if units = [] \<or> 255 < length units then None else Some units))"

definition encode_utf8 :: "u32 \<Rightarrow> u8 list" where
  "encode_utf8 c =
     (if c < 0x80 then [ucast c]
      else if c < 0x800 then [0xC0 OR ucast (drop_bit 6 c), 0x80 OR ucast (c AND 0x3F)]
      else if c < 0x10000
      then [0xE0 OR ucast (drop_bit 12 c), 0x80 OR ucast (drop_bit 6 c AND 0x3F), 0x80 OR ucast (c AND 0x3F)]
      else [0xF0 OR ucast (drop_bit 18 c), 0x80 OR ucast (drop_bit 12 c AND 0x3F), 0x80 OR ucast (drop_bit 6 c AND 0x3F),
            0x80 OR ucast (c AND 0x3F)])"

fun utf16_to_utf8_from :: "u16 list \<Rightarrow> nat \<Rightarrow> u8 list \<Rightarrow> u8 list option" where
  "utf16_to_utf8_from [] capacity output = Some output"
| "utf16_to_utf8_from (unit # units) capacity output =
     (if unit = 0 \<or> unit = 0xFFFF then Some output
      else if 0xD800 \<le> unit \<and> unit \<le> 0xDBFF
      then (case units of
              [] \<Rightarrow> None
            | low # units' \<Rightarrow>
                if low < 0xDC00 \<or> 0xDFFF < low then None
                else
                  let c = 0x10000 + push_bit 10 (ucast unit - 0xD800) + (ucast low - 0xDC00)
                  in if capacity \<le> length output + length (encode_utf8 c) then None
                     else utf16_to_utf8_from units' capacity (output @ encode_utf8 c))
      else if 0xDC00 \<le> unit \<and> unit \<le> 0xDFFF then None
      else
        let c = ucast unit
        in if capacity \<le> length output + length (encode_utf8 c) then None
           else utf16_to_utf8_from units capacity (output @ encode_utf8 c))"

definition utf16_to_utf8 :: "u16 list \<Rightarrow> nat \<Rightarrow> u8 list option" where
  "utf16_to_utf8 units capacity = utf16_to_utf8_from units capacity []"

definition lower :: "u8 \<Rightarrow> u8" where
  "lower c = (if 0x41 \<le> c \<and> c \<le> 0x5A then c + 0x20 else c)"

fun path_name_equal :: "u8 list \<Rightarrow> u8 list \<Rightarrow> bool" where
  "path_name_equal (a # left) (b # right) = (if lower a \<noteq> lower b then False else path_name_equal left right)"
| "path_name_equal left right = (left = right)"

section \<open>Long name entries\<close>

definition lfn_checksum :: "u8 list \<Rightarrow> u8" where
  "lfn_checksum entry = foldl (\<lambda>sum c. (if sum AND 1 \<noteq> 0 then 0x80 else 0) + drop_bit 1 sum + c) 0 (take 11 entry)"

record lfn_state =
  lf_units :: "u16 list"
  lf_checksum :: u8
  lf_expected_ordinal :: u8
  lf_total_ordinals :: u8
  lf_active :: bool

definition lfn_positions :: "nat list" where
  "lfn_positions = [1, 3, 5, 7, 9, 14, 16, 18, 20, 22, 24, 28, 30]"

definition lfn_reset :: "lfn_state \<Rightarrow> lfn_state" where
  "lfn_reset lfn = lfn\<lparr>lf_active := False, lf_expected_ordinal := 0, lf_total_ordinals := 0\<rparr>"

text \<open>Replace the units from \<open>base\<close> on.\<close>

definition put_units :: "nat \<Rightarrow> u16 list \<Rightarrow> u16 list \<Rightarrow> u16 list" where
  "put_units base new units = take base units @ new @ drop (base + length new) units"

definition lfn_add_entry :: "u8 list \<Rightarrow> lfn_state \<Rightarrow> lfn_state" where
  "lfn_add_entry entry lfn =
     (let sequence = entry ! 0; ordinal = sequence AND 0x1F in
      if sequence AND 0xA0 \<noteq> 0 then lfn_reset lfn
      else
        let lfn1 = (if sequence AND 0x40 \<noteq> 0
                    then (lfn_reset lfn)\<lparr>lf_active := 0 < ordinal \<and> ordinal \<le> 20, lf_total_ordinals := ordinal,
                           lf_expected_ordinal := ordinal, lf_checksum := entry ! 13, lf_units := replicate 260 0xFFFF\<rparr>
                    else lfn)
        in if \<not> lf_active lfn1 \<or> ordinal \<noteq> lf_expected_ordinal lfn1 \<or> entry ! 13 \<noteq> lf_checksum lfn1 \<or> entry ! 12 \<noteq> 0 \<or>
              read16 entry 26 \<noteq> 0 then lfn_reset lfn1
           else lfn1\<lparr>lf_units := put_units ((unat ordinal - 1) * 13) (map (read16 entry) lfn_positions) (lf_units lfn1),
                     lf_expected_ordinal := lf_expected_ordinal lfn1 - 1\<rparr>)"

definition lfn_decode :: "lfn_state \<Rightarrow> u8 list \<Rightarrow> nat \<Rightarrow> u8 list option" where
  "lfn_decode lfn short_entry capacity =
     (if \<not> lf_active lfn \<or> lf_expected_ordinal lfn \<noteq> 0 \<or> lfn_checksum short_entry \<noteq> lf_checksum lfn then None
      else utf16_to_utf8 (takeWhile (\<lambda>u. u \<noteq> 0) (take (unat (lf_total_ordinals lfn) * 13) (lf_units lfn))) capacity)"

text \<open>The long name entry with a given ordinal, as \<open>create_named_entry\<close> builds it.\<close>

definition lfn_entry :: "u16 list \<Rightarrow> u8 \<Rightarrow> nat \<Rightarrow> bool \<Rightarrow> u8 list" where
  "lfn_entry units checksum ordinal first =
     (let item = (replicate 32 0)[0 := word_of_nat ordinal OR (if first then 0x40 else 0), 11 := 0x0F, 13 := checksum];
          unit_at = (\<lambda>n. if n < length units then units ! n else if n = length units then 0 else 0xFFFF)
      in foldl (\<lambda>item j. write16 (lfn_positions ! j) (unit_at ((ordinal - 1) * 13 + j)) item) (write16 26 0 item) [0 ..< 13])"

section \<open>UTF-8 and UTF-16 round trip\<close>

lemma unat_and_63: "unat (x AND 0x3F :: 'a::len word) = unat x mod 64"
  using unat_and_mask [of x 6] by (simp add: mask_eq_exp_minus_1)

lemma unat_low6: "unat (low6 b) = unat b mod 64"
proof -
  have "unat (b AND 0x3F) < 2 ^ LENGTH(32)" unfolding unat_and_63 by (rule less_trans [of _ 64]) simp_all
  then show ?thesis by (simp add: low6_def unat_ucast_small unat_and_63)
qed

lemma unat_u8_lt: "unat (b :: u8) < 256"
  using unsigned_less [of b] by simp

lemma continuation_unat:
  assumes "continuation b" shows "unat b = 128 + unat (low6 b)" "unat (low6 b) < 64"
proof -
  have "drop_bit 6 (b AND 0xC0) = drop_bit 6 (0x80 :: u8)" using assms by (simp only: continuation_def)
  then have "drop_bit 6 b AND mask 2 = 2" by (simp add: drop_bit_and mask_eq_exp_minus_1)
  then have "unat b div 64 mod 4 = 2" using unat_and_mask [of "drop_bit 6 b" 2] by (simp add: unat_drop_bit)
  then have "unat b div 64 = 2" using unat_u8_lt [of b] by (simp add: less_mult_imp_div_less)
  then show "unat b = 128 + unat (low6 b)" using div_mult_mod_eq [of "unat b" 64] by (simp add: unat_low6)
  show "unat (low6 b) < 64" by (simp add: unat_low6)
qed

lemma encode_bytes:
  fixes c :: u32
  shows "unat (0x80 OR ucast (c AND 0x3F) :: u8) = 128 + unat c mod 64"
    "unat c < 0x800 \<Longrightarrow> unat (0xC0 OR ucast (drop_bit 6 c) :: u8) = 192 + unat c div 64"
    "unat c < 0x10000 \<Longrightarrow> unat (0xE0 OR ucast (drop_bit 12 c) :: u8) = 224 + unat c div 4096"
    "unat c < 0x110000 \<Longrightarrow> unat (0xF0 OR ucast (drop_bit 18 c) :: u8) = 240 + unat c div 262144"
proof -
  have a: "unat (ucast (c AND 0x3F) :: u8) = unat c mod 64"
  proof -
    have "unat (c AND 0x3F) < 2 ^ LENGTH(8)" unfolding unat_and_63 by (rule less_trans [of _ 64]) simp_all
    then show ?thesis by (simp add: unat_ucast_small unat_and_63)
  qed
  show "unat (0x80 OR ucast (c AND 0x3F) :: u8) = 128 + unat c mod 64"
    using unat_or_shift [of "ucast (c AND 0x3F) :: u8" 6 2] by (simp add: a)
  have d: "unat (ucast (drop_bit k c) :: u8) = unat c div 2 ^ k" if "unat c < 256 * 2 ^ k" for k
    using that by (subst unat_ucast_small) (simp_all add: unat_drop_bit less_mult_imp_div_less)
  show "unat (0xC0 OR ucast (drop_bit 6 c) :: u8) = 192 + unat c div 64" if "unat c < 0x800"
    using unat_or_shift [of "ucast (drop_bit 6 c) :: u8" 6 3] d [of 6] that by (simp add: less_mult_imp_div_less)
  show "unat (0xE0 OR ucast (drop_bit 12 c) :: u8) = 224 + unat c div 4096" if "unat c < 0x10000"
    using unat_or_shift [of "ucast (drop_bit 12 c) :: u8" 5 7] d [of 12] that
      less_mult_imp_div_less [of "unat c" 16 4096] by simp
  show "unat (0xF0 OR ucast (drop_bit 18 c) :: u8) = 240 + unat c div 262144" if "unat c < 0x110000"
    using unat_or_shift [of "ucast (drop_bit 18 c) :: u8" 4 15] d [of 18] that
      less_mult_imp_div_less [of "unat c" 8 262144] by simp
qed

lemma u8_eq_unat: "(a :: u8) = b \<longleftrightarrow> unat a = unat b"
  by (rule word_unat_eq_iff)

lemma digit2: "x < 64 \<Longrightarrow> (a * 64 + x) div 64 = a \<and> (a * 64 + x) mod 64 = (x :: nat)"
  by simp

lemma digit3:
  assumes "x < 64" "y < (64 :: nat)"
  shows "(a * 4096 + (x * 64 + y)) div 4096 = a" "(a * 4096 + (x * 64 + y)) div 64 mod 64 = x" "(a * 4096 + (x * 64 + y)) mod 64 = y"
    "(a * 4096 + (x * 64 + y)) div 64 = a * 64 + x"
proof -
  have e: "a * 4096 + (x * 64 + y) = (a * 64 + x) * 64 + y" by simp
  show d: "(a * 4096 + (x * 64 + y)) div 64 = a * 64 + x" "(a * 4096 + (x * 64 + y)) mod 64 = y"
    unfolding e using digit2 [OF assms(2), of "a * 64 + x"] by blast+
  show "(a * 4096 + (x * 64 + y)) div 64 mod 64 = x" unfolding d(1) using digit2 [OF assms(1)] by simp
  have "(a * 4096 + (x * 64 + y)) div 4096 = (a * 4096 + (x * 64 + y)) div 64 div 64" by (simp add: div_mult2_eq [symmetric])
  then show "(a * 4096 + (x * 64 + y)) div 4096 = a" unfolding d(1) using digit2 [OF assms(1)] by simp
qed

lemma digit4:
  assumes "x < 64" "y < 64" "z < (64 :: nat)"
  shows "(a * 262144 + (x * 4096 + (y * 64 + z))) div 262144 = a" "(a * 262144 + (x * 4096 + (y * 64 + z))) div 4096 mod 64 = x"
    "(a * 262144 + (x * 4096 + (y * 64 + z))) div 64 mod 64 = y" "(a * 262144 + (x * 4096 + (y * 64 + z))) mod 64 = z"
proof -
  have e: "a * 262144 + (x * 4096 + (y * 64 + z)) = (a * 64 + x) * 4096 + (y * 64 + z)" by simp
  note D = digit3 [OF assms(2,3), of "a * 64 + x"]
  show "(a * 262144 + (x * 4096 + (y * 64 + z))) mod 64 = z" "(a * 262144 + (x * 4096 + (y * 64 + z))) div 64 mod 64 = y"
    unfolding e using D by blast+
  show "(a * 262144 + (x * 4096 + (y * 64 + z))) div 4096 mod 64 = x" unfolding e D(1) using digit2 [OF assms(1)] by simp
  have "n div 262144 = n div 4096 div 64" for n :: nat by (simp add: div_mult2_eq [symmetric])
  then show "(a * 262144 + (x * 4096 + (y * 64 + z))) div 262144 = a" unfolding e D(1) using digit2 [OF assms(1)] e D(1) by simp
qed

lemma unat_lead: "unat (ucast (f AND mask k :: u8) :: u32) = unat f mod 2 ^ k"
proof -
  have "unat (f AND mask k) < 2 ^ LENGTH(32)" using unat_u8_lt [of "f AND mask k"] by (rule less_trans) simp
  then show ?thesis by (simp add: unat_ucast_small unat_and_mask)
qed

lemma unat_join2:
  "unat a < 0x40000 \<Longrightarrow> unat x < 64 \<Longrightarrow> unat (push_bit 6 a OR x :: u32) = unat a * 64 + unat x"
  "unat a < 0x1000 \<Longrightarrow> unat y < 4096 \<Longrightarrow> unat (push_bit 12 a OR y :: u32) = unat a * 4096 + unat y"
  "unat a < 0x40 \<Longrightarrow> unat z < 262144 \<Longrightarrow> unat (push_bit 18 a OR z :: u32) = unat a * 262144 + unat z"
  using unat_or_shift [of x 6 a] unat_or_shift [of y 12 a] unat_or_shift [of z 18 a] by simp_all

lemma decode_encode2:
  assumes "0xC2 \<le> f" "f \<le> 0xDF" "r = b1 # rest" "continuation b1" "c = push_bit 6 (ucast (f AND 0x1F)) OR low6 b1"
  shows "f # r = encode_utf8 c @ rest \<and> unat c < 0x110000 \<and> \<not> (0xD800 \<le> unat c \<and> unat c \<le> 0xDFFF)"
proof -
  have f: "194 \<le> unat f" "unat f \<le> 223" using assms(1,2) by (simp_all add: word_le_nat_alt)
  have m: "unat f mod 32 = unat f - 192" using f mod_if [of "unat f - 192" 32] by (simp add: le_mod_geq)
  note x = continuation_unat [OF assms(4)]
  have a: "unat (ucast (f AND 0x1F) :: u32) = unat f - 192"
    using unat_lead [of f 5] m by (simp add: mask_eq_exp_minus_1)
  have c: "unat c = (unat f - 192) * 64 + unat (low6 b1)" unfolding assms(5) using a f x by (subst unat_join2(1)) simp_all
  have r: "128 \<le> unat c" "unat c < 0x800" unfolding c using f x by linarith+
  show ?thesis using r encode_bytes [of c] digit2 [OF x(2), of "unat f - 192"] f x(1) assms(3)
    by (simp add: encode_utf8_def word_less_nat_alt u8_eq_unat c [symmetric])
qed

lemma decode_encode3:
  assumes "0xE0 \<le> f" "f \<le> 0xEF" "r = b1 # b2 # rest" "continuation b1" "continuation b2"
    "f = 0xE0 \<longrightarrow> 0xA0 \<le> b1" "f = 0xED \<longrightarrow> b1 < 0xA0"
    "c = push_bit 12 (ucast (f AND 0x0F)) OR push_bit 6 (low6 b1) OR low6 b2"
  shows "f # r = encode_utf8 c @ rest \<and> unat c < 0x110000 \<and> \<not> (0xD800 \<le> unat c \<and> unat c \<le> 0xDFFF)"
proof -
  have f: "224 \<le> unat f" "unat f \<le> 239" using assms(1,2) by (simp_all add: word_le_nat_alt)
  note x = continuation_unat [OF assms(4)] and y = continuation_unat [OF assms(5)]
  have a: "unat (ucast (f AND 0xF) :: u32) = unat f - 224"
  proof -
    have "unat f = unat f - 224 + 14 * 16" using f by simp
    then have "unat f mod 16 = (unat f - 224) mod 16" by (metis mod_mult_self1)
    also have "\<dots> = unat f - 224" using f by simp
    finally show ?thesis using unat_lead [of f 4] by (simp add: mask_eq_exp_minus_1)
  qed
  have i: "unat (push_bit 6 (low6 b1) OR low6 b2) = unat (low6 b1) * 64 + unat (low6 b2)" using x y by (intro unat_join2(1)) simp_all
  have c: "unat c = (unat f - 224) * 4096 + (unat (low6 b1) * 64 + unat (low6 b2))"
    unfolding assms(8) using a f x y i by (subst unat_join2(2)) simp_all
  have lo: "f = 0xE0 \<Longrightarrow> 32 \<le> unat (low6 b1)" "f = 0xED \<Longrightarrow> unat (low6 b1) < 32"
    using assms(6,7) x by (simp_all add: word_le_nat_alt word_less_nat_alt)
  have fe: "f = 0xE0 \<or> 225 \<le> unat f" "f = 0xED \<or> unat f \<noteq> 237" using f by (auto simp: u8_eq_unat)
  have r: "0x800 \<le> unat c" "unat c < 0x10000" unfolding c using f x y lo(1) fe(1) by auto
  have s: "\<not> (0xD800 \<le> unat c \<and> unat c \<le> 0xDFFF)" unfolding c using f x y lo(2) fe(2) by auto
  show ?thesis using r s encode_bytes [of c] encode_bytes(1) [of "drop_bit 6 c"] digit3 [OF x(2) y(2), of "unat f - 224"] f x(1) y(1) assms(3)
    by (simp add: encode_utf8_def word_less_nat_alt u8_eq_unat c [symmetric] unat_drop_bit)
qed

lemma decode_encode4:
  assumes "0xF0 \<le> f" "f \<le> 0xF4" "r = b1 # b2 # b3 # rest" "continuation b1" "continuation b2" "continuation b3"
    "f = 0xF0 \<longrightarrow> 0x90 \<le> b1" "f = 0xF4 \<longrightarrow> b1 < 0x90"
    "c = push_bit 18 (ucast (f AND 7)) OR push_bit 12 (low6 b1) OR push_bit 6 (low6 b2) OR low6 b3"
  shows "f # r = encode_utf8 c @ rest \<and> unat c < 0x110000 \<and> \<not> (0xD800 \<le> unat c \<and> unat c \<le> 0xDFFF)"
proof -
  have f: "240 \<le> unat f" "unat f \<le> 244" using assms(1,2) by (simp_all add: word_le_nat_alt)
  note x = continuation_unat [OF assms(4)] and y = continuation_unat [OF assms(5)] and z = continuation_unat [OF assms(6)]
  have a: "unat (ucast (f AND 7) :: u32) = unat f - 240"
  proof -
    have "unat f = unat f - 240 + 30 * 8" using f by simp
    then have "unat f mod 8 = (unat f - 240) mod 8" by (metis mod_mult_self1)
    also have "\<dots> = unat f - 240" using f by simp
    finally show ?thesis using unat_lead [of f 3] by (simp add: mask_eq_exp_minus_1)
  qed
  have i: "unat (push_bit 6 (low6 b2) OR low6 b3) = unat (low6 b2) * 64 + unat (low6 b3)" using y z by (intro unat_join2(1)) simp_all
  have j: "unat (push_bit 12 (low6 b1) OR push_bit 6 (low6 b2) OR low6 b3) = unat (low6 b1) * 4096 + (unat (low6 b2) * 64 + unat (low6 b3))"
    using x y z i by (subst unat_join2(2)) simp_all
  have c: "unat c = (unat f - 240) * 262144 + (unat (low6 b1) * 4096 + (unat (low6 b2) * 64 + unat (low6 b3)))"
    unfolding assms(9) using a f x y z j by (subst unat_join2(3)) simp_all
  have lo: "f = 0xF0 \<Longrightarrow> 16 \<le> unat (low6 b1)" "f = 0xF4 \<Longrightarrow> unat (low6 b1) < 16"
    using assms(7,8) x by (simp_all add: word_le_nat_alt word_less_nat_alt)
  have fe: "f = 0xF0 \<or> 241 \<le> unat f" "f = 0xF4 \<or> unat f \<le> 243" using f by (auto simp: u8_eq_unat)
  have r: "0x10000 \<le> unat c" "unat c < 0x110000" unfolding c using f x y z lo fe by auto
  show ?thesis using r encode_bytes [of c] encode_bytes(1) [of "drop_bit 6 c"] encode_bytes(1) [of "drop_bit 12 c"]
      digit4 [OF x(2) y(2) z(2), of "unat f - 240"] f x(1) y(1) z(1) assms(3)
    by (simp add: encode_utf8_def word_less_nat_alt u8_eq_unat c [symmetric] unat_drop_bit)
qed

lemma decode_encode:
  assumes "decode_utf8 bs = Some (c, rest)"
  shows "bs = encode_utf8 c @ rest \<and> unat c < 0x110000 \<and> \<not> (0xD800 \<le> unat c \<and> unat c \<le> 0xDFFF)"
proof -
  obtain f r where bs: "bs = f # r" using assms by (cases bs) auto
  consider (one) "f < 0x80" "c = ucast f" "rest = r"
    | (two) b1 where "0xC2 \<le> f" "f \<le> 0xDF" "r = b1 # rest" "continuation b1" "c = push_bit 6 (ucast (f AND 0x1F)) OR low6 b1"
    | (three) b1 b2 where "0xE0 \<le> f" "f \<le> 0xEF" "r = b1 # b2 # rest" "continuation b1" "continuation b2"
    "f = 0xE0 \<longrightarrow> 0xA0 \<le> b1" "f = 0xED \<longrightarrow> b1 < 0xA0"
    "c = push_bit 12 (ucast (f AND 0x0F)) OR push_bit 6 (low6 b1) OR low6 b2"
    | (four) b1 b2 b3 where "0xF0 \<le> f" "f \<le> 0xF4" "r = b1 # b2 # b3 # rest" "continuation b1" "continuation b2" "continuation b3"
    "f = 0xF0 \<longrightarrow> 0x90 \<le> b1" "f = 0xF4 \<longrightarrow> b1 < 0x90"
    "c = push_bit 18 (ucast (f AND 7)) OR push_bit 12 (low6 b1) OR push_bit 6 (low6 b2) OR low6 b3"
    using assms unfolding bs
    by (simp split: if_splits list.splits) (auto simp: not_le not_less)
  then show ?thesis
  proof cases
    case one
    have "unat f < 128" using one(1) by (simp add: word_less_nat_alt)
    then show ?thesis using one bs by (auto simp: encode_utf8_def word_less_nat_alt unat_ucast_small u8_eq_unat)
  next
    case two
    then show ?thesis unfolding bs by (rule decode_encode2)
  next
    case three
    then show ?thesis unfolding bs by (rule decode_encode3)
  next
    case four
    then show ?thesis unfolding bs by (rule decode_encode4)
  qed
qed

lemma unat_ucast_u16_u32: "unat (ucast (x :: u16) :: u32) = unat x"
proof -
  have "unat x < 2 ^ LENGTH(32)" using unat_u16_lt [of x] by (rule less_trans) simp
  then show ?thesis by (rule unat_ucast_small)
qed

lemma surrogates:
  fixes c :: u32
  assumes "0x10000 \<le> unat c" "unat c < 0x110000"
  defines "hi \<equiv> 0xD800 OR ucast (drop_bit 10 (c - 0x10000)) :: u16" and "lo \<equiv> 0xDC00 OR ucast ((c - 0x10000) AND 0x3FF) :: u16"
  shows "0xD800 \<le> hi" "hi \<le> 0xDBFF" "0xDC00 \<le> lo" "lo \<le> 0xDFFF"
    "0x10000 + push_bit 10 (ucast hi - 0xD800) + (ucast lo - 0xDC00) = c"
proof -
  define d where "d = unat c - 0x10000"
  have ud: "unat (c - 0x10000) = d" using assms(1) by (simp add: d_def unat_sub word_le_nat_alt)
  have d: "d < 0x100000" using assms(2) by (simp add: d_def)
  have q: "d div 1024 < 1024" using d by (simp add: less_mult_imp_div_less)
  have h: "unat (ucast (drop_bit 10 (c - 0x10000)) :: u16) = d div 1024"
    using q ud by (subst unat_ucast_small) (simp_all add: unat_drop_bit)
  have m: "unat ((c - 0x10000) AND 0x3FF) = d mod 1024" using unat_and_mask [of "c - 0x10000" 10] ud by (simp add: mask_eq_exp_minus_1)
  have l: "unat (ucast ((c - 0x10000) AND 0x3FF) :: u16) = d mod 1024"
  proof -
    have "unat ((c - 0x10000) AND 0x3FF) < 2 ^ LENGTH(16)" unfolding m by (rule less_trans [of _ 1024]) simp_all
    then show ?thesis using m by (simp add: unat_ucast_small)
  qed
  have hi: "unat hi = 0xD800 + d div 1024"
    unfolding hi_def using unat_or_shift [of "ucast (drop_bit 10 (c - 0x10000)) :: u16" 10 54] h q by simp
  have lo: "unat lo = 0xDC00 + d mod 1024"
    unfolding lo_def using unat_or_shift [of "ucast ((c - 0x10000) AND 0x3FF) :: u16" 10 55] l by simp
  have m1: "d mod 1024 < 1024" by simp
  show "0xD800 \<le> hi" "hi \<le> 0xDBFF" "0xDC00 \<le> lo" "lo \<le> 0xDFFF" using hi lo q m1 by (simp_all add: word_le_nat_alt)
  have uh: "unat (ucast hi - 0xD800 :: u32) = d div 1024"
    using hi by (subst unat_sub) (simp_all add: word_le_nat_alt unat_ucast_u16_u32)
  have ul: "unat (ucast lo - 0xDC00 :: u32) = d mod 1024"
    using lo by (subst unat_sub) (simp_all add: word_le_nat_alt unat_ucast_u16_u32)
  have p: "unat (push_bit 10 (ucast hi - 0xD800) :: u32) = d div 1024 * 1024"
    using unat_or_shift [of 0 10 "ucast hi - 0xD800 :: u32"] uh q by simp
  have dd: "d div 1024 * 1024 + d mod 1024 = d" by (rule div_mult_mod_eq)
  have "unat (0x10000 + a + b) = 0x10000 + (unat a + unat b)" if "unat a + unat b < 0x100000" for a b :: u32
    using that by (simp add: unat_word_ariths)
  from this [of "push_bit 10 (ucast hi - 0xD800)" "ucast lo - 0xDC00"]
  have "unat (0x10000 + push_bit 10 (ucast hi - 0xD800) + (ucast lo - 0xDC00) :: u32) = 0x10000 + d"
    using d unfolding p ul dd by blast
  then show "0x10000 + push_bit 10 (ucast hi - 0xD800) + (ucast lo - 0xDC00) = c"
    using assms(1) by (simp add: word_unat_eq_iff [of _ c] d_def)
qed

lemma encode_length: "length (encode_utf8 c) \<le> (if unat c < 0x10000 then 3 else 4)"
  by (simp add: encode_utf8_def word_less_nat_alt)

lemma utf16_bmp:
  assumes "unat c < 0x10000" "\<not> (0xD800 \<le> unat c \<and> unat c \<le> 0xDFFF)" "c \<noteq> 0" "c \<noteq> 0xFFFF"
  shows "utf16_to_utf8_from (ucast c # units) capacity out = (if capacity \<le> length out + length (encode_utf8 c) then None
    else utf16_to_utf8_from units capacity (out @ encode_utf8 c))"
proof -
  have u: "unat (ucast c :: u16) = unat c" using assms(1) by (simp add: unat_ucast_small)
  have uc: "ucast (ucast c :: u16) = c" by (simp add: word_unat_eq_iff [of _ c] unat_ucast_u16_u32 u)
  have "(ucast c :: u16) \<noteq> 0" "(ucast c :: u16) \<noteq> 0xFFFF" using assms(3,4) u by (auto simp: word_unat_eq_iff)
  then show ?thesis using assms(2) by (auto simp: uc Let_def word_le_nat_alt u)
qed

lemma utf16_pair:
  assumes "0x10000 \<le> unat c" "unat c < 0x110000"
  shows "utf16_to_utf8_from ((0xD800 OR ucast (drop_bit 10 (c - 0x10000))) # (0xDC00 OR ucast ((c - 0x10000) AND 0x3FF)) # units) capacity out =
    (if capacity \<le> length out + length (encode_utf8 c) then None else utf16_to_utf8_from units capacity (out @ encode_utf8 c))"
proof -
  define hi where "hi = (0xD800 OR ucast (drop_bit 10 (c - 0x10000)) :: u16)"
  define lo where "lo = (0xDC00 OR ucast ((c - 0x10000) AND 0x3FF) :: u16)"
  note S = surrogates [OF assms, folded hi_def lo_def]
  have "hi \<noteq> 0" "hi \<noteq> 0xFFFF" using S(1,2) by (auto simp: word_le_nat_alt)
  moreover have "\<not> lo < 0xDC00" "\<not> 0xDFFF < lo" using S(3,4) by (simp_all only: not_less)
  ultimately show ?thesis using S by (auto simp: hi_def [symmetric] lo_def [symmetric] Let_def)
qed

lemma utf16_inverse:
  assumes "utf8_to_utf16_from input output = Some units"
  shows "\<exists>new. units = output @ new \<and> length input \<le> 3 * length new \<and> 0 \<notin> set new \<and>
    (0xFFFF \<notin> set new \<longrightarrow> (\<forall>capacity out. length out + length input < capacity \<longrightarrow>
       utf16_to_utf8_from new capacity out = Some (out @ input)))"
  using assms
proof (induction input "output" rule: utf8_to_utf16_from.induct)
  case (1 input "output")
  show ?case
  proof (cases "input = []")
    case True
    then show ?thesis using "1.prems" by (simp add: utf8_to_utf16_from.simps)
  next
    case False
    then obtain c rest where dec: "decode_utf8 input = Some (c, rest)" and nf: "\<not> forbidden c"
      using "1.prems" by (subst (asm) utf8_to_utf16_from.simps) (auto split: option.splits if_splits)
    have inp: "input = encode_utf8 c @ rest" and c: "unat c < 0x110000" "\<not> (0xD800 \<le> unat c \<and> unat c \<le> 0xDFFF)"
      using decode_encode [OF dec] by auto
    have c0: "c \<noteq> 0" using nf by (auto simp: forbidden_def)
    show ?thesis
    proof (cases "c \<le> 0xFFFF")
      case True
      have cl: "unat c < 0x10000" using True by (simp add: word_le_nat_alt)
      have nl: "length output \<noteq> 255" and r: "utf8_to_utf16_from rest (output @ [ucast c]) = Some units"
        using "1.prems" False dec nf True by (subst (asm) utf8_to_utf16_from.simps; simp split: if_splits)+
      obtain new where new: "units = output @ ucast c # new" "length rest \<le> 3 * length new" "0 \<notin> set new"
        "0xFFFF \<notin> set new \<longrightarrow> (\<forall>capacity out. length out + length rest < capacity \<longrightarrow> utf16_to_utf8_from new capacity out = Some (out @ rest))"
        using "1.IH"(1) [OF False dec refl nf True nl r] by auto
      have "(ucast c :: u16) \<noteq> 0" using c0 cl by (simp add: word_unat_eq_iff unat_ucast_small)
      moreover have "c \<noteq> 0xFFFF" if "0xFFFF \<notin> set (ucast c # new :: u16 list)" using that by auto
      ultimately show ?thesis
        using new encode_length [of c] cl utf16_bmp [OF cl c(2) c0, of new]
        by (intro exI [of _ "ucast c # new"]) (auto simp: inp simp del: utf16_to_utf8_from.simps)
    next
      case False
      have cl: "0x10000 \<le> unat c" using False by (simp add: word_le_nat_alt)
      define pair where "pair = [0xD800 OR ucast (drop_bit 10 (c - 0x10000)), 0xDC00 OR ucast ((c - 0x10000) AND 0x3FF) :: u16]"
      have nl: "\<not> 253 < length output" and r: "utf8_to_utf16_from rest (output @ pair) = Some units"
        using "1.prems" \<open>input \<noteq> []\<close> dec nf False by (subst (asm) utf8_to_utf16_from.simps; simp add: Let_def pair_def split: if_splits)+
      obtain new where new: "units = output @ pair @ new" "length rest \<le> 3 * length new" "0 \<notin> set new"
        "0xFFFF \<notin> set new \<longrightarrow> (\<forall>capacity out. length out + length rest < capacity \<longrightarrow> utf16_to_utf8_from new capacity out = Some (out @ rest))"
        using "1.IH"(2) [OF \<open>input \<noteq> []\<close> dec refl nf False nl refl r [unfolded pair_def]] by (auto simp: pair_def)
      have "0 \<notin> set pair" using surrogates(1,3) [OF cl c(1)] by (auto simp: pair_def word_le_nat_alt)
      then show ?thesis
        using new encode_length [of c] cl utf16_pair [OF cl c(1), of new]
        by (intro exI [of _ "pair @ new"]) (auto simp: inp pair_def simp del: utf16_to_utf8_from.simps)
    qed
  qed
qed

section \<open>Fields and long name entries\<close>

lemma length_write [simp]: "length (write16 k v d) = length d" "length (write32 k w d) = length d"
  by (simp_all add: write16_def write32_def)

lemma nth_write16: "n \<noteq> k \<Longrightarrow> n \<noteq> Suc k \<Longrightarrow> write16 k v d ! n = d ! n"
  by (simp add: write16_def)

lemma read16_write16:
  "Suc k < length d \<Longrightarrow> read16 (write16 k v d) k = v"
  "n < k \<and> Suc n < k \<or> Suc k < n \<Longrightarrow> read16 (write16 k v d) n = read16 d n"
proof -
  have "ucast (ucast v :: u8) OR push_bit 8 (ucast (ucast (drop_bit 8 v) :: u8)) = v"
    by (rule bit_word_eqI) (auto simp: bit_simps)
  then show "Suc k < length d \<Longrightarrow> read16 (write16 k v d) k = v" by (simp add: read16_def write16_def)
qed (auto simp: read16_def nth_write16)

definition unit_at :: "u16 list \<Rightarrow> nat \<Rightarrow> u16" where
  "unit_at units n = (if n < length units then units ! n else if n = length units then 0 else 0xFFFF)"

lemma upt_13: "[0 ..< 13] = [0, 1, 2, 3, 4, 5, 6, 7, 8, 9, 10, 11, 12 :: nat]"
  by (simp add: upt_rec)

lemma lfn_entry_unfold:
  "lfn_entry units checksum ordinal first =
    (let w = (\<lambda>k j. write16 k (unit_at units ((ordinal - 1) * 13 + j))) in
     w 30 12 (w 28 11 (w 24 10 (w 22 9 (w 20 8 (w 18 7 (w 16 6 (w 14 5 (w 9 4 (w 7 3 (w 5 2 (w 3 1 (w 1 0
       (write16 26 0 ((replicate 32 0)[0 := word_of_nat ordinal OR (if first then 0x40 else 0), 11 := 0x0F, 13 := checksum])))))))))))))))"
  by (simp add: lfn_entry_def Let_def unit_at_def lfn_positions_def upt_13)

lemma lfn_entry_fields:
  fixes units checksum ordinal first
  defines "e \<equiv> lfn_entry units checksum ordinal first"
  shows "e ! 0 = word_of_nat ordinal OR (if first then 0x40 else 0)" "e ! 12 = 0" "e ! 13 = checksum" "read16 e 26 = 0"
    "map (read16 e) lfn_positions = map (\<lambda>j. unit_at units ((ordinal - 1) * 13 + j)) [0 ..< 13]" "length e = 32"
  unfolding e_def lfn_entry_unfold Let_def
  by (simp_all add: nth_write16 read16_write16 lfn_positions_def upt_13)

text \<open>The long name entries of a name of \<open>k\<close> entries, in the order they stand in the directory.\<close>

definition lfn_entries :: "u16 list \<Rightarrow> u8 \<Rightarrow> nat \<Rightarrow> u8 list list" where
  "lfn_entries units checksum k = map (\<lambda>i. lfn_entry units checksum (k - i) (i = 0)) [0 ..< k]"

lemma sequence_bits:
  assumes "0 < n" "n \<le> 20"
  shows "(word_of_nat n OR (if first then 0x40 else 0) :: u8) AND 0x1F = word_of_nat n"
    "(word_of_nat n OR (if first then 0x40 else 0) :: u8) AND 0xA0 = 0"
    "(word_of_nat n OR (if first then 0x40 else 0) :: u8) AND 0x40 = (if first then 0x40 else 0)"
proof -
  have "n \<in> set [1 ..< 21]" using assms by simp
  then have "n \<in> {1, 2, 3, 4, 5, 6, 7, 8, 9, 10, 11, 12, 13, 14, 15, 16, 17, 18, 19, 20}" by (simp add: upt_rec del: set_upt) (elim disjE, simp_all)
  then show "(word_of_nat n OR (if first then 0x40 else 0) :: u8) AND 0x1F = word_of_nat n"
    "(word_of_nat n OR (if first then 0x40 else 0) :: u8) AND 0xA0 = 0"
    "(word_of_nat n OR (if first then 0x40 else 0) :: u8) AND 0x40 = (if first then 0x40 else 0)"
    by (cases first; auto)+
qed

lemma put_units_nth:
  assumes "base + length new \<le> length units" "i < length units"
  shows "put_units base new units ! i = (if base \<le> i \<and> i < base + length new then new ! (i - base) else units ! i)"
  using assms by (auto simp: put_units_def nth_append)

lemma put_units_length: "base + length new \<le> length units \<Longrightarrow> length (put_units base new units) = length units"
  by (simp add: put_units_def)

definition lfn_progress :: "u16 list \<Rightarrow> u8 \<Rightarrow> nat \<Rightarrow> nat \<Rightarrow> lfn_state \<Rightarrow> bool" where
  "lfn_progress units checksum k j lfn \<longleftrightarrow> lf_active lfn \<and> lf_expected_ordinal lfn = word_of_nat j \<and> lf_total_ordinals lfn = word_of_nat k \<and>
     lf_checksum lfn = checksum \<and> length (lf_units lfn) = 260 \<and> (\<forall>i. j * 13 \<le> i \<and> i < k * 13 \<longrightarrow> lf_units lfn ! i = unit_at units i)"

lemma u8_nat: "n < 256 \<Longrightarrow> unat (word_of_nat n :: u8) = n"
  by (simp add: unat_of_nat)

lemma lfn_add_units:
  assumes "length us = 260" "0 < n" "n \<le> k" "k \<le> 20" "\<forall>i. n * 13 \<le> i \<and> i < k * 13 \<longrightarrow> us ! i = unit_at units i"
  shows "length (put_units ((n - 1) * 13) (map (\<lambda>j. unit_at units ((n - 1) * 13 + j)) [0 ..< 13]) us) = 260 \<and>
    (\<forall>i. (n - 1) * 13 \<le> i \<and> i < k * 13 \<longrightarrow>
      put_units ((n - 1) * 13) (map (\<lambda>j. unit_at units ((n - 1) * 13 + j)) [0 ..< 13]) us ! i = unit_at units i)"
proof -
  have b: "(n - 1) * 13 + 13 = n * 13" "n * 13 \<le> 260" using assms(2-4) by (auto simp: algebra_simps)
  show ?thesis using b assms(1,4,5) by (auto simp: put_units_nth put_units_length)
qed

lemma lfn_add_first:
  assumes "0 < k" "k \<le> 20"
  shows "lfn_progress units checksum k (k - 1) (lfn_add_entry (lfn_entry units checksum k True) lfn)"
proof -
  note S = sequence_bits [OF assms, of True, simplified]
  note F = lfn_entry_fields [of units checksum k True, simplified]
  have k: "0 < (word_of_nat k :: u8)" "(word_of_nat k :: u8) \<le> 20" "unat (word_of_nat k :: u8) = k"
    using assms u8_nat [of k] by (simp_all add: word_less_nat_alt word_le_nat_alt)
  have e: "(word_of_nat k - 1 :: u8) = word_of_nat (k - 1)" using assms by simp
  have "\<forall>i. k * 13 \<le> i \<and> i < k * 13 \<longrightarrow> replicate 260 (0xFFFF :: u16) ! i = unit_at units i" by auto
  from lfn_add_units [OF _ assms(1) le_refl assms(2) this] show ?thesis
    using assms k e
    by (simp add: lfn_add_entry_def Let_def F S lfn_progress_def lfn_reset_def)
qed

lemma lfn_add_next:
  assumes "0 < n" "n \<le> k" "k \<le> 20" "lfn_progress units checksum k n lfn"
  shows "lfn_progress units checksum k (n - 1) (lfn_add_entry (lfn_entry units checksum n False) lfn)"
proof -
  have n20: "n \<le> 20" using assms(2,3) by simp
  note S = sequence_bits [OF assms(1) n20, of False, simplified]
  note F = lfn_entry_fields [of units checksum n False, simplified]
  have k: "unat (word_of_nat n :: u8) = n" using n20 u8_nat [of n] by simp
  have e: "(word_of_nat n - 1 :: u8) = word_of_nat (n - 1)" using assms(1) by simp
  show ?thesis
    using lfn_add_units [of "lf_units lfn" n k units] assms k e
    by (simp add: lfn_add_entry_def Let_def F S lfn_progress_def)
qed

lemma lfn_add_all:
  assumes "0 < k" "k \<le> 20"
  shows "lfn_progress units checksum k 0 (foldl (\<lambda>lfn e. lfn_add_entry e lfn) lfn (lfn_entries units checksum k))"
proof -
  have "lfn_progress units checksum k (k - m) (foldl (\<lambda>lfn e. lfn_add_entry e lfn) lfn
      (map (\<lambda>i. lfn_entry units checksum (k - i) (i = 0)) [0 ..< m]))" if "0 < m" "m \<le> k" for m
    using that
  proof (induction m)
    case (Suc m)
    show ?case
    proof (cases "m = 0")
      case True
      then show ?thesis using lfn_add_first [OF assms, of units checksum lfn] by simp
    next
      case False
      then show ?thesis
        using lfn_add_next [of "k - m" k units checksum] Suc assms(2) by simp
    qed
  qed simp
  from this [of k] show ?thesis using assms by (simp add: lfn_entries_def)
qed

lemma takeWhile_units:
  assumes "0 \<notin> set units" "length units \<le> m" "m \<le> length us" "\<forall>i < m. us ! i = unit_at units i"
  shows "takeWhile (\<lambda>u. u \<noteq> 0) (take m us) = units"
proof -
  define r where "r = take (m - length units) (drop (length units) us)"
  have t: "take (length units) us = units" using assms(2-4) by (intro nth_equalityI) (auto simp: unit_at_def)
  have e: "take m us = units @ r"
    using t take_add [of "length units" "m - length units" us] assms(2) by (simp add: r_def)
  have "r = [] \<or> hd r = 0"
  proof (cases "length units < m")
    case True
    then have "us ! length units = 0" using assms(4) by (simp add: unit_at_def)
    then show ?thesis using True assms(3) by (simp add: r_def hd_drop_conv_nth)
  qed (use assms(2) in \<open>simp add: r_def\<close>)
  then have "takeWhile (\<lambda>u. u \<noteq> 0) r = []" by (cases r) simp_all
  moreover have "\<And>u. u \<in> set units \<Longrightarrow> u \<noteq> 0" using assms(1) by blast
  ultimately show ?thesis unfolding e by (subst takeWhile_append2) simp_all
qed

section \<open>Properties\<close>

text \<open>C35. Long file names survive the disk: for every name the driver accepts, decoding the UTF-16 units that
  were stored for it gives the name back byte for byte, whether its characters take one, two, three or four
  bytes of UTF-8, and so does reading the long name entries of the name in the order in which they stand in
  the directory before a short entry with the same checksum. The only exception are names with the character
  U+FFFF, which the reader takes for padding.\<close>

theorem lfn_roundtrip:
  assumes "utf8_to_utf16 name = Some units" "0xFFFF \<notin> set units" "768 \<le> capacity"
  shows "utf16_to_utf8 units capacity = Some name \<and>
    lfn_decode (foldl (\<lambda>lfn e. lfn_add_entry e lfn) lfn (lfn_entries units (lfn_checksum alias) ((length units + 12) div 13))) alias capacity =
      Some name"
proof -
  have u: "utf8_to_utf16_from name [] = Some units" "units \<noteq> []" "length units \<le> 255"
    using assms(1) by (auto simp: utf8_to_utf16_def split: if_splits option.splits)
  have R: "length name \<le> 3 * length units" "0 \<notin> set units"
    "length name < capacity \<Longrightarrow> utf16_to_utf8_from units capacity [] = Some name"
    using utf16_inverse [OF u(1)] assms(2) by auto
  have d: "utf16_to_utf8 units capacity = Some name" unfolding utf16_to_utf8_def using R(1,3) u(3) assms(3) by simp
  define k where "k = (length units + 12) div 13"
  have k: "0 < k" "k \<le> 20" "length units \<le> k * 13"
  proof -
    have "k * 13 + (length units + 12) mod 13 = length units + 12" unfolding k_def by (rule div_mult_mod_eq)
    moreover have "(length units + 12) mod 13 < 13" by simp
    ultimately show "length units \<le> k * 13" by linarith
    show "0 < k" using u(2) by (cases units) (simp_all add: k_def)
    have "k \<le> (255 + 12) div 13" unfolding k_def by (rule div_le_mono) (use u(3) in simp)
    then show "k \<le> 20" by simp
  qed
  have "lfn_progress units (lfn_checksum alias) k 0 (foldl (\<lambda>lfn e. lfn_add_entry e lfn) lfn (lfn_entries units (lfn_checksum alias) k))"
    by (rule lfn_add_all [OF k(1,2)])
  moreover have "unat (word_of_nat k :: u8) = k" using k(2) u8_nat [of k] by simp
  ultimately show ?thesis
    using d takeWhile_units [OF R(2) k(3)] k(2) by (simp add: lfn_decode_def lfn_progress_def k_def [symmetric])
qed

text \<open>A name of two characters, U+20AC and U+1F600, that needs a long name entry.\<close>

definition demo_name :: "u8 list" where
  "demo_name = [0xE2, 0x82, 0xAC, 0xF0, 0x9F, 0x98, 0x80]"

theorem lfn_roundtrip_witness:
  "utf8_to_utf16 demo_name = Some [0x20AC, 0xD83D, 0xDE00] \<and> utf16_to_utf8 [0x20AC, 0xD83D, 0xDE00] 768 = Some demo_name"
proof -
  have "utf8_to_utf16 demo_name = Some [0x20AC, 0xD83D, 0xDE00]"
    by (simp add: demo_name_def utf8_to_utf16_def utf8_to_utf16_from.simps continuation_def low6_def forbidden_def Let_def push_bit_eq_mult drop_bit_eq_div)
  with lfn_roundtrip [OF this, of 768] show ?thesis by simp
qed

end
