(* ===== verification/Block_Device.thy ===== *)
theory Block_Device
  imports ConeOS_Prelude
begin

text \<open>
  The VirtIO block driver \<^verbatim>\<open>src/drivers/block.c\<close>, after \<open>block_init\<close>. The device behind the queue is
  hardware, so it is a parameter: a function from the state of the shared memory and the disk when the
  driver rings the doorbell to their state when the polling loop stops, that is at the first of its ten
  million reads that shows the awaited index of the used ring, or at the last one. The request page is
  its header, and the bytes from offset 16 on, of which offset 528 is the status of a transfer and offset
  16 the status of a flush.
\<close>

section \<open>State\<close>

record virtq_desc =
  vd_address :: u64
  vd_length :: u32
  vd_flags :: u16
  vd_next :: u16

record request_header =
  rh_type :: u32
  rh_reserved :: u32
  rh_sector :: u64

record 'd block_state =
  bk_initialized :: bool
  bk_flush_supported :: bool
  bk_sectors :: u64
  bk_request_physical :: u64
  bk_request :: request_header
  bk_page :: "u8 list"
  bk_descriptors :: "virtq_desc list"
  bk_available :: u16
  bk_used :: u16
  bk_disk :: 'd

type_synonym 'd device = "'d block_state \<Rightarrow> 'd block_state"

definition VIRTQ_DESC_F_NEXT :: u16 where "VIRTQ_DESC_F_NEXT = 1"
definition VIRTQ_DESC_F_WRITE :: u16 where "VIRTQ_DESC_F_WRITE = 2"
definition VIRTIO_BLK_T_FLUSH :: u32 where "VIRTIO_BLK_T_FLUSH = 4"

section \<open>Operations\<close>

text \<open>Publish the request and ring the doorbell. The slot of the available ring always holds descriptor 0.\<close>

definition notify :: "'d device \<Rightarrow> 'd block_state \<Rightarrow> 'd block_state" where
  "notify dev st = dev (st\<lparr>bk_available := bk_available st + 1\<rparr>)"

text \<open>The loop compares the 16-bit index of the used ring with \<open>index + 1\<close>, which is an int in C.\<close>

definition completed :: "u16 \<Rightarrow> 'd block_state \<Rightarrow> bool" where
  "completed index st \<longleftrightarrow> unat (bk_used st) = unat index + 1"

definition transfer_descriptors :: "u64 \<Rightarrow> bool \<Rightarrow> virtq_desc list" where
  "transfer_descriptors request_physical write =
     [\<lparr>vd_address = request_physical, vd_length = 16, vd_flags = VIRTQ_DESC_F_NEXT, vd_next = 1\<rparr>,
      \<lparr>vd_address = request_physical + 16, vd_length = 512,
       vd_flags = VIRTQ_DESC_F_NEXT OR (if write then 0 else VIRTQ_DESC_F_WRITE), vd_next = 2\<rparr>,
      \<lparr>vd_address = request_physical + 528, vd_length = 1, vd_flags = VIRTQ_DESC_F_WRITE, vd_next = 0\<rparr>]"

text \<open>The argument is the buffer to write, or None for a read; the result of a read is the new buffer.\<close>

definition transfer :: "'d device \<Rightarrow> u64 \<Rightarrow> u8 list option \<Rightarrow> 'd block_state \<Rightarrow> u8 list option \<times> 'd block_state" where
  "transfer dev sector buffer st =
     (if \<not> bk_initialized st \<or> bk_sectors st \<le> sector then (None, st)
      else
        let data = (case buffer of None \<Rightarrow> take 512 (bk_page st) | Some bytes \<Rightarrow> bytes);
            index = bk_available st;
            st1 = notify dev (st\<lparr>
              bk_request := \<lparr>rh_type = (if buffer = None then 0 else 1), rh_reserved = 0, rh_sector = sector\<rparr>,
              bk_page := data @ [0xFF],
              bk_descriptors := transfer_descriptors (bk_request_physical st) (buffer \<noteq> None) @ drop 3 (bk_descriptors st)\<rparr>)
        in if \<not> completed index st1 then (None, st1)
           else if bk_page st1 ! 512 \<noteq> 0 then (None, st1)
           else (Some (take 512 (bk_page st1)), st1))"

definition block_ready :: "'d block_state \<Rightarrow> bool" where
  "block_ready st = bk_initialized st"

definition block_sector_count :: "'d block_state \<Rightarrow> u64" where
  "block_sector_count st = bk_sectors st"

definition block_read_sector :: "'d device \<Rightarrow> u64 \<Rightarrow> 'd block_state \<Rightarrow> u8 list option \<times> 'd block_state" where
  "block_read_sector dev sector st = transfer dev sector None st"

definition block_write_sector :: "'d device \<Rightarrow> u64 \<Rightarrow> u8 list \<Rightarrow> 'd block_state \<Rightarrow> bool \<times> 'd block_state" where
  "block_write_sector dev sector buffer st = (case transfer dev sector (Some buffer) st of (r, st1) \<Rightarrow> (r \<noteq> None, st1))"

definition block_flush :: "'d device \<Rightarrow> 'd block_state \<Rightarrow> bool \<times> 'd block_state" where
  "block_flush dev st =
     (if \<not> bk_initialized st then (False, st)
      else if \<not> bk_flush_supported st then (False, st)
      else
        let index = bk_available st;
            st1 = notify dev (st\<lparr>
              bk_request := \<lparr>rh_type = VIRTIO_BLK_T_FLUSH, rh_reserved = 0, rh_sector = 0\<rparr>,
              bk_page := (bk_page st)[0 := 0xFF],
              bk_descriptors :=
                [\<lparr>vd_address = bk_request_physical st, vd_length = 16, vd_flags = VIRTQ_DESC_F_NEXT, vd_next = 1\<rparr>,
                 \<lparr>vd_address = bk_request_physical st + 16, vd_length = 1, vd_flags = VIRTQ_DESC_F_WRITE, vd_next = 0\<rparr>] @
                drop 2 (bk_descriptors st)\<rparr>)
        in (completed index st1 \<and> bk_page st1 ! 0 = 0, st1))"

section \<open>Devices that keep sectors\<close>

text \<open>
  What the VirtIO specification promises of a block device: it consumes the published request, moves the
  index of the used ring to that of the available ring, writes only the parts of the page whose
  descriptors are device-writable, and serves reads (type 0) and writes (type 1) of 512-byte sectors. The
  disk is its sectors.
\<close>

type_synonym sectors = "u64 \<Rightarrow> u8 list"

definition sector_device :: "sectors device \<Rightarrow> bool" where
  "sector_device dev \<longleftrightarrow> (\<forall>st. length (bk_page st) = 513 \<longrightarrow>
     (let sector = rh_sector (bk_request st); typ = rh_type (bk_request st) in
      (typ = 0 \<longrightarrow> dev st = st\<lparr>bk_used := bk_available st, bk_page := bk_disk st sector @ [0]\<rparr>) \<and>
      (typ = 1 \<longrightarrow> dev st = st\<lparr>bk_used := bk_available st, bk_page := take 512 (bk_page st) @ [0],
          bk_disk := (bk_disk st)(sector := take 512 (bk_page st))\<rparr>)))"

definition virtio_disk :: "sectors device" where
  "virtio_disk st =
     (let sector = rh_sector (bk_request st); typ = rh_type (bk_request st) in
      if typ = 0 then st\<lparr>bk_used := bk_available st, bk_page := bk_disk st sector @ [0]\<rparr>
      else if typ = 1 then st\<lparr>bk_used := bk_available st, bk_page := take 512 (bk_page st) @ [0],
          bk_disk := (bk_disk st)(sector := take 512 (bk_page st))\<rparr>
      else st\<lparr>bk_used := bk_available st, bk_page := (bk_page st)[0 := 0]\<rparr>)"

lemma virtio_disk_device: "sector_device virtio_disk"
  by (simp add: sector_device_def virtio_disk_def Let_def)

definition block_inv :: "sectors block_state \<Rightarrow> bool" where
  "block_inv st \<longleftrightarrow> bk_initialized st \<and> length (bk_page st) = 513 \<and> (\<forall>s. length (bk_disk st s) = 512)"

text \<open>The driver's fields that no transfer changes.\<close>

definition same_geometry :: "'d block_state \<Rightarrow> 'd block_state \<Rightarrow> bool" where
  "same_geometry st st' \<longleftrightarrow> bk_sectors st' = bk_sectors st \<and> bk_flush_supported st' = bk_flush_supported st \<and>
     bk_request_physical st' = bk_request_physical st"

lemma unat_u16_Suc: "unat (x + 1 :: u16) = Suc (unat x) \<longleftrightarrow> x \<noteq> - 1"
proof (cases "x = - 1")
  case True
  then show ?thesis by simp
next
  case False
  then have "x + 1 \<noteq> 0" using eq_neg_iff_add_eq_0 [of x 1] by blast
  then show ?thesis using False unatSuc [of x] by (simp add: add.commute)
qed

text \<open>The state a request is published in, for a read or a write.\<close>

definition published :: "u64 \<Rightarrow> u8 list option \<Rightarrow> 'd block_state \<Rightarrow> 'd block_state" where
  "published sector buffer st = st\<lparr>
     bk_request := \<lparr>rh_type = (if buffer = None then 0 else 1), rh_reserved = 0, rh_sector = sector\<rparr>,
     bk_page := (case buffer of None \<Rightarrow> take 512 (bk_page st) | Some bytes \<Rightarrow> bytes) @ [0xFF],
     bk_descriptors := transfer_descriptors (bk_request_physical st) (buffer \<noteq> None) @ drop 3 (bk_descriptors st),
     bk_available := bk_available st + 1\<rparr>"

lemma published_fields [simp]:
  "bk_available (published sector buffer st) = bk_available st + 1" "bk_disk (published sector buffer st) = bk_disk st"
  "bk_sectors (published sector buffer st) = bk_sectors st" "bk_initialized (published sector buffer st) = bk_initialized st"
  "bk_flush_supported (published sector buffer st) = bk_flush_supported st"
  "bk_request_physical (published sector buffer st) = bk_request_physical st"
  "rh_sector (bk_request (published sector buffer st)) = sector"
  "rh_type (bk_request (published sector buffer st)) = (if buffer = None then 0 else 1)"
  "bk_page (published sector buffer st) = (case buffer of None \<Rightarrow> take 512 (bk_page st) | Some bytes \<Rightarrow> bytes) @ [0xFF]"
  by (simp_all add: published_def)

lemma transfer_published:
  assumes "bk_initialized st" "sector < bk_sectors st"
  shows "transfer dev sector buffer st =
    (let st1 = dev (published sector buffer st)
     in if \<not> completed (bk_available st) st1 \<or> bk_page st1 ! 512 \<noteq> 0 then (None, st1) else (Some (take 512 (bk_page st1)), st1))"
proof -
  have "notify dev (st\<lparr>
      bk_request := \<lparr>rh_type = (if buffer = None then 0 else 1), rh_reserved = 0, rh_sector = sector\<rparr>,
      bk_page := (case buffer of None \<Rightarrow> take 512 (bk_page st) | Some bytes \<Rightarrow> bytes) @ [0xFF],
      bk_descriptors := transfer_descriptors (bk_request_physical st) (buffer \<noteq> None) @ drop 3 (bk_descriptors st)\<rparr>) =
    dev (published sector buffer st)"
    by (simp add: notify_def published_def)
  then show ?thesis unfolding transfer_def Let_def using assms by (simp only: not_le [symmetric]) auto
qed

lemma transfer_read:
  assumes "sector_device dev" "block_inv st" "sector < bk_sectors st"
  obtains st' where "block_read_sector dev sector st = (if bk_available st = - 1 then None else Some (bk_disk st sector), st')"
    "block_inv st'" "bk_disk st' = bk_disk st" "bk_available st' = bk_available st + 1" "same_geometry st st'"
proof -
  let ?st = "published sector None st"
  have len: "length (bk_page ?st) = 513" using assms(2) by (simp add: block_inv_def)
  have d: "dev ?st = ?st\<lparr>bk_used := bk_available st + 1, bk_page := bk_disk st sector @ [0]\<rparr>"
    using assms(1) len by (simp add: sector_device_def Let_def)
  have "length (bk_disk st sector) = 512" "bk_initialized st" using assms(2) by (auto simp: block_inv_def)
  then have "block_read_sector dev sector st = (if bk_available st = - 1 then None else Some (bk_disk st sector), dev ?st)"
    using assms(3) by (simp add: block_read_sector_def transfer_published Let_def d completed_def unat_u16_Suc nth_append)
  then show ?thesis using assms(2) by (intro that [of "dev ?st"]) (auto simp: d block_inv_def same_geometry_def)
qed

lemma transfer_write:
  assumes "sector_device dev" "block_inv st" "sector < bk_sectors st" "length buffer = 512"
  obtains st' where "block_write_sector dev sector buffer st = (bk_available st \<noteq> - 1, st')"
    "block_inv st'" "bk_disk st' = (bk_disk st)(sector := buffer)" "bk_available st' = bk_available st + 1" "same_geometry st st'"
proof -
  let ?st = "published sector (Some buffer) st"
  have d: "dev ?st = ?st\<lparr>bk_used := bk_available st + 1, bk_page := buffer @ [0], bk_disk := (bk_disk st)(sector := buffer)\<rparr>"
    using assms(1,4) by (simp add: sector_device_def Let_def)
  have "bk_initialized st" using assms(2) by (simp add: block_inv_def)
  then have "block_write_sector dev sector buffer st = (bk_available st \<noteq> - 1, dev ?st)"
    using assms(3,4) by (simp add: block_write_sector_def transfer_published Let_def d completed_def unat_u16_Suc nth_append)
  then show ?thesis using assms(2,4) by (intro that [of "dev ?st"]) (auto simp: d block_inv_def same_geometry_def)
qed

section \<open>Properties\<close>

text \<open>A disk of 64 zero sectors behind a device that keeps them, after the driver has served 10 requests.\<close>

definition demo_block :: "sectors block_state" where
  "demo_block = \<lparr>bk_initialized = True, bk_flush_supported = True, bk_sectors = 64, bk_request_physical = 0x3000,
     bk_request = \<lparr>rh_type = 0, rh_reserved = 0, rh_sector = 0\<rparr>, bk_page = replicate 513 0, bk_descriptors = [],
     bk_available = 10, bk_used = 10, bk_disk = (\<lambda>_. replicate 512 0)\<rparr>"

lemma demo_block_inv: "block_inv demo_block"
  by (simp add: block_inv_def demo_block_def)



text \<open>C34. The ring index wraps around and the driver does not: when the 16-bit index of the available ring is at
  its maximum, a request that the device completes without error is reported as timed out, so a write reaches
  the disk and still fails. The next request succeeds again.\<close>

theorem block_index_wraps:
  assumes "sector_device dev" "block_inv st" "sector < bk_sectors st" "length buffer = 512" "bk_available st = - 1"
  shows "\<exists>st1 st2. block_write_sector dev sector buffer st = (False, st1) \<and> bk_disk st1 sector = buffer \<and> bk_available st1 = 0 \<and>
    block_read_sector dev sector st1 = (Some buffer, st2)"
proof -
  obtain st' where w: "block_write_sector dev sector buffer st = (bk_available st \<noteq> - 1, st')"
    "block_inv st'" "bk_disk st' = (bk_disk st)(sector := buffer)" "bk_available st' = bk_available st + 1" "same_geometry st st'"
    by (rule transfer_write [OF assms(1-4)])
  have "sector < bk_sectors st'" using assms(3) w(5) by (simp add: same_geometry_def)
  then obtain st2 where r: "block_read_sector dev sector st' = (if bk_available st' = - 1 then None else Some (bk_disk st' sector), st2)"
    using transfer_read [OF assms(1) w(2)] by metis
  show ?thesis using w r assms(5) by (intro exI [of _ st'] exI [of _ st2]) simp
qed

theorem block_index_wraps_witness:
  "\<exists>st1. block_write_sector virtio_disk 3 (replicate 512 7) (demo_block\<lparr>bk_available := - 1\<rparr>) = (False, st1) \<and>
     bk_disk st1 3 = replicate 512 7"
proof -
  have "block_inv (demo_block\<lparr>bk_available := - 1\<rparr>)" using demo_block_inv by (simp add: block_inv_def)
  from block_index_wraps [OF virtio_disk_device this, of 3 "replicate 512 7"] show ?thesis by (auto simp: demo_block_def)
qed

end
