(* ===== verification/Fat32.thy ===== *)
theory Fat32
  imports Fat32_Names Block_Device Ramfs "HOL-Library.Monad_Syntax"
begin

text \<open>
  The FAT32 driver, \<^verbatim>\<open>src/fs/fat32.c\<close>, on the block driver of \<open>Block_Device\<close>. The static variables are a
  record; an \<open>int\<close> result that is a success flag is a bool or, with its output parameters, an option.
  The operations with a loop over a cluster chain that has no bound of its own (freeing a chain, reading a
  file, growing a directory) have the result None when the loop does not end. The loop over the entries of
  a directory, which the code has in five functions, is \<open>walk_directory\<close>.
\<close>

section \<open>State\<close>

record 'd fat32 =
  ft_mounted :: bool
  ft_root_cluster :: u32
  ft_sectors_per_cluster :: u8
  ft_data_start_sector :: u32
  ft_fat_start_sector :: u32
  ft_fat_count :: u8
  ft_fat_sectors :: u32
  ft_block :: "'d block_state"

record fat32_entry =
  fe_cluster :: u32
  fe_size :: u32
  fe_attributes :: u8

definition read_sector :: "'d device \<Rightarrow> u32 \<Rightarrow> 'd fat32 \<Rightarrow> u8 list option \<times> 'd fat32" where
  "read_sector dev sector st = (case block_read_sector dev (ucast sector) (ft_block st) of (r, b) \<Rightarrow> (r, st\<lparr>ft_block := b\<rparr>))"

definition write_sector :: "'d device \<Rightarrow> u32 \<Rightarrow> u8 list \<Rightarrow> 'd fat32 \<Rightarrow> bool \<times> 'd fat32" where
  "write_sector dev sector buffer st =
     (case block_write_sector dev (ucast sector) buffer (ft_block st) of (r, b) \<Rightarrow> (r, st\<lparr>ft_block := b\<rparr>))"

text \<open>Read a sector, change it and write it back.\<close>

definition update_sector :: "'d device \<Rightarrow> u32 \<Rightarrow> (u8 list \<Rightarrow> u8 list) \<Rightarrow> 'd fat32 \<Rightarrow> bool \<times> 'd fat32" where
  "update_sector dev sector f st =
     (case read_sector dev sector st of
        (None, st1) \<Rightarrow> (False, st1)
      | (Some data, st1) \<Rightarrow> write_sector dev sector (f data) st1)"

definition fat32_mount :: "'d device \<Rightarrow> 'd fat32 \<Rightarrow> bool \<times> 'd fat32" where
  "fat32_mount dev st0 =
     (let st = st0\<lparr>ft_mounted := False\<rparr> in
      if \<not> block_ready (ft_block st) then (False, st)
      else
        (case read_sector dev 0 st of
           (None, st1) \<Rightarrow> (False, st1)
         | (Some sector, st1) \<Rightarrow>
             let bytes_per_sector = read16 sector 11;
                 reserved_sectors = read16 sector 14;
                 st2 = st1\<lparr>ft_sectors_per_cluster := sector ! 13, ft_fat_count := sector ! 16,
                           ft_fat_sectors := read32 sector 36, ft_root_cluster := read32 sector 44\<rparr>
             in if bytes_per_sector \<noteq> 512 \<or> ft_sectors_per_cluster st2 = 0 \<or> reserved_sectors = 0 \<or> ft_fat_count st2 = 0 \<or>
                   ft_fat_sectors st2 = 0 \<or> ft_root_cluster st2 < 2 \<or> sector ! 510 \<noteq> 0x55 \<or> sector ! 511 \<noteq> 0xAA
                then (False, st2)
                else (True, st2\<lparr>ft_mounted := True,
                       ft_data_start_sector := ucast reserved_sectors + ucast (ft_fat_count st2) * ft_fat_sectors st2,
                       ft_fat_start_sector := ucast reserved_sectors\<rparr>)))"

definition fat32_mounted :: "'d fat32 \<Rightarrow> bool" where
  "fat32_mounted st = ft_mounted st"

section \<open>The allocation table\<close>

primrec update_fat_copies :: "'d device \<Rightarrow> u32 \<Rightarrow> u32 \<Rightarrow> nat list \<Rightarrow> 'd fat32 \<Rightarrow> bool \<times> 'd fat32" where
  "update_fat_copies dev offset value [] st = (True, st)"
| "update_fat_copies dev offset value (copy # copies) st =
     (case update_sector dev (ft_fat_start_sector st + word_of_nat copy * ft_fat_sectors st + offset div 512)
             (write32 (unat (offset mod 512)) value) st of
        (False, st1) \<Rightarrow> (False, st1)
      | (True, st1) \<Rightarrow> update_fat_copies dev offset value copies st1)"

definition update_fat :: "'d device \<Rightarrow> u32 \<Rightarrow> u32 \<Rightarrow> 'd fat32 \<Rightarrow> bool \<times> 'd fat32" where
  "update_fat dev cluster value st = update_fat_copies dev (cluster * 4) value [0 ..< unat (ft_fat_count st)] st"

function allocate_from :: "'d device \<Rightarrow> u32 \<Rightarrow> nat \<Rightarrow> 'd fat32 \<Rightarrow> u32 \<times> 'd fat32" where
  "allocate_from dev limit cluster st =
     (if cluster < unat limit
      then
        let offset = word_of_nat cluster * 4 in
        (case read_sector dev (ft_fat_start_sector st + offset div 512) st of
           (None, st1) \<Rightarrow> (0, st1)
         | (Some sector, st1) \<Rightarrow>
             if read32 sector (unat (offset mod 512)) AND 0x0FFFFFFF = 0
             then (case update_fat dev (word_of_nat cluster) 0x0FFFFFFF st1 of
                     (True, st2) \<Rightarrow> (word_of_nat cluster, st2)
                   | (False, st2) \<Rightarrow> allocate_from dev limit (cluster + 1) st2)
             else allocate_from dev limit (cluster + 1) st1)
      else (0, st))"
  by auto
termination by (relation "measure (\<lambda>(dev, limit, cluster, st). unat limit - cluster)") auto

declare allocate_from.simps [simp del]

definition allocate_cluster :: "'d device \<Rightarrow> 'd fat32 \<Rightarrow> u32 \<times> 'd fat32" where
  "allocate_cluster dev st = allocate_from dev (ft_fat_sectors st * 128) 2 st"

definition next_cluster :: "'d device \<Rightarrow> u32 \<Rightarrow> 'd fat32 \<Rightarrow> u32 \<times> 'd fat32" where
  "next_cluster dev cluster st =
     (let offset = cluster * 4 in
      (case read_sector dev (ft_fat_start_sector st + offset div 512) st of
         (None, st1) \<Rightarrow> (0x0FFFFFFF, st1)
       | (Some sector, st1) \<Rightarrow> (read32 sector (unat (offset mod 512)) AND 0x0FFFFFFF, st1)))"

definition cluster_sector :: "u32 \<Rightarrow> 'd fat32 \<Rightarrow> u32" where
  "cluster_sector cluster st = ft_data_start_sector st + (cluster - 2) * ucast (ft_sectors_per_cluster st)"

text \<open>The numbers of the clusters a chain continues with.\<close>

definition in_chain :: "u32 \<Rightarrow> bool" where
  "in_chain cluster \<longleftrightarrow> 2 \<le> cluster \<and> cluster < 0x0FFFFFF8"

definition cluster_sectors :: "u32 \<Rightarrow> 'd fat32 \<Rightarrow> u32 list" where
  "cluster_sectors cluster st = map (\<lambda>s. cluster_sector cluster st + word_of_nat s) [0 ..< unat (ft_sectors_per_cluster st)]"

section \<open>Directories\<close>

text \<open>
  A loop body gets the sector number, the offset of the entry and the sector's bytes, and either returns
  from the function (Inl) or goes on with new local variables (Inr).
\<close>

type_synonym ('l, 'r) entry_body = "u32 \<Rightarrow> nat \<Rightarrow> u8 list \<Rightarrow> 'l \<Rightarrow> 'r + 'l"

definition entry_offsets :: "nat list" where
  "entry_offsets = map (\<lambda>i. i * 32) [0 ..< 16]"

primrec walk_offsets :: "('l, 'r) entry_body \<Rightarrow> u32 \<Rightarrow> u8 list \<Rightarrow> nat list \<Rightarrow> 'l \<Rightarrow> 'r + 'l" where
  "walk_offsets body number sector [] l = Inr l"
| "walk_offsets body number sector (offset # offsets) l =
     (case body number offset sector l of Inl r \<Rightarrow> Inl r | Inr l' \<Rightarrow> walk_offsets body number sector offsets l')"

primrec walk_sectors :: "'d device \<Rightarrow> ('l, 'r) entry_body \<Rightarrow> 'r \<Rightarrow> u32 list \<Rightarrow> 'l \<Rightarrow> 'd fat32 \<Rightarrow> ('r + 'l) \<times> 'd fat32" where
  "walk_sectors dev body failure [] l st = (Inr l, st)"
| "walk_sectors dev body failure (number # numbers) l st =
     (case read_sector dev number st of
        (None, st1) \<Rightarrow> (Inl failure, st1)
      | (Some sector, st1) \<Rightarrow>
          (case walk_offsets body number sector entry_offsets l of
             Inl r \<Rightarrow> (Inl r, st1)
           | Inr l' \<Rightarrow> walk_sectors dev body failure numbers l' st1))"

function walk_chain :: "'d device \<Rightarrow> ('l, 'r) entry_body \<Rightarrow> 'r \<Rightarrow> nat \<Rightarrow> u32 \<Rightarrow> u32 \<Rightarrow> 'l \<Rightarrow> 'd fat32 \<Rightarrow>
  ('r + 'l \<times> u32) \<times> 'd fat32" where
  "walk_chain dev body failure links cluster last_cluster l st =
     (if links < 65536 \<and> in_chain cluster
      then
        (case walk_sectors dev body failure (cluster_sectors cluster st) l st of
           (Inl r, st1) \<Rightarrow> (Inl r, st1)
         | (Inr l', st1) \<Rightarrow>
             (case next_cluster dev cluster st1 of
                (next, st2) \<Rightarrow> walk_chain dev body failure (links + 1) next cluster l' st2))
      else (Inr (l, last_cluster), st))"
  by auto
termination by (relation "measure (\<lambda>(dev, body, failure, links, cluster, last_cluster, l, st). 65536 - links)") auto

declare walk_chain.simps [simp del]

definition walk_directory :: "'d device \<Rightarrow> ('l, 'r) entry_body \<Rightarrow> 'r \<Rightarrow> u32 \<Rightarrow> 'l \<Rightarrow> 'd fat32 \<Rightarrow> ('r + 'l \<times> u32) \<times> 'd fat32" where
  "walk_directory dev body failure directory l st = walk_chain dev body failure 0 directory directory l st"

definition entry_at :: "nat \<Rightarrow> u8 list \<Rightarrow> u8 list" where
  "entry_at offset sector = take 32 (drop offset sector)"

definition alias_body :: "u8 list \<Rightarrow> (unit, bool) entry_body" where
  "alias_body alias number offset sector u =
     (if sector ! offset = 0 then Inl False
      else if sector ! offset = 0xE5 \<or> sector ! (offset + 11) = 0x0F then Inr u
      else if take 11 (drop offset sector) = take 11 alias then Inl True
      else Inr u)"

definition short_alias_exists :: "'d device \<Rightarrow> u32 \<Rightarrow> u8 list \<Rightarrow> 'd fat32 \<Rightarrow> bool \<times> 'd fat32" where
  "short_alias_exists dev directory alias st =
     (case walk_directory dev (alias_body alias) True directory () st of
        (Inl r, st1) \<Rightarrow> (r, st1)
      | (Inr _, st1) \<Rightarrow> (False, st1))"

fun digits :: "nat \<Rightarrow> u8 list" where
  "digits value = (if value < 10 then [0x30 + word_of_nat value] else digits (value div 10) @ [0x30 + word_of_nat (value mod 10)])"

declare digits.simps [simp del]

definition alias_char :: "u8 \<Rightarrow> bool" where
  "alias_char c \<longleftrightarrow> 0x41 \<le> c \<and> c \<le> 0x5A \<or> 0x30 \<le> c \<and> c \<le> 0x39"

definition alias_text :: "u8 list \<Rightarrow> u8 list" where
  "alias_text name = filter alias_char (map upper name)"

definition padded :: "nat \<Rightarrow> u8 list \<Rightarrow> u8 list" where
  "padded n text = text @ replicate (n - length text) 0x20"

text \<open>The parts of a name before and after its last dot.\<close>

definition name_base :: "u8 list \<Rightarrow> u8 list" where
  "name_base name = (if 0x2E \<in> set name then rev (tl (dropWhile (\<lambda>c. c \<noteq> 0x2E) (rev name))) else name)"

definition name_extension :: "u8 list \<Rightarrow> u8 list" where
  "name_extension name = (if 0x2E \<in> set name then rev (takeWhile (\<lambda>c. c \<noteq> 0x2E) (rev name)) else [])"

definition numbered_alias :: "u8 list \<Rightarrow> nat \<Rightarrow> u8 list" where
  "numbered_alias name number =
     (let text = take 8 (alias_text (name_base name));
          base = (if text = [] then [0x5F] else text);
          ds = digits number;
          prefix = (if length base < 7 - length ds then length base else 7 - length ds)
      in padded 8 (take prefix base @ [0x7E] @ ds) @ padded 3 (take 3 (alias_text (name_extension name))))"

function find_alias :: "'d device \<Rightarrow> u32 \<Rightarrow> u8 list \<Rightarrow> nat \<Rightarrow> 'd fat32 \<Rightarrow> u8 list option \<times> 'd fat32" where
  "find_alias dev directory name number st =
     (if number < 1000000
      then
        (case short_alias_exists dev directory (numbered_alias name number) st of
           (False, st1) \<Rightarrow> (Some (numbered_alias name number), st1)
         | (True, st1) \<Rightarrow> find_alias dev directory name (number + 1) st1)
      else (None, st))"
  by auto
termination by (relation "measure (\<lambda>(dev, directory, name, number, st). 1000000 - number)") auto

declare find_alias.simps [simp del]

text \<open>The short name of a new entry, and whether it needs a long name.\<close>

definition make_short_alias :: "'d device \<Rightarrow> u32 \<Rightarrow> u8 list \<Rightarrow> 'd fat32 \<Rightarrow> (u8 list \<times> bool) option \<times> 'd fat32" where
  "make_short_alias dev directory name st =
     (case short_name name of
        Some alias \<Rightarrow> (Some (alias, \<not> canonical_short_name name alias), st)
      | None \<Rightarrow> (case find_alias dev directory name 1 st of (alias, st1) \<Rightarrow> (map_option (\<lambda>a. (a, True)) alias, st1)))"

type_synonym slot = "u32 \<times> nat"

definition free_body :: "nat \<Rightarrow> (slot list \<times> bool, slot list option) entry_body" where
  "free_body required number offset sector l =
     (case l of (slots, end_seen) \<Rightarrow>
        let end_now = (end_seen \<or> sector ! offset = 0) in
        if end_now \<or> sector ! offset = 0xE5
        then let slots' = (if length slots < required then slots @ [(number, offset)] else slots)
             in if length slots' = required then Inl (Some slots') else Inr (slots', end_now)
        else Inr ([], end_now))"

text \<open>
  The sectors of a cluster appended to a directory. Result: None when a write fails, otherwise the slots
  and whether there are enough.
\<close>

fun take_slots :: "nat \<Rightarrow> u32 \<Rightarrow> nat list \<Rightarrow> slot list \<Rightarrow> bool \<times> slot list" where
  "take_slots required number [] slots = (False, slots)"
| "take_slots required number (offset # offsets) slots =
     (if length slots = required then (True, slots)
      else take_slots required number offsets (slots @ [(number, offset)]))"

primrec clear_and_take :: "'d device \<Rightarrow> nat \<Rightarrow> u32 list \<Rightarrow> slot list \<Rightarrow> 'd fat32 \<Rightarrow> (bool \<times> slot list) option \<times> 'd fat32" where
  "clear_and_take dev required [] slots st = (Some (False, slots), st)"
| "clear_and_take dev required (number # numbers) slots st =
     (case write_sector dev number (replicate 512 0) st of
        (False, st1) \<Rightarrow> (None, st1)
      | (True, st1) \<Rightarrow>
          (case take_slots required number entry_offsets slots of
             (True, slots') \<Rightarrow> (Some (True, slots'), st1)
           | (False, slots') \<Rightarrow> clear_and_take dev required numbers slots' st1))"

partial_function (option) grow_directory ::
  "'d device \<Rightarrow> nat \<Rightarrow> u32 \<Rightarrow> slot list \<Rightarrow> 'd fat32 \<Rightarrow> (slot list option \<times> 'd fat32) option" where
  "grow_directory dev required last_cluster slots st =
     (if length slots < required
      then
        (case allocate_cluster dev st of
           (added, st1) \<Rightarrow>
             if added = 0 then Some (None, st1)
             else
               (case update_fat dev last_cluster added st1 of
                  (linked, st2) \<Rightarrow>
                    if \<not> linked then Some (None, st2)
                    else
                      (case clear_and_take dev required (cluster_sectors added st2) slots st2 of
                         (cleared, st3) \<Rightarrow>
                           (case cleared of
                              None \<Rightarrow> Some (None, st3)
                            | Some (full, slots') \<Rightarrow>
                                if full then Some (Some slots', st3) else grow_directory dev required added slots' st3))))
      else Some (Some slots, st))"

definition find_free_slots :: "'d device \<Rightarrow> u32 \<Rightarrow> nat \<Rightarrow> 'd fat32 \<Rightarrow> (slot list option \<times> 'd fat32) option" where
  "find_free_slots dev directory required st =
     (case walk_directory dev (free_body required) None directory ([], False) st of
        (Inl r, st1) \<Rightarrow> Some (r, st1)
      | (Inr ((slots, end_seen), last_cluster), st1) \<Rightarrow> grow_directory dev required last_cluster slots st1)"

text \<open>The local variable \<open>lfn\<close> of the directory loops after \<open>lfn_reset\<close>; its other fields are not used while it is inactive.\<close>

definition lfn_start :: lfn_state where
  "lfn_start = \<lparr>lf_units = [], lf_checksum = 0, lf_expected_ordinal = 0, lf_total_ordinals = 0, lf_active = False\<rparr>"

definition find_body :: "u8 list \<Rightarrow> (lfn_state, (fat32_entry \<times> slot) option) entry_body" where
  "find_body name number offset sector lfn =
     (let initial = sector ! offset in
      if initial = 0 then Inl None
      else if initial = 0xE5 then Inr (lfn_reset lfn)
      else if sector ! (offset + 11) = 0x0F then Inr (lfn_add_entry (entry_at offset sector) lfn)
      else if sector ! (offset + 11) AND 0x08 \<noteq> 0 then Inr (lfn_reset lfn)
      else
        let short_match = (case short_name name of None \<Rightarrow> False | Some wanted \<Rightarrow> take 11 (drop offset sector) = wanted);
            long_match = (case lfn_decode lfn (entry_at offset sector) FS_DIRENT_NAME_MAX of
                            None \<Rightarrow> False | Some decoded \<Rightarrow> path_name_equal name decoded)
        in if \<not> short_match \<and> \<not> long_match then Inr (lfn_reset lfn)
           else Inl (Some (\<lparr>fe_cluster = push_bit 16 (ucast (read16 sector (offset + 20))) OR ucast (read16 sector (offset + 26)),
                            fe_size = read32 sector (offset + 28), fe_attributes = sector ! (offset + 11)\<rparr>, (number, offset))))"

definition find_entry :: "'d device \<Rightarrow> u32 \<Rightarrow> u8 list \<Rightarrow> 'd fat32 \<Rightarrow> (fat32_entry \<times> slot) option \<times> 'd fat32" where
  "find_entry dev directory name st =
     (case walk_directory dev (find_body name) None directory lfn_start st of
        (Inl r, st1) \<Rightarrow> (r, st1)
      | (Inr _, st1) \<Rightarrow> (None, st1))"

section \<open>Writing directories\<close>

text \<open>The loop that writes the long name entries, entry number \<open>i\<close> to slot \<open>i\<close>.\<close>

primrec write_long_entries :: "'d device \<Rightarrow> u16 list \<Rightarrow> u8 \<Rightarrow> nat \<Rightarrow> slot list \<Rightarrow> nat list \<Rightarrow> 'd fat32 \<Rightarrow> bool \<times> 'd fat32" where
  "write_long_entries dev units checksum long_entries slots [] st = (True, st)"
| "write_long_entries dev units checksum long_entries slots (i # is) st =
     (case slots ! i of
        (number, offset) \<Rightarrow>
          (case update_sector dev number
                  (\<lambda>sector. take offset sector @ lfn_entry units checksum (long_entries - i) (i = 0) @ drop (offset + 32) sector) st of
             (False, st1) \<Rightarrow> (False, st1)
           | (True, st1) \<Rightarrow> write_long_entries dev units checksum long_entries slots is st1))"

definition short_entry :: "u8 list \<Rightarrow> u8 \<Rightarrow> u32 \<Rightarrow> nat \<Rightarrow> u8 list \<Rightarrow> u8 list" where
  "short_entry alias attributes first_cluster offset sector =
     (let cleared = take offset sector @ alias @ replicate 21 0 @ drop (offset + 32) sector in
      write32 (offset + 28) 0
        (write16 (offset + 26) (ucast first_cluster)
          (write16 (offset + 20) (ucast (drop_bit 16 first_cluster)) (cleared[offset + 11 := attributes]))))"

definition create_named_entry :: "'d device \<Rightarrow> u32 \<Rightarrow> u8 list \<Rightarrow> u8 \<Rightarrow> u32 \<Rightarrow> 'd fat32 \<Rightarrow> (bool \<times> 'd fat32) option" where
  "create_named_entry dev directory name attributes first_cluster st =
     (case find_entry dev directory name st of
        (Some _, st1) \<Rightarrow> Some (False, st1)
      | (None, st1) \<Rightarrow>
          (case utf8_to_utf16 name of
             None \<Rightarrow> Some (False, st1)
           | Some units \<Rightarrow>
               (case make_short_alias dev directory name st1 of
                  (None, st2) \<Rightarrow> Some (False, st2)
                | (Some (alias, needs_long_name), st2) \<Rightarrow>
                    let long_entries = (if needs_long_name then (length units + 12) div 13 else 0);
                        entry_count = long_entries + 1
                    in if 21 < entry_count then Some (False, st2)
                       else do {
                         (found, st3) \<leftarrow> find_free_slots dev directory entry_count st2;
                         Some (case found of
                           None \<Rightarrow> (False, st3)
                         | Some slots \<Rightarrow>
                             (case write_long_entries dev units (lfn_checksum alias) long_entries slots [0 ..< long_entries] st3 of
                                (False, st4) \<Rightarrow> (False, st4)
                              | (True, st4) \<Rightarrow>
                                  (case slots ! long_entries of
                                     (number, offset) \<Rightarrow> update_sector dev number (short_entry alias attributes first_cluster offset) st4)))
                       })))"

definition delete_body :: "slot \<Rightarrow> (lfn_state \<times> slot list, slot list option) entry_body" where
  "delete_body target number offset sector l =
     (case l of (lfn, long_slots) \<Rightarrow>
        if sector ! offset = 0 then Inl None
        else if sector ! offset = 0xE5 then Inr (lfn_reset lfn, [])
        else if sector ! (offset + 11) = 0x0F
        then let lfn1 = lfn_add_entry (entry_at offset sector) lfn
             in Inr (lfn1, if lf_active lfn1 \<and> length long_slots < 20 then long_slots @ [(number, offset)] else [])
        else if (number, offset) = target
        then Inl (Some (if lfn_decode lfn (entry_at offset sector) FS_DIRENT_NAME_MAX = None then [] else long_slots))
        else Inr (lfn_reset lfn, []))"

primrec delete_slots :: "'d device \<Rightarrow> slot list \<Rightarrow> 'd fat32 \<Rightarrow> bool \<times> 'd fat32" where
  "delete_slots dev [] st = (True, st)"
| "delete_slots dev (slot # slots) st =
     (case update_sector dev (fst slot) (\<lambda>sector. sector[snd slot := 0xE5]) st of
        (False, st1) \<Rightarrow> (False, st1)
      | (True, st1) \<Rightarrow> delete_slots dev slots st1)"

definition mark_entry_deleted :: "'d device \<Rightarrow> u32 \<Rightarrow> slot \<Rightarrow> 'd fat32 \<Rightarrow> bool \<times> 'd fat32" where
  "mark_entry_deleted dev directory target st =
     (case walk_directory dev (delete_body target) None directory (lfn_start, []) st of
        (Inl (Some long_slots), st1) \<Rightarrow> delete_slots dev (long_slots @ [target]) st1
      | (_, st1) \<Rightarrow> (False, st1))"

section \<open>Paths\<close>

function resolve_parts :: "'d device \<Rightarrow> u8 list \<Rightarrow> u32 \<Rightarrow> 'd fat32 \<Rightarrow> u32 option \<times> 'd fat32" where
  "resolve_parts dev pathname current st =
     (if pathname = [] then (Some current, st)
      else
        let part = takeWhile (\<lambda>c. c \<noteq> 0x2F) pathname;
            rest = dropWhile (\<lambda>c. c = 0x2F) (dropWhile (\<lambda>c. c \<noteq> 0x2F) pathname)
        in if FS_PATH_MAX - 1 < length part then (None, st)
           else if part = [] \<or> part = [0x2E] then resolve_parts dev rest current st
           else if part = [0x2E, 0x2E] then (None, st)
           else
             (case find_entry dev current part st of
                (None, st1) \<Rightarrow> (None, st1)
              | (Some (entry, slot), st1) \<Rightarrow>
                  if fe_attributes entry AND 0x10 = 0 \<or> fe_cluster entry < 2 then (None, st1)
                  else resolve_parts dev rest (fe_cluster entry) st1))"
  by auto

lemma rest_of_part: "s \<noteq> [] \<Longrightarrow> length (dropWhile (\<lambda>c. c = x) (dropWhile (\<lambda>c. c \<noteq> x) s)) < length s"
proof (cases s)
  case (Cons a xs)
  show ?thesis
  proof (cases "a = x")
    case True
    then show ?thesis using Cons length_dropWhile_le [of "\<lambda>c. c = x" xs] by simp
  next
    case False
    then show ?thesis
      using Cons length_dropWhile_le [of "\<lambda>c. c \<noteq> x" xs] length_dropWhile_le [of "\<lambda>c. c = x" "dropWhile (\<lambda>c. c \<noteq> x) xs"] by simp
  qed
qed simp

termination resolve_parts
  by (relation "measure (\<lambda>(dev, pathname, current, st). length pathname)") (auto simp: rest_of_part)

declare resolve_parts.simps [simp del]

definition resolve_directory :: "'d device \<Rightarrow> u8 list \<Rightarrow> 'd fat32 \<Rightarrow> u32 option \<times> 'd fat32" where
  "resolve_directory dev pathname st =
     (if \<not> ft_mounted st then (None, st)
      else resolve_parts dev (dropWhile (\<lambda>c. c = 0x2F) pathname) (ft_root_cluster st) st)"

definition split_parent :: "u8 list \<Rightarrow> (u8 list \<times> u8 list) option" where
  "split_parent pathname =
     (if pathname = [] \<or> FS_PATH_MAX < length pathname then None
      else
        let trimmed = rev (dropWhile (\<lambda>c. c = 0x2F) (rev pathname));
            leaf = rev (takeWhile (\<lambda>c. c \<noteq> 0x2F) (rev trimmed));
            start = length trimmed - length leaf
        in if trimmed = [] \<or> leaf = [] \<or> FS_PATH_MAX \<le> length leaf \<or> FS_PATH_MAX \<le> start - 1 then None
           else Some (take (start - 1) pathname, leaf))"

definition readdir_body :: "nat \<Rightarrow> (lfn_state \<times> nat, int \<times> fs_dirent option) entry_body" where
  "readdir_body index number offset sector l =
     (case l of (lfn, visible) \<Rightarrow>
        if sector ! offset = 0 then Inl (0, None)
        else if sector ! offset = 0xE5 then Inr (lfn_reset lfn, visible)
        else if sector ! (offset + 11) = 0x0F then Inr (lfn_add_entry (entry_at offset sector) lfn, visible)
        else if sector ! (offset + 11) AND 0x08 \<noteq> 0 then Inr (lfn_reset lfn, visible)
        else if visible \<noteq> index then Inr (lfn_reset lfn, visible + 1)
        else
          let name = (case lfn_decode lfn (entry_at offset sector) FS_DIRENT_NAME_MAX of
                        Some decoded \<Rightarrow> decoded
                      | None \<Rightarrow> takeWhile (\<lambda>c. c \<noteq> 0) (short_display (entry_at offset sector)))
          in Inl (1, Some \<lparr>de_name = map (\<lambda>c. char_of (unat c)) name, de_size = unat (read32 sector (offset + 28)),
                           de_type = (if sector ! (offset + 11) AND 0x10 \<noteq> 0 then FS_DIRENT_DIRECTORY else FS_DIRENT_FILE)\<rparr>))"

definition fat32_readdir :: "'d device \<Rightarrow> u8 list \<Rightarrow> nat \<Rightarrow> 'd fat32 \<Rightarrow> (int \<times> fs_dirent option) \<times> 'd fat32" where
  "fat32_readdir dev pathname index st =
     (case resolve_directory dev pathname st of
        (None, st1) \<Rightarrow> ((-1, None), st1)
      | (Some directory, st1) \<Rightarrow>
          (case walk_directory dev (readdir_body index) (-1, None) directory (lfn_start, 0) st1 of
             (Inl r, st2) \<Rightarrow> (r, st2)
           | (Inr _, st2) \<Rightarrow> ((0, None), st2)))"

definition fat32_is_directory :: "'d device \<Rightarrow> u8 list \<Rightarrow> 'd fat32 \<Rightarrow> bool \<times> 'd fat32" where
  "fat32_is_directory dev pathname st = (case resolve_directory dev pathname st of (r, st1) \<Rightarrow> (r \<noteq> None, st1))"

primrec clear_sectors :: "'d device \<Rightarrow> u32 list \<Rightarrow> 'd fat32 \<Rightarrow> bool \<times> 'd fat32" where
  "clear_sectors dev [] st = (True, st)"
| "clear_sectors dev (number # numbers) st =
     (case write_sector dev number (replicate 512 0) st of
        (False, st1) \<Rightarrow> (False, st1)
      | (True, st1) \<Rightarrow> clear_sectors dev numbers st1)"

text \<open>The entries for the directory itself and its parent.\<close>

definition dot_entries :: "u32 \<Rightarrow> u32 \<Rightarrow> u8 list \<Rightarrow> u8 list" where
  "dot_entries child parent sector =
     (let dot = ([0x2E] @ replicate 10 0x20 @ [0x10] @ replicate 20 0) @ drop 32 sector;
          dot1 = write16 26 (ucast child) (write16 20 (ucast (drop_bit 16 child)) dot);
          dot2 = (take 32 dot1 @ [0x2E, 0x2E] @ replicate 9 0x20 @ drop 43 dot1)[43 := 0x10]
      in write16 58 (ucast parent) (write16 52 (ucast (drop_bit 16 parent)) dot2))"

definition fat32_make_directory :: "'d device \<Rightarrow> u8 list \<Rightarrow> 'd fat32 \<Rightarrow> (bool \<times> 'd fat32) option" where
  "fat32_make_directory dev pathname st =
     (case split_parent pathname of
        None \<Rightarrow> Some (False, st)
      | Some (parent, leaf) \<Rightarrow>
          (case resolve_directory dev parent st of
             (None, st1) \<Rightarrow> Some (False, st1)
           | (Some parent_cluster, st1) \<Rightarrow>
               (case allocate_cluster dev st1 of
                  (child, st2) \<Rightarrow>
                    if child = 0 then Some (False, st2)
                    else
                      (case clear_sectors dev (cluster_sectors child st2) st2 of
                         (False, st3) \<Rightarrow> Some (False, st3)
                       | (True, st3) \<Rightarrow>
                           (case read_sector dev (cluster_sector child st3) st3 of
                              (None, st4) \<Rightarrow> Some (False, st4)
                            | (Some dot, st4) \<Rightarrow> do {
                                (ok, st5) \<leftarrow>
                                  (case write_sector dev (cluster_sector child st4) (dot_entries child parent_cluster dot) st4 of
                                     (False, st5) \<Rightarrow> Some (False, st5)
                                   | (True, st5) \<Rightarrow> create_named_entry dev parent_cluster leaf 0x10 child st5);
                                Some (if ok then (True, st5) else (False, snd (update_fat dev child 0 st5)))
                              })))))"

section \<open>Files\<close>

text \<open>The loop that gives back the clusters of a chain.\<close>

partial_function (option) free_chain :: "'d device \<Rightarrow> u32 \<Rightarrow> 'd fat32 \<Rightarrow> (bool \<times> 'd fat32) option" where
  "free_chain dev cluster st =
     (if in_chain cluster
      then
        (case next_cluster dev cluster st of
           (next, st1) \<Rightarrow>
             (case update_fat dev cluster 0 st1 of
                (ok, st2) \<Rightarrow> if \<not> ok then Some (False, st2) else free_chain dev next st2))
      else Some (True, st))"

definition empty_body :: "(unit, bool) entry_body" where
  "empty_body number offset sector u =
     (if sector ! offset = 0 then Inl True
      else if sector ! offset = 0xE5 then Inr u
      else if sector ! offset = 0x2E \<and> (sector ! (offset + 1) = 0x20 \<or> sector ! (offset + 1) = 0x2E) then Inr u
      else Inl False)"

definition locate_path_entry :: "'d device \<Rightarrow> u8 list \<Rightarrow> 'd fat32 \<Rightarrow> (u32 \<times> fat32_entry \<times> slot) option \<times> 'd fat32" where
  "locate_path_entry dev pathname st =
     (case split_parent pathname of
        None \<Rightarrow> (None, st)
      | Some (parent, leaf) \<Rightarrow>
          (case resolve_directory dev parent st of
             (None, st1) \<Rightarrow> (None, st1)
           | (Some parent_cluster, st1) \<Rightarrow>
               (case find_entry dev parent_cluster leaf st1 of
                  (None, st2) \<Rightarrow> (None, st2)
                | (Some (entry, slot), st2) \<Rightarrow> (Some (parent_cluster, entry, slot), st2))))"

definition fat32_remove_directory :: "'d device \<Rightarrow> u8 list \<Rightarrow> 'd fat32 \<Rightarrow> (bool \<times> 'd fat32) option" where
  "fat32_remove_directory dev pathname st =
     (case locate_path_entry dev pathname st of
        (None, st1) \<Rightarrow> Some (False, st1)
      | (Some (parent_cluster, entry, slot), st1) \<Rightarrow>
          if fe_attributes entry AND 0x10 = 0 \<or> fe_cluster entry < 2 then Some (False, st1)
          else
            (case walk_directory dev empty_body False (fe_cluster entry) () st1 of
               (Inl False, st2) \<Rightarrow> Some (False, st2)
             | (_, st2) \<Rightarrow>
                 (case mark_entry_deleted dev parent_cluster slot st2 of
                    (False, st3) \<Rightarrow> Some (False, st3)
                  | (True, st3) \<Rightarrow> free_chain dev (fe_cluster entry) st3)))"

definition fat32_stat_file :: "'d device \<Rightarrow> u8 list \<Rightarrow> 'd fat32 \<Rightarrow> nat option \<times> 'd fat32" where
  "fat32_stat_file dev pathname st =
     (case locate_path_entry dev pathname st of
        (None, st1) \<Rightarrow> (None, st1)
      | (Some (parent, entry, slot), st1) \<Rightarrow>
          (if fe_attributes entry AND 0x10 \<noteq> 0 then None else Some (unat (fe_size entry)), st1))"

text \<open>The sectors of one cluster, as many as are still needed; the result is the bytes and what remains.\<close>

primrec read_cluster :: "'d device \<Rightarrow> u32 list \<Rightarrow> nat \<Rightarrow> u8 list \<Rightarrow> 'd fat32 \<Rightarrow> (u8 list \<times> nat) option \<times> 'd fat32" where
  "read_cluster dev [] remaining buffer st = (Some (buffer, remaining), st)"
| "read_cluster dev (number # numbers) remaining buffer st =
     (if remaining = 0 then (Some (buffer, remaining), st)
      else
        (case read_sector dev number st of
           (None, st1) \<Rightarrow> (None, st1)
         | (Some sector, st1) \<Rightarrow>
             let amount = (if remaining < 512 then remaining else 512)
             in read_cluster dev numbers (remaining - amount) (buffer @ take amount sector) st1))"

partial_function (option) read_chain :: "'d device \<Rightarrow> u32 \<Rightarrow> nat \<Rightarrow> u8 list \<Rightarrow> 'd fat32 \<Rightarrow> (u8 list option \<times> 'd fat32) option" where
  "read_chain dev cluster remaining buffer st =
     (if remaining \<noteq> 0 \<and> in_chain cluster
      then
        (case read_cluster dev (cluster_sectors cluster st) remaining buffer st of
           (r, st1) \<Rightarrow>
             (case r of
                None \<Rightarrow> Some (None, st1)
              | Some (buffer', remaining') \<Rightarrow>
                  (case next_cluster dev cluster st1 of (next, st2) \<Rightarrow> read_chain dev next remaining' buffer' st2)))
      else Some (if remaining \<noteq> 0 then None else Some buffer, st))"

definition fat32_read_file :: "'d device \<Rightarrow> u8 list \<Rightarrow> nat \<Rightarrow> 'd fat32 \<Rightarrow> (u8 list option \<times> 'd fat32) option" where
  "fat32_read_file dev pathname capacity st =
     (case locate_path_entry dev pathname st of
        (None, st1) \<Rightarrow> Some (None, st1)
      | (Some (parent, entry, slot), st1) \<Rightarrow>
          if fe_attributes entry AND 0x10 \<noteq> 0 then Some (None, st1)
          else
            read_chain dev (fe_cluster entry) (if unat (fe_size entry) < capacity then unat (fe_size entry) else capacity) [] st1)"

definition fat32_create_file :: "'d device \<Rightarrow> u8 list \<Rightarrow> 'd fat32 \<Rightarrow> (bool \<times> 'd fat32) option" where
  "fat32_create_file dev pathname st =
     (case split_parent pathname of
        None \<Rightarrow> Some (False, st)
      | Some (parent_path, leaf) \<Rightarrow>
          (case resolve_directory dev parent_path st of
             (None, st1) \<Rightarrow> Some (False, st1)
           | (Some parent, st1) \<Rightarrow>
               (case find_entry dev parent leaf st1 of
                  (Some (existing, slot), st2) \<Rightarrow> Some (fe_attributes existing AND 0x10 = 0, st2)
                | (None, st2) \<Rightarrow>
                    (case allocate_cluster dev st2 of
                       (data_cluster, st3) \<Rightarrow>
                         if data_cluster = 0 then Some (False, st3)
                         else do {
                           (ok, st4) \<leftarrow> create_named_entry dev parent leaf 0x20 data_cluster st3;
                           Some (if ok then (True, st4) else (False, snd (update_fat dev data_cluster 0 st4)))
                         }))))"

function collect_clusters :: "'d device \<Rightarrow> u32 \<Rightarrow> u32 list \<Rightarrow> 'd fat32 \<Rightarrow> u32 list \<times> 'd fat32" where
  "collect_clusters dev cluster clusters st =
     (if in_chain cluster \<and> length clusters < 32
      then (case next_cluster dev cluster st of (next, st1) \<Rightarrow> collect_clusters dev next (clusters @ [cluster]) st1)
      else (clusters, st))"
  by auto
termination by (relation "measure (\<lambda>(dev, cluster, clusters, st). 32 - length clusters)") auto

declare collect_clusters.simps [simp del]

function extend_chain :: "'d device \<Rightarrow> nat \<Rightarrow> u32 list \<Rightarrow> 'd fat32 \<Rightarrow> u32 list option \<times> 'd fat32" where
  "extend_chain dev required clusters st =
     (if length clusters < required
      then
        (case allocate_cluster dev st of
           (next, st1) \<Rightarrow>
             if next = 0 then (None, st1)
             else
               (case update_fat dev (last clusters) next st1 of
                  (False, st2) \<Rightarrow> (None, st2)
                | (True, st2) \<Rightarrow> extend_chain dev required (clusters @ [next]) st2))
      else (Some clusters, st))"
  by auto
termination by (relation "measure (\<lambda>(dev, required, clusters, st). required - length clusters)") auto

declare extend_chain.simps [simp del]

text \<open>Cut a chain that is longer than required.\<close>

definition truncate_chain :: "'d device \<Rightarrow> nat \<Rightarrow> u32 list \<Rightarrow> 'd fat32 \<Rightarrow> (bool \<times> 'd fat32) option" where
  "truncate_chain dev required clusters st =
     (if required < length clusters
      then
        (case next_cluster dev (clusters ! (required - 1)) st of
           (next, st1) \<Rightarrow>
             (case update_fat dev (clusters ! (required - 1)) 0x0FFFFFFF st1 of
                (False, st2) \<Rightarrow> Some (False, st2)
              | (True, st2) \<Rightarrow> free_chain dev next st2))
      else Some (True, st))"

text \<open>The data sectors in order, each with its 512 bytes, the last ones padded with zeros.\<close>

primrec write_data :: "'d device \<Rightarrow> u32 list \<Rightarrow> u8 list \<Rightarrow> 'd fat32 \<Rightarrow> bool \<times> 'd fat32" where
  "write_data dev [] buffer st = (True, st)"
| "write_data dev (number # numbers) buffer st =
     (let amount = (if 512 < length buffer then 512 else length buffer) in
      (case write_sector dev number (take amount buffer @ replicate (512 - amount) 0) st of
         (False, st1) \<Rightarrow> (False, st1)
       | (True, st1) \<Rightarrow> write_data dev numbers (drop amount buffer) st1))"

definition fat32_write_file :: "'d device \<Rightarrow> u8 list \<Rightarrow> u8 list \<Rightarrow> 'd fat32 \<Rightarrow> (bool \<times> 'd fat32) option" where
  "fat32_write_file dev pathname buffer st =
     (if 0xFFFFFFFF < length buffer then Some (False, st)
      else
        (case locate_path_entry dev pathname st of
           (None, st1) \<Rightarrow> Some (False, st1)
         | (Some (parent, entry, slot), st1) \<Rightarrow>
             if fe_attributes entry AND 0x10 \<noteq> 0 \<or> fe_cluster entry < 2 then Some (False, st1)
             else
               let cluster_bytes = unat (ft_sectors_per_cluster st1) * 512;
                   needed = (length buffer + cluster_bytes - 1) div cluster_bytes;
                   required = (if needed = 0 then 1 else needed)
               in (case collect_clusters dev (fe_cluster entry) [] st1 of
                     (clusters, st2) \<Rightarrow>
                       if clusters = [] \<or> 32 < required then Some (False, st2)
                       else
                         (case extend_chain dev required clusters st2 of
                            (None, st3) \<Rightarrow> Some (False, st3)
                          | (Some clusters', st3) \<Rightarrow> do {
                              (ok, st4) \<leftarrow> truncate_chain dev required clusters' st3;
                              if \<not> ok then Some (False, st4)
                              else
                                (case write_data dev (concat (map (\<lambda>c. cluster_sectors c st4) (take required clusters'))) buffer st4 of
                                   (False, st5) \<Rightarrow> Some (False, st5)
                                 | (True, st5) \<Rightarrow>
                                     Some (update_sector dev (fst slot) (write32 (snd slot + 28) (word_of_nat (length buffer))) st5))
                            }))))"

definition fat32_unlink_file :: "'d device \<Rightarrow> u8 list \<Rightarrow> 'd fat32 \<Rightarrow> (bool \<times> 'd fat32) option" where
  "fat32_unlink_file dev pathname st =
     (case locate_path_entry dev pathname st of
        (None, st1) \<Rightarrow> Some (False, st1)
      | (Some (parent, entry, slot), st1) \<Rightarrow>
          if fe_attributes entry AND 0x10 \<noteq> 0 then Some (False, st1)
          else
            (case mark_entry_deleted dev parent slot st1 of
               (False, st2) \<Rightarrow> Some (False, st2)
             | (True, st2) \<Rightarrow> free_chain dev (fe_cluster entry) st2))"

definition fat32_sync :: "'d device \<Rightarrow> 'd fat32 \<Rightarrow> bool \<times> 'd fat32" where
  "fat32_sync dev st =
     (if \<not> ft_mounted st then (False, st)
      else (case block_flush dev (ft_block st) of (r, b) \<Rightarrow> (r, st\<lparr>ft_block := b\<rparr>)))"

end
