(* ===== verification/Vmm_Space.thy ===== *)
theory Vmm_Space
  imports Kmalloc
begin

text \<open>
  The address spaces of \<^verbatim>\<open>src/mm/vmm.c\<close>: creating, cloning and destroying them, and the protection of the
  boot loader's mappings. A space is a heap object whose only field is in \<open>mm_spaces\<close>. A function that
  recurses over the levels of a page table takes the level minus one, so that level 1 is 0. Operations
  that call the kernel heap have the result None when the heap's loops do not end. What \<^verbatim>\<open>vmm_init\<close> reads
  from the processor, the linker script and the boot loader are arguments.
\<close>

section \<open>Copying and freeing tables\<close>

definition large_or_absent :: "u64 \<Rightarrow> bool" where
  "large_or_absent entry \<longleftrightarrow> entry AND VMM_PRESENT = 0 \<or> entry AND PAGE_SIZE_FLAG \<noteq> 0"

primrec destroy_cloned_tables :: "nat \<Rightarrow> u64 \<Rightarrow> mm_state \<Rightarrow> mm_state" where
  "destroy_cloned_tables 0 physical st = mm_free_page physical st"
| "destroy_cloned_tables (Suc level) physical st =
     mm_free_page physical
       (fold (\<lambda>i st. let entry = mm_frames st physical i in
                     if large_or_absent entry then st else destroy_cloned_tables level (table_physical entry) st)
             [0 ..< ENTRY_COUNT] st)"

text \<open>The loop of \<open>clone_table\<close>; \<open>clone\<close> copies a child table, None at the lowest level. The result says whether it ended.\<close>

primrec clone_entries :: "(u64 \<Rightarrow> mm_state \<Rightarrow> u64 \<times> mm_state) option \<Rightarrow> nat list \<Rightarrow> u64 \<Rightarrow> u64 \<Rightarrow> mm_state \<Rightarrow> bool \<times> mm_state" where
  "clone_entries clone [] source destination st = (True, st)"
| "clone_entries clone (i # is) source destination st =
     (let entry = mm_frames st source i in
      (case (if large_or_absent entry then None else clone) of
         None \<Rightarrow> clone_entries clone is source destination (write_entry destination i entry st)
       | Some copy \<Rightarrow>
           (case copy (table_physical entry) st of
              (child, st1) \<Rightarrow>
                if child = PMM_INVALID_ADDRESS then (False, st1)
                else clone_entries clone is source destination
                       (write_entry destination i (child OR (entry AND NOT PAGE_ADDRESS_MASK)) st1))))"

primrec clone_table :: "nat \<Rightarrow> u64 \<Rightarrow> mm_state \<Rightarrow> u64 \<times> mm_state" where
  "clone_table 0 source st =
     (case mm_alloc_page st of (destination, st1) \<Rightarrow>
        if destination = PMM_INVALID_ADDRESS then (PMM_INVALID_ADDRESS, st1)
        else (destination, snd (clone_entries None [0 ..< ENTRY_COUNT] source destination (clear_table destination st1))))"
| "clone_table (Suc level) source st =
     (case mm_alloc_page st of (destination, st1) \<Rightarrow>
        if destination = PMM_INVALID_ADDRESS then (PMM_INVALID_ADDRESS, st1)
        else
          (case clone_entries (Some (clone_table level)) [0 ..< ENTRY_COUNT] source destination (clear_table destination st1) of
             (True, st2) \<Rightarrow> (destination, st2)
           | (False, st2) \<Rightarrow> (PMM_INVALID_ADDRESS, destroy_cloned_tables (Suc level) destination st2)))"

primrec destroy_table :: "nat \<Rightarrow> u64 \<Rightarrow> mm_state \<Rightarrow> mm_state" where
  "destroy_table 0 physical st =
     mm_free_page physical
       (fold (\<lambda>i st. let entry = mm_frames st physical i in
                     if entry AND VMM_PRESENT = 0 \<or> entry AND VMM_USER = 0 then st else mm_free_page (table_physical entry) st)
             [0 ..< ENTRY_COUNT] st)"
| "destroy_table (Suc level) physical st =
     mm_free_page physical
       (fold (\<lambda>i st. let entry = mm_frames st physical i in
                     if entry AND VMM_PRESENT = 0 then st
                     else if entry AND PAGE_SIZE_FLAG \<noteq> 0
                     then (if entry AND VMM_USER \<noteq> 0 then mm_free_page (table_physical entry) st else st)
                     else destroy_table level (table_physical entry) st)
             [0 ..< ENTRY_COUNT] st)"

section \<open>Spaces\<close>

definition vmm_kernel_space :: space_ptr where
  "vmm_kernel_space = Kernel_Space"

primrec clone_kernel_half :: "nat list \<Rightarrow> u64 \<Rightarrow> mm_state \<Rightarrow> nat option \<times> mm_state" where
  "clone_kernel_half [] root st = (None, st)"
| "clone_kernel_half (i # is) root st =
     (let entry = mm_frames st (mm_kernel_pml4 st) i in
      if entry AND VMM_PRESENT = 0 then clone_kernel_half is root st
      else
        (case clone_table 2 (table_physical entry) st of
           (child, st1) \<Rightarrow>
             if child = PMM_INVALID_ADDRESS then (Some i, st1)
             else clone_kernel_half is root (write_entry root i (child OR (entry AND NOT PAGE_ADDRESS_MASK)) st1)))"

text \<open>The part of \<open>vmm_space_create\<close> below the heap: the new root, or \<open>PMM_INVALID_ADDRESS\<close> with everything undone.\<close>

definition create_root :: "mm_state \<Rightarrow> u64 \<times> mm_state" where
  "create_root st =
     (case mm_alloc_page st of (physical, st1) \<Rightarrow>
        if physical = PMM_INVALID_ADDRESS then (PMM_INVALID_ADDRESS, st1)
        else
          (case clone_kernel_half [0 ..< ENTRY_COUNT div 2] physical (clear_table physical st1) of
             (Some i, st2) \<Rightarrow>
               (PMM_INVALID_ADDRESS, mm_free_page physical
                  (fold (\<lambda>j st. if mm_frames st physical j AND VMM_PRESENT \<noteq> 0
                                then destroy_cloned_tables 2 (table_physical (mm_frames st physical j)) st else st) [0 ..< i] st2))
           | (None, st2) \<Rightarrow>
               (physical, fold (\<lambda>j st. write_entry physical j (mm_frames st (mm_kernel_pml4 st) j) st)
                  [ENTRY_COUNT div 2 ..< ENTRY_COUNT] st2)))"

definition vmm_space_create :: "kheap \<Rightarrow> (space_ptr \<times> kheap) option" where
  "vmm_space_create st = do {
     (space, st1) \<leftarrow> kmalloc 8 st;
     if space = 0 then Some (Null_Space, st1)
     else
       (case create_root (kh_mm st1) of
          (physical, mm) \<Rightarrow>
            let st2 = st1\<lparr>kh_mm := mm\<rparr> in
            if physical = PMM_INVALID_ADDRESS
            then map_option (\<lambda>(freed, st3). (Null_Space, st3)) (kfree space st2)
            else Some (Heap_Space space, st2\<lparr>kh_mm := mm\<lparr>mm_spaces := (mm_spaces mm)(space := physical)\<rparr>\<rparr>))
   }"

definition vmm_space_destroy :: "space_ptr \<Rightarrow> kheap \<Rightarrow> kheap option" where
  "vmm_space_destroy space st =
     (case space of
        Heap_Space p \<Rightarrow>
          let root = space_pml4 (kh_mm st) space;
              mm = fold (\<lambda>i mm. if mm_frames mm root i AND VMM_PRESENT \<noteq> 0
                                then destroy_table 2 (table_physical (mm_frames mm root i)) mm else mm)
                     [0 ..< ENTRY_COUNT div 2] (kh_mm st)
          in map_option snd (kfree p (st\<lparr>kh_mm := mm_free_page root mm\<rparr>))
      | _ \<Rightarrow> Some st)"

section \<open>Copy-on-write clones\<close>

definition page_table_virtual_address :: "u64 \<Rightarrow> nat \<Rightarrow> nat \<Rightarrow> u64" where
  "page_table_virtual_address prefix index level = prefix OR push_bit (12 + 9 * level) (word_of_nat index)"

text \<open>The entries the loops over a table visit: only the user half of the root.\<close>

definition user_entries :: "nat \<Rightarrow> nat list" where
  "user_entries level = (if level = 3 then [0 ..< ENTRY_COUNT div 2] else [0 ..< ENTRY_COUNT])"

definition clone_user_page :: "space_ptr \<Rightarrow> u64 \<Rightarrow> u64 \<Rightarrow> mm_state \<Rightarrow> bool \<times> mm_state" where
  "clone_user_page child entry address st =
     (let flags = entry AND (VMM_WRITABLE OR VMM_USER OR VMM_NO_EXECUTE OR VMM_COPY_ON_WRITE);
          shared = (if flags AND VMM_WRITABLE \<noteq> 0 then (flags AND NOT VMM_WRITABLE) OR VMM_COPY_ON_WRITE else flags);
          physical = table_physical entry
      in (case pmm_retain_page physical (mm_pmm st) of
            (False, p) \<Rightarrow> (False, st\<lparr>mm_pmm := p\<rparr>)
          | (True, p) \<Rightarrow>
              (case map_page_locked child address physical shared (st\<lparr>mm_pmm := p\<rparr>) of
                 (False, st1) \<Rightarrow> (False, mm_free_page physical st1)
               | (True, st1) \<Rightarrow> (True, st1))))"

text \<open>A loop over the present entries of a table that ends at the first failure.\<close>

primrec for_entries :: "(nat \<Rightarrow> u64 \<Rightarrow> mm_state \<Rightarrow> bool \<times> mm_state) \<Rightarrow> nat list \<Rightarrow> u64 \<Rightarrow> mm_state \<Rightarrow> bool \<times> mm_state" where
  "for_entries body [] table st = (True, st)"
| "for_entries body (i # is) table st =
     (let entry = mm_frames st table i in
      if entry AND VMM_PRESENT = 0 then for_entries body is table st
      else
        (case body i entry st of
           (False, st1) \<Rightarrow> (False, st1)
         | (True, st1) \<Rightarrow> for_entries body is table st1))"

primrec clone_user_mappings_cow :: "nat \<Rightarrow> space_ptr \<Rightarrow> u64 \<Rightarrow> u64 \<Rightarrow> mm_state \<Rightarrow> bool \<times> mm_state" where
  "clone_user_mappings_cow 0 child table prefix st =
     for_entries (\<lambda>i entry st. if entry AND VMM_USER = 0 then (True, st)
        else clone_user_page child entry (page_table_virtual_address prefix i 0) st) (user_entries 0) table st"
| "clone_user_mappings_cow (Suc level) child table prefix st =
     for_entries (\<lambda>i entry st.
        if entry AND PAGE_SIZE_FLAG \<noteq> 0 then (entry AND VMM_USER = 0, st)
        else clone_user_mappings_cow level child (table_physical entry) (page_table_virtual_address prefix i (Suc level)) st)
        (user_entries (Suc level)) table st"

primrec protect_user_mappings_cow :: "nat \<Rightarrow> space_ptr \<Rightarrow> u64 \<Rightarrow> u64 \<Rightarrow> mm_state \<Rightarrow> mm_state" where
  "protect_user_mappings_cow 0 space table prefix st =
     snd (for_entries (\<lambda>i entry st.
        if entry AND (VMM_PRESENT OR VMM_USER OR VMM_WRITABLE) \<noteq> VMM_PRESENT OR VMM_USER OR VMM_WRITABLE then (True, st)
        else (True, invlpg (space_pml4 st space) (page_table_virtual_address prefix i 0)
               (write_entry table i ((entry AND NOT VMM_WRITABLE) OR VMM_COPY_ON_WRITE) st))) (user_entries 0) table st)"
| "protect_user_mappings_cow (Suc level) space table prefix st =
     snd (for_entries (\<lambda>i entry st.
        (True, if entry AND PAGE_SIZE_FLAG \<noteq> 0 then st
               else protect_user_mappings_cow level space (table_physical entry) (page_table_virtual_address prefix i (Suc level)) st))
        (user_entries (Suc level)) table st)"

definition vmm_space_clone_cow :: "space_ptr \<Rightarrow> kheap \<Rightarrow> (space_ptr \<times> kheap) option" where
  "vmm_space_clone_cow space st =
     (if space = Null_Space then Some (Null_Space, st)
      else do {
        (child, st1) \<leftarrow> vmm_space_create st;
        if child = Null_Space then Some (Null_Space, st1)
        else
          (case clone_user_mappings_cow 3 child (space_pml4 (kh_mm st1) space) 0 (kh_mm st1) of
             (False, mm) \<Rightarrow> map_option (\<lambda>st2. (Null_Space, st2)) (vmm_space_destroy child (st1\<lparr>kh_mm := mm\<rparr>))
           | (True, mm) \<Rightarrow>
               Some (child, st1\<lparr>kh_mm := protect_user_mappings_cow 3 space (space_pml4 mm space) 0 mm\<rparr>))
      })"

section \<open>Protecting the boot mappings\<close>

definition range_overlaps :: "u64 \<Rightarrow> u64 \<Rightarrow> u64 \<Rightarrow> u64 \<Rightarrow> bool" where
  "range_overlaps start len protected_start protected_end \<longleftrightarrow>
     start < protected_end \<and> (protected_start \<le> start \<or> protected_start - start < len)"

definition range_contains :: "u64 \<Rightarrow> u64 \<Rightarrow> u64 \<Rightarrow> u64 \<Rightarrow> bool" where
  "range_contains protected_start protected_end start len \<longleftrightarrow>
     protected_start \<le> start \<and> start < protected_end \<and> len \<le> protected_end - start"

definition mapping_size :: "nat \<Rightarrow> u64" where
  "mapping_size level = push_bit (12 + 9 * level) 1"

definition mapping_base :: "nat \<Rightarrow> u64 \<Rightarrow> u64" where
  "mapping_base level entry = (entry AND PAGE_ADDRESS_MASK) AND NOT (mapping_size level - 1)"

definition split_attributes :: "nat \<Rightarrow> u64 \<Rightarrow> u64" where
  "split_attributes level entry =
     (let attributes = entry AND NOT PAGE_ADDRESS_MASK; large_pat = entry AND push_bit 12 1 in
      if level = 1
      then (if large_pat \<noteq> 0 then (attributes AND NOT PAGE_SIZE_FLAG) OR push_bit 7 1 else attributes AND NOT PAGE_SIZE_FLAG)
      else attributes OR large_pat)"

definition split_boot_mapping :: "u64 \<Rightarrow> nat \<Rightarrow> nat \<Rightarrow> mm_state \<Rightarrow> bool \<times> mm_state" where
  "split_boot_mapping table i level st =
     (case mm_alloc_page st of (new_table, st1) \<Rightarrow>
        if new_table = PMM_INVALID_ADDRESS then (False, st1)
        else
          let entry = mm_frames st1 table i;
              child_size = mapping_size level div 512;
              st2 = fold (\<lambda>j st. write_entry new_table j
                      ((mapping_base level entry + word_of_nat j * child_size) OR split_attributes level entry) st)
                    [0 ..< ENTRY_COUNT] st1
          in (True, write_entry table i (new_table OR VMM_PRESENT OR VMM_WRITABLE) st2))"

text \<open>The permissions of a mapping by what it contains.\<close>

definition protect_leaf :: "bool \<Rightarrow> bool \<Rightarrow> u64 \<Rightarrow> u64" where
  "protect_leaf readonly executable entry =
     (let e1 = entry AND NOT VMM_USER;
          e2 = (if readonly \<or> executable then e1 AND NOT VMM_WRITABLE else e1)
      in if executable then e2 AND NOT VMM_NO_EXECUTE else e2 OR VMM_NO_EXECUTE)"

record kernel_layout =
  kl_text_start :: u64
  kl_text_end :: u64
  kl_rodata_end :: u64
  kl_physical_base :: u64
  kl_virtual_base :: u64

definition sign_extend_root :: "nat \<Rightarrow> u64 \<Rightarrow> u64" where
  "sign_extend_root level address =
     (if level = 3 \<and> address AND push_bit 47 1 \<noteq> 0 then address OR 0xFFFF000000000000 else address)"

text \<open>
  One entry of a boot table. The result is Inl for a leaf that was protected (the loop continues) or for a
  failure, and Inr for an entry that, perhaps after splitting, leads to another table.
\<close>

definition protect_entry :: "kernel_layout \<Rightarrow> u64 \<Rightarrow> u64 \<Rightarrow> u64 \<Rightarrow> nat \<Rightarrow> nat \<Rightarrow> u64 \<Rightarrow> mm_state \<Rightarrow> (bool + unit) \<times> mm_state" where
  "protect_entry layout readonly_start readonly_end table level i address st =
     (let entry = mm_frames st table i in
      if level = 0 \<or> entry AND PAGE_SIZE_FLAG \<noteq> 0
      then
        if level = 3 then (Inl False, st)
        else
          let size = mapping_size level;
              physical = mapping_base level entry;
              readonly = range_contains readonly_start readonly_end physical size;
              executable = range_contains (kl_text_start layout) (kl_text_end layout) address size
          in if 0 < level \<and>
                (\<not> readonly \<and> range_overlaps physical size readonly_start readonly_end \<or>
                 \<not> executable \<and> range_overlaps address size (kl_text_start layout) (kl_text_end layout))
             then (case split_boot_mapping table i level st of
                     (False, st1) \<Rightarrow> (Inl False, st1)
                   | (True, st1) \<Rightarrow> (Inr (), st1))
             else (Inl True, write_entry table i (protect_leaf readonly executable entry) st)
      else (Inr (), st))"

text \<open>Let the leaves below an entry decide: make the entry writable, executable and supervisor-only.\<close>

definition open_entry :: "u64 \<Rightarrow> nat \<Rightarrow> mm_state \<Rightarrow> mm_state" where
  "open_entry table i st =
     write_entry table i ((mm_frames st table i OR VMM_WRITABLE) AND NOT (VMM_USER OR VMM_NO_EXECUTE)) st"

primrec protect_boot_table :: "nat \<Rightarrow> kernel_layout \<Rightarrow> u64 \<Rightarrow> u64 \<Rightarrow> u64 \<Rightarrow> u64 \<Rightarrow> mm_state \<Rightarrow> bool \<times> mm_state" where
  "protect_boot_table 0 layout readonly_start readonly_end table prefix st =
     for_entries (\<lambda>i entry st.
        case protect_entry layout readonly_start readonly_end table 0 i (page_table_virtual_address prefix i 0) st of
          (Inl ok, st1) \<Rightarrow> (ok, st1)
        | (Inr _, st1) \<Rightarrow> (True, st1)) [0 ..< ENTRY_COUNT] table st"
| "protect_boot_table (Suc level) layout readonly_start readonly_end table prefix st =
     for_entries (\<lambda>i entry st.
        let address = sign_extend_root (Suc level) (page_table_virtual_address prefix i (Suc level)) in
        (case protect_entry layout readonly_start readonly_end table (Suc level) i address st of
           (Inl ok, st1) \<Rightarrow> (ok, st1)
         | (Inr _, st1) \<Rightarrow>
             let st2 = open_entry table i st1 in
             protect_boot_table level layout readonly_start readonly_end (table_physical (mm_frames st2 table i)) address st2))
        [0 ..< ENTRY_COUNT] table st"

text \<open>
  \<open>cr4\<close> is the control register, \<open>nx\<close> the result of \<^verbatim>\<open>cpu_enable_nx\<close>, and the layout is None when the boot
  loader gave no kernel address. Flushing global translations is a write to CR4 with no effect in the model.
\<close>

definition vmm_init :: "u64 \<Rightarrow> bool \<Rightarrow> kernel_layout option \<Rightarrow> mm_state \<Rightarrow> bool \<times> mm_state" where
  "vmm_init cr4 nx layout st =
     (if cr4 AND push_bit 12 1 \<noteq> 0 then (False, st)
      else
        let st1 = st\<lparr>mm_kernel_pml4 := mm_cr3 st AND PAGE_ADDRESS_MASK\<rparr> in
        (case (if nx then layout else None) of
           None \<Rightarrow> (False, st1)
         | Some kl \<Rightarrow>
             let readonly_start = kl_physical_base kl + kl_text_start kl - kl_virtual_base kl;
                 readonly_end = kl_physical_base kl + kl_rodata_end kl - kl_virtual_base kl
             in (case protect_boot_table 3 kl readonly_start readonly_end (mm_kernel_pml4 st1) 0 st1 of
                   (False, st2) \<Rightarrow> (False, st2)
                 | (True, st2) \<Rightarrow>
                     (True, if cr4 AND push_bit 7 1 \<noteq> 0 then st2 else vmm_space_activate Kernel_Space st2))))"

section \<open>Splitting keeps translations\<close>

lemma fold_write_entries:
  "mm_frames (fold (\<lambda>j st. write_entry t j (f j) st) [0 ..< n] st) = (mm_frames st)(t := (\<lambda>j. if j < n then f j else mm_frames st t j))"
  by (induction n) (auto simp: fun_eq_iff less_Suc_eq)

lemma mask_minus: "push_bit n 1 - 1 = (mask n :: u64)"
  by (simp add: mask_eq_exp_minus_1 push_bit_of_1)

lemma mapping_size_minus: "mapping_size level - 1 = mask (12 + 9 * level)"
  unfolding mapping_size_def by (rule mask_minus)

lemma bit_mapping_base:
  "level \<le> 2 \<Longrightarrow> bit (mapping_base level entry) n \<longleftrightarrow> bit entry n \<and> 12 + 9 * level \<le> n \<and> n < 52"
  unfolding mapping_base_def mapping_size_minus
  by (auto simp: bit_simps bit_PAGE_ADDRESS_MASK dest: bit_imp_le_length)

lemma bit_pat: "bit (128 :: int) n \<longleftrightarrow> n = 7" "bit (4096 :: int) n \<longleftrightarrow> n = 12"
proof -
  have "bit (push_bit k 1 :: int) n \<longleftrightarrow> n = k" for k
    by (auto simp: bit_push_bit_iff bit_1_iff simp del: push_bit_of_1)
  from this [of 7] this [of 12] show "bit (128 :: int) n \<longleftrightarrow> n = 7" "bit (4096 :: int) n \<longleftrightarrow> n = 12" by simp_all
qed

lemma split_child:
  fixes entry :: u64
  assumes level: "level = 1 \<or> level = 2" and j: "j = drop_bit (3 + 9 * level) va AND 0x1FF"
  defines "child \<equiv> (mapping_base level entry + word_of_nat (unat j) * (mapping_size level div 512)) OR split_attributes level entry"
  shows "mapping_base (level - 1) child + (va AND (mapping_size (level - 1) - 1)) = mapping_base level entry + (va AND (mapping_size level - 1))"
proof -
  let ?s = "3 + 9 * level"
  have sz: "mapping_size level div 512 = push_bit ?s 1"
    using level by (elim disjE) (simp_all add: mapping_size_def push_bit_of_1 push_bit_eq_mult)
  have jb: "bit j n \<longleftrightarrow> n < 9 \<and> bit va (?s + n)" for n
  proof -
    have m9: "(0x1FF :: u64) = mask 9" by (simp add: mask_eq_exp_minus_1)
    show ?thesis unfolding j m9 by (auto simp: bit_simps dest: bit_imp_le_length)
  qed
  have m: "word_of_nat (unat j) * (mapping_size level div 512) = push_bit ?s j" unfolding sz by (simp add: push_bit_eq_mult mult.commute)
  have c: "mapping_base level entry + push_bit ?s j = mapping_base level entry OR push_bit ?s j"
    by (rule disjunctive_add_eq_or, rule bit_word_eqI)
      (use level in \<open>auto simp: bit_simps bit_mapping_base jb\<close>)
  have cb: "bit (mapping_base (level - 1) child) n \<longleftrightarrow> ?s \<le> n \<and> n < 52 \<and> (if 12 + 9 * level \<le> n then bit entry n else bit va n)" for n
    unfolding child_def m c using level
    by (elim disjE) (auto simp: bit_mapping_base bit_simps jb split_attributes_def Let_def entry_bits bit_pat)
  have l: "mapping_base (level - 1) child + (va AND (mapping_size (level - 1) - 1)) = mapping_base (level - 1) child OR (va AND mask ?s)"
    unfolding mapping_size_minus using level
    by (intro trans [OF disjunctive_add_eq_or], intro bit_word_eqI) (auto simp: bit_simps bit_mapping_base)
  have r: "mapping_base level entry + (va AND (mapping_size level - 1)) = mapping_base level entry OR (va AND mask (12 + 9 * level))"
    unfolding mapping_size_minus using level
    by (intro disjunctive_add_eq_or bit_word_eqI) (auto simp: bit_simps bit_mapping_base)
  show ?thesis unfolding l r
  proof (rule bit_word_eqI)
    fix n
    show "bit (mapping_base (level - 1) child OR (va AND mask ?s)) n = bit (mapping_base level entry OR (va AND mask (12 + 9 * level))) n"
      unfolding bit_or_iff cb using level by (auto simp: bit_simps bit_mapping_base)
  qed
qed

lemma query_leaf:
  assumes "bit (mm_frames st table i) 0" "\<not> root \<or> \<not> bit (mm_frames st table i) 7" "is = [] \<or> bit (mm_frames st table i) 7"
  shows "map_option fst (query_walk st va root (i # is) table effective nx) =
    Some (mapping_base (length is) (mm_frames st table i) + (va AND (mapping_size (length is) - 1)))"
  using assms by (auto simp: Let_def mapping_base_def mapping_size_def)

lemma split_attributes_bits:
  assumes "level = 1 \<or> level = 2" "bit entry 0" "bit entry 7"
  shows "bit (split_attributes level entry) 0" "level = 2 \<Longrightarrow> bit (split_attributes level entry) 7"
  using assms by (auto simp: split_attributes_def Let_def entry_bits bit_pat)

lemma split_query:
  assumes level: "level = 1 \<or> level = 2" and inv: "pmm_inv (mm_pmm st)" and t: "table \<notin> free_frames (mm_pmm st)"
    and e: "bit (mm_frames st table i) 0" "bit (mm_frames st table i) 7"
    and s: "split_boot_mapping table i level st = (True, st')"
  shows "map_option fst (query_walk st' va False (i # drop (4 - level) (indices va)) table effective nx) =
    map_option fst (query_walk st va False (i # drop (4 - level) (indices va)) table effective nx)"
proof -
  let ?entry = "mm_frames st table i" and ?is = "drop (4 - level) (indices va)"
  obtain a st1 where a: "mm_alloc_page st = (a, st1)" by fastforce
  with s have na: "a \<noteq> PMM_INVALID_ADDRESS" by (auto simp: split_boot_mapping_def)
  obtain p where p: "pmm_alloc_page (mm_pmm st) = (a, p)" "st1 = st\<lparr>mm_pmm := p\<rparr>"
    using a by (auto simp: mm_alloc_page_def split: prod.splits)
  note F = pmm_alloc_frame [OF inv p(1) na]
  have ne: "a \<noteq> table" using F(5) t by auto
  define child where "child j = (mapping_base level ?entry + word_of_nat j * (mapping_size level div 512)) OR split_attributes level ?entry" for j
  have st': "st' = write_entry table i (table_entry a 0) (fold (\<lambda>j st. write_entry a j (child j) st) [0 ..< 512] st1)"
    using s a na p(2) by (simp add: split_boot_mapping_def Let_def child_def ENTRY_COUNT_def table_entry_def)
  have m': "mm_frames st' = (mm_frames st)(a := (\<lambda>j. if j < 512 then child j else mm_frames st a j),
      table := (mm_frames st table)(i := table_entry a 0))"
  proof -
    have f: "mm_frames st1 = mm_frames st" by (simp add: p(2))
    show ?thesis unfolding st' write_entry_fields fold_write_entries f using ne by simp
  qed
  note T = table_entry_bits [OF F(1), of 0]
  obtain j rest where js: "?is = j # rest" "length rest = level - 1" "j = unat (drop_bit (3 + 9 * level) va AND 0x1FF)"
    using level by (elim disjE) (simp_all add: indices_def)
  have j: "j < 512"
  proof -
    have "unat (drop_bit (3 + 9 * level) va AND mask 9) < 2 ^ 9" by (simp add: unat_and_mask_u64)
    then show ?thesis by (simp add: js(3) mask_eq_exp_minus_1)
  qed
  have c0: "bit (child j) 0" "rest = [] \<or> bit (child j) 7"
    using split_attributes_bits [OF level e] level js(2) by (auto simp: child_def bit_or_iff)
  have "map_option fst (query_walk st' va False (i # ?is) table effective nx) =
      map_option fst (query_walk st' va False (j # rest) a (effective AND (table_entry a 0 AND (VMM_WRITABLE OR VMM_USER)))
        (nx OR (table_entry a 0 AND VMM_NO_EXECUTE)))"
    using T js(1) by (simp add: m' Let_def)
  also have "\<dots> = Some (mapping_base (level - 1) (child j) + (va AND (mapping_size (level - 1) - 1)))"
    using query_leaf [of st' a j False rest va] c0 j ne js(2) by (simp add: m')
  also have "\<dots> = Some (mapping_base level ?entry + (va AND (mapping_size level - 1)))"
    using split_child [OF level refl, of ?entry va] by (simp only: child_def js(3))
  also have "\<dots> = map_option fst (query_walk st va False (i # ?is) table effective nx)"
  proof -
    have len: "length ?is = level" using js(1,2) level by auto
    have "map_option fst (query_walk st va False (i # ?is) table effective nx) =
        Some (mapping_base (length ?is) ?entry + (va AND (mapping_size (length ?is) - 1)))"
      by (rule query_leaf) (use e in simp_all)
    then show ?thesis unfolding len by (rule sym)
  qed
  finally show ?thesis .
qed

section \<open>Sharing a page with a child\<close>

lemma view_frames: "mm_frames st' = mm_frames st \<Longrightarrow> view st' root = view st root"
  by (rule ext) (simp add: view_def)

lemma retain_page_spec:
  assumes inv: "space_inv st root" and r: "pmm_retain_page a (mm_pmm st) = (True, p)" and a: "is_frame a"
  shows "space_inv (st\<lparr>mm_pmm := p\<rparr>) root" "0 < frame_refs (mm_pmm st) a"
    "frame_refs p = (frame_refs (mm_pmm st))(a := frame_refs (mm_pmm st) a + 1)"
proof -
  note P = space_invD [OF inv]
  have live: "0 < frame_refs (mm_pmm st) a" "frame_refs (mm_pmm st) a < 65535"
    using pmm_kernel.retain_dead [OF P(1), of a] r is_frame_not_top [OF a] by force+
  then show "0 < frame_refs (mm_pmm st) a" by blast
  obtain R: "pmm_inv p" "frame_refs p = (frame_refs (mm_pmm st))(a := frame_refs (mm_pmm st) a + 1)"
    using pmm_kernel.retain_live [OF P(1) live] r by auto
  show "frame_refs p = (frame_refs (mm_pmm st))(a := frame_refs (mm_pmm st) a + 1)" by (rule R(2))
  have "free_frames p = free_frames (mm_pmm st)"
    using r by (auto simp: pmm_retain_page_def Let_def free_frames_def free_set_def bitmap_test_def split: if_splits)
  then show "space_inv (st\<lparr>mm_pmm := p\<rparr>) root" using P R(1) by (simp add: space_inv_def)
qed

lemma free_page_spec:
  assumes inv: "space_inv st root" and a: "is_frame a" "a \<notin> tables_of (mm_frames st) root" "0 < frame_refs (mm_pmm st) a"
  shows "space_inv (mm_free_page a st) root"
    "frame_refs (mm_pmm (mm_free_page a st)) = (frame_refs (mm_pmm st))(a := frame_refs (mm_pmm st) a - 1)"
    "mm_frames (mm_free_page a st) = mm_frames st" "same_regs st (mm_free_page a st)"
proof -
  note P = space_invD [OF inv]
  have nt: "a \<notin> {TOP_PAGE}" using is_frame_not_top [OF a(1)] by simp
  show f: "mm_frames (mm_free_page a st) = mm_frames st" "same_regs st (mm_free_page a st)" by simp_all
  show "frame_refs (mm_pmm (mm_free_page a st)) = (frame_refs (mm_pmm st))(a := frame_refs (mm_pmm st) a - 1)"
    using pmm_kernel.free_live [OF P(1) a(3)] by auto
  have "pmm_inv (mm_pmm (mm_free_page a st))" using pmm_kernel.free_invar [OF P(1) nt] by simp
  then show "space_inv (mm_free_page a st) root"
    using P pmm_kernel.free_avail [OF P(1) nt] a(2) by (auto simp: space_inv_def)
qed

text \<open>The flags of a page of the child for a leaf of the parent.\<close>

definition shared_flags :: "u64 \<Rightarrow> u64" where
  "shared_flags entry = (let flags = entry AND (VMM_WRITABLE OR VMM_USER OR VMM_NO_EXECUTE OR VMM_COPY_ON_WRITE)
     in if bit entry 1 then (flags AND NOT VMM_WRITABLE) OR VMM_COPY_ON_WRITE else flags)"

lemma shared_flags_bits:
  "\<not> bit (shared_flags e) 1" "bit (shared_flags e) 9 \<longleftrightarrow> bit e 1 \<or> bit e 9" "bit (shared_flags e) 63 = bit e 63"
  "bit (shared_flags e) 2 = bit e 2"
  by (auto simp: shared_flags_def Let_def entry_bits)

lemma clone_user_page_unfold:
  "clone_user_page child entry address st =
     (case pmm_retain_page (table_physical entry) (mm_pmm st) of
        (False, p) \<Rightarrow> (False, st\<lparr>mm_pmm := p\<rparr>)
      | (True, p) \<Rightarrow>
          (case map_page_locked child address (table_physical entry) (shared_flags entry) (st\<lparr>mm_pmm := p\<rparr>) of
             (False, st1) \<Rightarrow> (False, mm_free_page (table_physical entry) st1)
           | (True, st1) \<Rightarrow> (True, st1)))"
proof -
  let ?f = "entry AND (VMM_WRITABLE OR VMM_USER OR VMM_NO_EXECUTE OR VMM_COPY_ON_WRITE)"
  have eq: "(if ?f AND VMM_WRITABLE \<noteq> 0 then (?f AND NOT VMM_WRITABLE) OR VMM_COPY_ON_WRITE else ?f) = shared_flags entry"
    by (simp add: shared_flags_def Let_def entry_bits)
  show ?thesis unfolding clone_user_page_def Let_def eq ..
qed

lemma clone_user_page_True:
  assumes inv: "space_inv st (space_pml4 st child)" "wx_ok st (space_pml4 st child)" "cow_held st (space_pml4 st child)"
    and e: "bit entry 1 \<or> bit entry 9 \<longrightarrow> bit entry 63"
      "table_physical entry \<notin> tables_of (mm_frames st) (space_pml4 st child)"
    and r: "pmm_retain_page (table_physical entry) (mm_pmm st) = (True, p)"
    and m: "map_page_locked child address (table_physical entry) (shared_flags entry) (st\<lparr>mm_pmm := p\<rparr>) = (ok, st1)"
  shows "kept (st\<lparr>mm_pmm := p\<rparr>) (space_pml4 st child) st1"
proof -
  let ?a = "table_physical entry" and ?root = "space_pml4 st child" and ?st = "st\<lparr>mm_pmm := p\<rparr>"
  note R = retain_page_spec [OF inv(1) r is_frame_table_physical]
  have g: "space_pml4 ?st child = ?root" by (simp add: space_pml4_def split: space_ptr.split)
  have v: "view ?st ?root = view st ?root" by (rule view_frames) simp
  have "wx_ok ?st ?root" using inv(2) by (simp add: wx_ok_def v)
  moreover have "cow_held ?st ?root" using inv(3) R(3) by (simp add: cow_held_def v)
  ultimately show ?thesis
    using map_kept [OF _ _ _ is_frame_table_physical _ m] R g e shared_flags_bits [of entry] by simp
qed

section \<open>Properties\<close>

text \<open>C14. Splitting a large page of the boot loader to give its parts different permissions changes no
  translation: every address still translates through the entry to the physical address it had, for
  pages of 2 MiB and of 1 GiB, whatever their attributes and PAT bit.\<close>

theorem split_boot_mapping_translates:
  assumes "level = 1 \<or> level = 2" "pmm_inv (mm_pmm st)" "table \<notin> free_frames (mm_pmm st)"
    "bit (mm_frames st table i) 0" "bit (mm_frames st table i) 7" "split_boot_mapping table i level st = (True, st')"
  shows "map_option fst (query_walk st' va False (i # drop (4 - level) (indices va)) table effective nx) =
    map_option fst (query_walk st va False (i # drop (4 - level) (indices va)) table effective nx)"
  by (rule split_query [OF assms])

text \<open>A boot table whose entry 5 maps 2 MiB from physical address 0x40000000.\<close>

definition demo_boot :: mm_state where
  "demo_boot = demo_mm\<lparr>mm_frames := (\<lambda>t i. if t = 0x10000000 \<and> i = 5 then 0x40000083 else 0)\<rparr>"

theorem split_boot_mapping_translates_witness:
  "\<exists>st'. split_boot_mapping 0x10000000 5 1 demo_boot = (True, st') \<and>
    map_option fst (query_walk st' 0xA01234 False (5 # drop 3 (indices 0xA01234)) 0x10000000 0 0) = Some 0x40001234"
proof -
  have inv: "pmm_inv (mm_pmm demo_boot)" by (simp add: demo_boot_def demo_mm_def demo_big_inv)
  have "0x10000000 \<in> tables_of (mm_frames demo_mm) 0x10000000"
    by (auto simp: tables_of_def intro!: exI [of _ "[]"])
  then have t: "0x10000000 \<notin> free_frames (mm_pmm demo_boot)"
    using space_invD(3) [OF demo_mm_inv(1)] by (auto simp: demo_boot_def)
  obtain a p where a: "pmm_alloc_page (mm_pmm demo_boot) = (a, p)" by fastforce
  have "free_set (mm_pmm demo_boot) \<noteq> {}" by (simp add: demo_boot_def demo_mm_def demo_big_free)
  then have "a \<noteq> PMM_INVALID_ADDRESS"
    using alloc_page_with_reserve_refs(2) [OF inv a [unfolded pmm_alloc_page_def]] pmm_invD(5) [OF inv]
    by (auto simp: word_le_nat_alt)
  with a obtain st' where s: "split_boot_mapping 0x10000000 5 1 demo_boot = (True, st')"
    by (simp add: split_boot_mapping_def mm_alloc_page_def Let_def)
  have e: "mm_frames demo_boot 0x10000000 5 = 0x40000083" by (simp add: demo_boot_def)
  have "map_option fst (query_walk st' 0xA01234 False (5 # drop (4 - 1) (indices 0xA01234)) 0x10000000 0 0) =
      map_option fst (query_walk demo_boot 0xA01234 False (5 # drop (4 - 1) (indices 0xA01234)) 0x10000000 0 0)"
    by (rule split_boot_mapping_translates [OF _ inv t _ _ s]) (simp_all add: e bit_pat)
  also have "\<dots> = Some 0x40001234"
    by (simp add: indices_def e Let_def bit_pat PAGE_ADDRESS_MASK_def)
  finally show ?thesis using s by simp
qed

text \<open>C37. Copying a user page to the child of a fork. If the parent's leaf is not writable, or
  copy-on-write, and executable at once, then the child's tables stay a well-formed tree with no page
  that is or can become writable and executable. On success exactly one page of the child changes: it
  gets the parent's frame, which gains one reference, read-only, copy-on-write if the parent could write
  or was itself copy-on-write, with the parent's user and no-execute bits. On failure no page of the child
  and no reference count changes. The parent's page is assumed not to use a page table of the child as its
  frame.\<close>

theorem clone_user_page_shares:
  assumes "space_inv st (space_pml4 st child)" "wx_ok st (space_pml4 st child)" "cow_held st (space_pml4 st child)"
    "bit entry 1 \<or> bit entry 9 \<longrightarrow> bit entry 63"
    "table_physical entry \<notin> tables_of (mm_frames st) (space_pml4 st child)"
    "clone_user_page child entry address st = (ok, st')"
  defines "root \<equiv> space_pml4 st child" and "a \<equiv> table_physical entry"
  shows "space_inv st' root \<and> wx_ok st' root \<and> cow_held st' root \<and>
    (if ok then frame_refs (mm_pmm st') a = frame_refs (mm_pmm st) a + 1 \<and>
       (\<exists>e. view st' root = (view st root)(indices address := Some (e, 0)) \<and> table_physical e = a \<and>
          \<not> bit e 1 \<and> bit e 9 = (bit entry 1 \<or> bit entry 9) \<and> bit e 2 = bit entry 2 \<and> bit e 63 = bit entry 63)
     else view st' root = view st root \<and> frame_refs (mm_pmm st') = frame_refs (mm_pmm st))"
proof -
  have fa: "is_frame a" by (simp add: a_def)
  obtain b p where r: "pmm_retain_page a (mm_pmm st) = (b, p)" by fastforce
  note C = assms(6) [unfolded clone_user_page_unfold, folded a_def]
  show ?thesis
  proof (cases b)
    case False
    then have "p = mm_pmm st" using r by (auto simp: pmm_retain_page_def Let_def split: if_splits)
    then show ?thesis using False C r assms(1-3) by (auto simp: root_def)
  next
    case True
    then have r: "pmm_retain_page a (mm_pmm st) = (True, p)" using r by simp
    let ?st = "st\<lparr>mm_pmm := p\<rparr>"
    obtain b1 st1 where m: "map_page_locked child address a (shared_flags entry) ?st = (b1, st1)" by fastforce
    note R = retain_page_spec [OF assms(1) r fa, folded root_def]
    have K: "kept ?st root st1"
      using clone_user_page_True [OF assms(1-5) r [unfolded a_def] m [unfolded a_def]] by (simp add: root_def)
    have "space_pml4 ?st child = root" by (simp add: root_def space_pml4_def split: space_ptr.split)
    moreover have "view ?st root = view st root" by (rule view_frames) simp
    ultimately have g: "space_pml4 ?st child = root" "view ?st root = view st root" by blast+
    show ?thesis
    proof (cases b1)
      case True
      then have m: "map_page_locked child address a (shared_flags entry) ?st = (True, st1)" using m by simp
      have st': "ok" "st' = st1" using C r m by simp_all
      obtain v: "view st1 root = (view ?st root)(indices address := Some (leaf_entry a (shared_flags entry), 0))"
        and gr: "grown ?st root st1"
        by (rule map_page_locked_True [OF _ fa m]) (use R(1) g(1) in simp_all)
      have "a \<notin> free_frames p"
        using R pmm_kernel.avail_unreferenced [OF space_invD(1) [OF R(1)], of a] by auto
      then have "frame_refs (mm_pmm st1) a = frame_refs (mm_pmm st) a + 1" using gr R(3) by (simp add: grown_def)
      then show ?thesis
        using K v st' g(2) leaf_entry_bits [OF fa] shared_flags_bits [of entry] by (auto simp: kept_def)
    next
      case False
      then have u: "undone ?st root st1" using m map_page_locked_False [of ?st child] R(1) g(1) by auto
      have st': "\<not> ok" "st' = mm_free_page a st1" using C r m False by simp_all
      have t: "tables_of (mm_frames st1) root = tables_of (mm_frames st) root"
        using u same_tree_tables by (simp add: undone_def)
      note F = free_page_spec [of st1 root a]
      have f: "space_inv st' root" "frame_refs (mm_pmm st') = frame_refs (mm_pmm st)" "mm_frames st' = mm_frames st1"
        using F fa u t assms(5) R by (auto simp: undone_def st' root_def a_def)
      have "view st' root = view st root" using undone_view [OF u] g(2) view_frames [OF f(3)] by simp
      then show ?thesis using f t assms(2,3) st'(1) by (simp add: wx_ok_def cow_held_def root_def)
    qed
  qed
qed

theorem clone_user_page_shares_witness:
  "\<exists>st' e. clone_user_page (Heap_Space 0x40) (leaf_entry shared_frame (VMM_USER OR VMM_WRITABLE OR VMM_NO_EXECUTE))
       0x400000 demo_shared = (True, st') \<and>
     view st' 0x20000000 (indices 0x400000) = Some (e, 0) \<and> table_physical e = shared_frame \<and>
     \<not> bit e 1 \<and> bit e 9 \<and> bit e 63 \<and> frame_refs (mm_pmm st') shared_frame = 3"
proof -
  let ?e = "leaf_entry shared_frame (VMM_USER OR VMM_WRITABLE OR VMM_NO_EXECUTE)" and ?c = "Heap_Space 0x40"
  note P = demo_shared_pmm and I = demo_shared_inv and L = leaf_entry_bits [OF demo_shared_pmm(1)]
  obtain ok st' where c: "clone_user_page ?c ?e 0x400000 demo_shared = (ok, st')" by fastforce
  obtain p where r: "pmm_retain_page shared_frame (mm_pmm demo_shared) = (True, p)"
    using pmm_kernel.retain_live [OF P(2), of shared_frame] P(3) by auto
  let ?st = "demo_shared\<lparr>mm_pmm := p\<rparr>"
  have s: "\<not> bit (shared_flags ?e) 1" "bit (shared_flags ?e) 63" using shared_flags_bits L by (simp_all add: entry_bits)
  have a: "shared_frame mod 4096 = 0" "shared_frame \<noteq> PMM_INVALID_ADDRESS"
    using is_frame_not_invalid [OF P(1)] P(1) by (simp_all add: is_frame_iff)
  have "\<not> map_rejected ?c 0x400000 shared_frame (shared_flags ?e)"
    using a s by (simp add: map_rejected_def address_is_canonical_def)
  moreover have g: "space_pml4 ?st ?c = 0x20000000" "view ?st 0x20000000 (indices 0x400000) = None" "mm_frames ?st = mm_frames demo_shared"
    using I(1,3) view_frames [of ?st demo_shared] by (simp_all add: space_pml4_def)
  moreover have "free_set p = free_set (mm_pmm demo_shared)"
    using r by (auto simp: pmm_retain_page_def Let_def free_set_def bitmap_test_def split: if_splits)
  ultimately have "fst (map_page_locked ?c 0x400000 shared_frame (shared_flags ?e) ?st)"
    using map_page_locked_succeeds [of ?st ?c "0x400000" shared_frame "shared_flags ?e"]
      retain_page_spec(1) [OF I(2) r P(1)] I(4) P(5) by simp
  then have ok: "ok"
    using c r L(3)
    by (cases "map_page_locked ?c 0x400000 shared_frame (shared_flags ?e) ?st") (auto simp: clone_user_page_unfold split: bool.splits)
  have "wx_ok demo_shared 0x20000000" "cow_held demo_shared 0x20000000"
    by (simp_all add: wx_ok_def cow_held_def I(3))
  then show ?thesis
    using clone_user_page_shares [OF _ _ _ _ _ c] I(1,2,5) P(3,7) L ok c by (auto simp: entry_bits fun_upd_same)
qed

end
