(* ===== verification/Page_Bytes.thy ===== *)
theory Page_Bytes
  imports Page_Tree Word_Bytes
begin

text \<open>
  Page frames as bytes and ranges of pages, for the components that copy data into and out of user
  memory: the kernel reaches the byte at a physical address through the direct map, words are
  little-endian, and the loop over the pages of a range is the list of its pages.
\<close>

section \<open>Bytes of a frame\<close>

definition word_byte :: "nat \<Rightarrow> u64 \<Rightarrow> u8" where
  "word_byte k w = ucast (drop_bit (8 * k) w)"

definition set_word_byte :: "nat \<Rightarrow> u8 \<Rightarrow> u64 \<Rightarrow> u64" where
  "set_word_byte k b w = (w AND NOT (push_bit (8 * k) (mask 8))) OR push_bit (8 * k) (ucast b)"

definition page_base :: "u64 \<Rightarrow> u64" where
  "page_base a = a AND NOT (4096 - 1)"

definition page_offset :: "u64 \<Rightarrow> nat" where
  "page_offset a = unat (a AND (4096 - 1))"

definition frame_byte :: "mm_state \<Rightarrow> u64 \<Rightarrow> u8" where
  "frame_byte st a = word_byte (page_offset a mod 8) (mm_frames st (page_base a) (page_offset a div 8))"

definition set_frame_byte :: "u64 \<Rightarrow> u8 \<Rightarrow> mm_state \<Rightarrow> mm_state" where
  "set_frame_byte a b st = write_entry (page_base a) (page_offset a div 8)
     (set_word_byte (page_offset a mod 8) b (mm_frames st (page_base a) (page_offset a div 8))) st"

definition load_frame :: "u64 \<Rightarrow> nat \<Rightarrow> mm_state \<Rightarrow> u8 list" where
  "load_frame a n st = map (\<lambda>i. frame_byte st (a + word_of_nat i)) [0 ..< n]"

primrec store_frame :: "u64 \<Rightarrow> u8 list \<Rightarrow> mm_state \<Rightarrow> mm_state" where
  "store_frame a [] st = st"
| "store_frame a (b # bs) st = store_frame (a + 1) bs (set_frame_byte a b st)"

lemma bit_word_byte: "bit (word_byte k w) n \<longleftrightarrow> n < 8 \<and> bit w (8 * k + n)"
  by (auto simp: word_byte_def bit_simps)

lemma bit_set_word_byte:
  "bit (set_word_byte k b w) n \<longleftrightarrow> n < 64 \<and> (if 8 * k \<le> n \<and> n < 8 * k + 8 then bit b (n - 8 * k) else bit w n)"
  using bit_imp_le_length [of b "n - 8 * k"] bit_imp_le_length [of w n] by (auto simp: set_word_byte_def bit_simps)

lemma word_byte_set:
  assumes "k < 8" "j < 8"
  shows "word_byte j (set_word_byte k b w) = (if j = k then b else word_byte j w)"
proof (rule bit_word_eqI)
  fix n assume n: "n < LENGTH(8)"
  show "bit (word_byte j (set_word_byte k b w)) n = bit (if j = k then b else word_byte j w) n"
    using assms n by (auto simp: bit_word_byte bit_set_word_byte)
qed

lemma unat_page_base': "unat (page_base a) = unat a div 4096 * 4096"
  by (simp add: page_base_def)

lemma page_offset_unat: "page_offset a = unat a mod 4096"
  by (simp add: page_offset_def)

lemma page_offset_lt [simp]: "page_offset a < 4096"
  by (simp add: page_offset_unat)

lemma page_split_eq: "page_base a = page_base b \<Longrightarrow> page_offset a = page_offset b \<Longrightarrow> a = b"
proof -
  assume "page_base a = page_base b" "page_offset a = page_offset b"
  then have "unat a div 4096 * 4096 + unat a mod 4096 = unat b div 4096 * 4096 + unat b mod 4096"
    by (simp only: page_offset_unat unat_page_base' [symmetric])
  then show "a = b" by (simp only: div_mult_mod_eq word_unat_eq_iff)
qed

lemma frame_byte_set:
  "frame_byte (set_frame_byte a b st) c = (if c = a then b else frame_byte st c)"
proof (cases "page_base c = page_base a \<and> page_offset c div 8 = page_offset a div 8")
  case True
  then have "c = a \<longleftrightarrow> page_offset c mod 8 = page_offset a mod 8"
    by (metis div_mult_mod_eq page_split_eq)
  then show ?thesis using True by (simp add: frame_byte_def set_frame_byte_def write_entry_def word_byte_set)
next
  case False
  then have "c \<noteq> a" by auto
  then show ?thesis using False by (auto simp: frame_byte_def set_frame_byte_def write_entry_def)
qed

section \<open>Ranges of pages\<close>

text \<open>
  The loop \<^verbatim>\<open>for (page = start; page < end; page += PMM_PAGE_SIZE)\<close>. The ranges of user memory end below
  \<open>2 ^ 47\<close>, so the counter does not wrap; \<open>pages_step\<close> shows that the list is that loop.
\<close>

definition pages :: "u64 \<Rightarrow> u64 \<Rightarrow> u64 list" where
  "pages start end = map (\<lambda>k. start + 4096 * word_of_nat k) [0 ..< (unat end - unat start + 4095) div 4096]"

lemma pages_empty: "\<not> start < end \<Longrightarrow> pages start end = []"
  by (simp add: pages_def word_less_nat_alt)

lemma page_count_Suc: "0 < (d :: nat) \<Longrightarrow> (d + 4095) div 4096 = Suc ((d - 4096 + 4095) div 4096)"
proof (cases "d \<le> 4096")
  case False
  then have "d + 4095 = (d - 4096 + 4095) + 4096" by simp
  then show ?thesis by (metis div_add_self2 numeral_eq_Suc nat.simps(3) Suc_eq_plus1)
qed (simp add: div_nat_eqI)

lemma page_index: "k < ((d :: nat) + 4095) div 4096 \<longleftrightarrow> 4096 * k < d"
  unfolding Suc_le_eq [symmetric] by (subst less_eq_div_iff_mult_less_eq) auto

lemma map_upt_Suc: "map f [0 ..< Suc n] = f 0 # map (\<lambda>k. f (Suc k)) [0 ..< n]"
  by (induction n) simp_all

lemma pages_step:
  assumes "start < end" "unat end + 4096 \<le> 2 ^ 64"
  shows "pages start end = start # pages (start + 4096) end"
proof -
  have l: "unat start < unat end" using assms(1) by (simp add: word_less_nat_alt)
  have "unat start + unat (4096 :: u64) < 18446744073709551616" using l assms(2) by simp
  then have u: "unat (start + 4096) = unat start + 4096" by (subst unat_u64_add) simp_all
  have n: "(unat end - unat start + 4095) div 4096 = Suc ((unat end - unat (start + 4096) + 4095) div 4096)"
    using page_count_Suc [of "unat end - unat start"] l unfolding u by simp
  have f: "start + 4096 * word_of_nat (Suc k) = start + 4096 + 4096 * word_of_nat k" for k
    by (simp add: distrib_left)
  show ?thesis unfolding pages_def n map_upt_Suc f by simp
qed

lemma set_pages:
  assumes "unat end \<le> 2 ^ 63"
  shows "a \<in> set (pages start end) \<longleftrightarrow>
    unat start \<le> unat a \<and> unat a < unat end \<and> (unat a - unat start) mod 4096 = 0"
proof -
  have e: "unat (start + 4096 * word_of_nat k) = unat start + 4096 * k" if "k < (unat end - unat start + 4095) div 4096" for k
  proof -
    have b: "4096 * k < unat end - unat start" using that by (simp add: page_index)
    then have "k < 2 ^ 51" using assms by simp
    then have "unat (4096 * word_of_nat k :: u64) = 4096 * k" by (simp add: unat_u64_mult unat_u64_of_nat)
    then show ?thesis using b assms by (subst unat_u64_add) auto
  qed
  show ?thesis
  proof
    assume "a \<in> set (pages start end)"
    then have "a \<in> (\<lambda>k. start + 4096 * word_of_nat k) ` {0 ..< (unat end - unat start + 4095) div 4096}"
      by (simp only: pages_def set_map set_upt)
    then obtain k where k: "k < (unat end - unat start + 4095) div 4096" "a = start + 4096 * word_of_nat k"
      unfolding image_iff by (meson atLeastLessThan_iff)
    have "4096 * k < unat end - unat start" using k(1) by (simp add: page_index)
    then show "unat start \<le> unat a \<and> unat a < unat end \<and> (unat a - unat start) mod 4096 = 0"
      using e [OF k(1)] k(2) by auto
  next
    assume r: "unat start \<le> unat a \<and> unat a < unat end \<and> (unat a - unat start) mod 4096 = 0"
    define k where "k = (unat a - unat start) div 4096"
    have k: "4096 * k = unat a - unat start" using r by (auto simp: k_def)
    then have l: "k < (unat end - unat start + 4095) div 4096" using r by (auto simp: page_index)
    have "a = start + 4096 * word_of_nat k" using e [OF l] k r by (simp add: word_unat_eq_iff)
    then show "a \<in> set (pages start end)"
      unfolding pages_def set_map set_upt by (rule image_eqI) (use l in \<open>simp only: atLeastLessThan_iff\<close>, simp)
  qed
qed

end
