(* ===== verification/User_Copy.thy ===== *)
theory User_Copy
  imports Vmm_Map Page_Bytes
begin

text \<open>
  Access to user memory from the kernel, \<^verbatim>\<open>src/mm/usercopy.c\<close>: every page of a user range is looked up in
  the page tables of the running task, whose root is in CR3. The kernel's buffer is a list of bytes, the
  result of a read or the argument of a write; the checks for a NULL buffer have no counterpart.
\<close>

section \<open>Operations\<close>

definition USER_ADDRESS_LIMIT :: u64 where "USER_ADDRESS_LIMIT = 0x0000800000000000"

definition user_range_valid :: "u64 \<Rightarrow> u64 \<Rightarrow> bool" where
  "user_range_valid address len \<longleftrightarrow> address < USER_ADDRESS_LIMIT \<and> len \<le> USER_ADDRESS_LIMIT - address"

definition current_root :: "mm_state \<Rightarrow> u64" where
  "current_root st = mm_cr3 st AND PAGE_ADDRESS_MASK"

text \<open>The body of the loop over the pages of a range: whether the page may be accessed.\<close>

definition user_page_accessible :: "bool \<Rightarrow> u64 \<Rightarrow> mm_state \<Rightarrow> bool" where
  "user_page_accessible writable page st =
     (case query_root (current_root st) page st of
        None \<Rightarrow> False
      | Some (physical, flags) \<Rightarrow>
          flags AND VMM_USER \<noteq> 0 \<and> (\<not> writable \<or> flags AND (VMM_WRITABLE OR VMM_COPY_ON_WRITE) \<noteq> 0))"

definition user_range_accessible :: "u64 \<Rightarrow> u64 \<Rightarrow> bool \<Rightarrow> mm_state \<Rightarrow> bool" where
  "user_range_accessible address len writable st =
     (if \<not> user_range_valid address len then False
      else if len = 0 then True
      else list_all (\<lambda>page. user_page_accessible writable page st) (pages (page_base address) (address + len)))"

definition user_range_readable :: "u64 \<Rightarrow> u64 \<Rightarrow> mm_state \<Rightarrow> bool" where
  "user_range_readable address len st = user_range_accessible address len False st"

definition user_range_writable :: "u64 \<Rightarrow> u64 \<Rightarrow> mm_state \<Rightarrow> bool" where
  "user_range_writable address len st = user_range_accessible address len True st"

text \<open>How many of the remaining bytes are on the page of an address.\<close>

definition user_chunk :: "u64 \<Rightarrow> nat \<Rightarrow> nat" where
  "user_chunk address remaining =
     (if remaining < 4096 - page_offset address then remaining else 4096 - page_offset address)"

lemma user_chunk_min: "user_chunk a n = min n (4096 - page_offset a)"
  by (simp add: user_chunk_def min_def)

lemma user_chunk_pos [simp]: "0 < user_chunk a n \<longleftrightarrow> 0 < n"
  by (simp add: user_chunk_min)

lemma user_chunk_le: "user_chunk a n \<le> n" "i < user_chunk a n \<Longrightarrow> page_offset a + i < 4096"
  by (simp_all add: user_chunk_min) linarith

text \<open>The loop of \<open>copy_user\<close> in its two directions, from the address of the first byte not yet copied.\<close>

function copy_in :: "u64 \<Rightarrow> nat \<Rightarrow> mm_state \<Rightarrow> u8 list option" where
  "copy_in address remaining st =
     (if remaining = 0 then Some []
      else
        (case query_root (current_root st) address st of
           None \<Rightarrow> None
         | Some (physical, flags) \<Rightarrow>
             if flags AND VMM_USER = 0 then None
             else
               let chunk = user_chunk address remaining
               in map_option (\<lambda>rest. load_frame physical chunk st @ rest)
                    (copy_in (address + word_of_nat chunk) (remaining - chunk) st)))"
  by pat_completeness auto
termination
  by (relation "measure (\<lambda>(address, remaining, st). remaining)") (auto intro: diff_less)

text \<open>The local \<^verbatim>\<open>struct vmm_space current\<close> is a space that exists only during the call.\<close>

definition with_current :: "(space_ptr \<Rightarrow> mm_state \<Rightarrow> 'a \<times> mm_state) \<Rightarrow> mm_state \<Rightarrow> 'a \<times> mm_state" where
  "with_current f st =
     (case f (Heap_Space 0) (st\<lparr>mm_spaces := (mm_spaces st)(0 := current_root st)\<rparr>) of
        (r, st1) \<Rightarrow> (r, st1\<lparr>mm_spaces := mm_spaces st\<rparr>))"

definition query_for_write :: "u64 \<Rightarrow> mm_state \<Rightarrow> (u64 \<times> u64) option \<times> mm_state" where
  "query_for_write address st =
     (case query_root (current_root st) address st of
        None \<Rightarrow> (None, st)
      | Some (physical, flags) \<Rightarrow>
          if flags AND VMM_COPY_ON_WRITE \<noteq> 0
          then (case with_current (\<lambda>space. vmm_space_resolve_cow space address) st of
                  (r, st1) \<Rightarrow> (if r = Cow_Resolved then query_root (current_root st1) address st1 else None, st1))
          else (Some (physical, flags), st))"

function copy_out :: "u64 \<Rightarrow> u8 list \<Rightarrow> mm_state \<Rightarrow> bool \<times> mm_state" where
  "copy_out address bytes st =
     (if bytes = [] then (True, st)
      else
        (case query_for_write address st of
           (None, st1) \<Rightarrow> (False, st1)
         | (Some (physical, flags), st1) \<Rightarrow>
             if flags AND VMM_USER = 0 \<or> flags AND VMM_WRITABLE = 0 then (False, st1)
             else
               let chunk = user_chunk address (length bytes)
               in copy_out (address + word_of_nat chunk) (drop chunk bytes)
                    (store_frame physical (take chunk bytes) st1)))"
  by pat_completeness auto
termination
  by (relation "measure (\<lambda>(address, bytes, st). length bytes)") (auto intro: diff_less)

definition copy_from_user :: "u64 \<Rightarrow> u64 \<Rightarrow> mm_state \<Rightarrow> u8 list option" where
  "copy_from_user source len st =
     (if len = 0 then Some []
      else if \<not> user_range_valid source len then None
      else copy_in source (unat len) st)"

definition copy_to_user :: "u64 \<Rightarrow> u8 list \<Rightarrow> mm_state \<Rightarrow> bool \<times> mm_state" where
  "copy_to_user destination bytes st =
     (if bytes = [] then (True, st)
      else if \<not> user_range_valid destination (word_of_nat (length bytes)) then (False, st)
      else copy_out destination bytes st)"

declare copy_in.simps [simp del] copy_out.simps [simp del]

section \<open>Addresses of one page\<close>

lemma unat_add_offset:
  assumes "page_offset a + i < 4096"
  shows "unat (a + word_of_nat i) = unat a + i" "unat a mod 4096 + i < 4096"
proof -
  show o: "unat a mod 4096 + i < 4096" using assms by (simp add: page_offset_unat)
  have "unat a div 4096 < 4503599627370496" by (simp add: less_mult_imp_div_less)
  moreover have "unat a = unat a div 4096 * 4096 + unat a mod 4096" by simp
  ultimately have "unat a + i < 18446744073709551616" using o by linarith
  then show "unat (a + word_of_nat i) = unat a + i" using o by (simp add: unat_u64_add unat_u64_of_nat)
qed

lemma mod_add_offset:
  fixes u :: nat
  assumes "u mod 4096 + i < 4096"
  shows "(u + i) div 4096 = u div 4096" "(u + i) mod (4096 * m) = u mod (4096 * m) + i"
proof -
  obtain q r where u: "u = q * 4096 + r" "r < 4096" by (metis div_mult_mod_eq mod_less_divisor zero_less_numeral)
  then have "u mod 4096 = r" by simp
  then have r: "r + i < 4096" using assms by simp
  then show d: "(u + i) div 4096 = u div 4096" using u by (simp add: add.assoc)
  have "(u + i) mod 4096 = u mod 4096 + i" using u r by (simp add: add.assoc)
  then show "(u + i) mod (4096 * m) = u mod (4096 * m) + i" using d by (simp add: mod_mult2_eq)
qed

lemma mask_add_offset:
  assumes o: "page_offset a + i < 4096" and n: "12 \<le> n"
  shows "(a + word_of_nat i) AND mask n = (a AND mask n) + word_of_nat i"
proof -
  have p: "(2 :: nat) ^ n = 4096 * 2 ^ (n - 12)" using n power_add [of "2 :: nat" 12 "n - 12"] by simp
  have e: "unat ((a + word_of_nat i) AND mask n) = unat (a AND mask n) + i"
    unfolding unat_and_mask unat_add_offset(1) [OF o] p by (rule mod_add_offset(2) [OF unat_add_offset(2) [OF o]])
  have "unat ((a AND mask n) + word_of_nat i) = unat (a AND mask n) + i"
    using e unat_u64_lt [of "(a + word_of_nat i) AND mask n"] unat_add_offset(2) [OF o]
    by (simp add: unat_u64_add unat_u64_of_nat)
  with e show ?thesis by (simp only: word_unat_eq_iff)
qed

lemma drop_bit_same_page:
  assumes "page_offset a + i < 4096"
  shows "drop_bit 12 (a + word_of_nat i) = drop_bit 12 a"
  using mod_add_offset(1) [OF unat_add_offset(2) [OF assms]] unat_add_offset(1) [OF assms]
  by (simp add: word_unat_eq_iff unat_drop_bit)

lemma query_walk_offset:
  assumes "page_offset va + i < 4096"
  shows "query_walk st (va + word_of_nat i) root is t eff nx =
    map_option (\<lambda>(pa, f). (pa + word_of_nat i, f)) (query_walk st va root is t eff nx)"
proof (induction "is" arbitrary: root t eff nx)
  case (Cons j "is")
  have m: "push_bit n 1 - 1 = (mask n :: u64)" for n by (simp add: mask_eq_exp_minus_1 push_bit_of_1)
  have o: "(va + word_of_nat i) AND (push_bit (12 + 9 * length is) 1 - 1) =
      (va AND (push_bit (12 + 9 * length is) 1 - 1)) + word_of_nat i"
    unfolding m by (rule mask_add_offset [OF assms]) simp
  show ?case unfolding query_walk.simps Let_def o Cons.IH by (simp add: add.assoc)
qed simp

lemma query_root_offset:
  assumes "page_offset va + i < 4096"
  shows "query_root root (va + word_of_nat i) st = map_option (\<lambda>(pa, f). (pa + word_of_nat i, f)) (query_root root va st)"
  using same_page [OF drop_bit_same_page [OF assms]] query_walk_offset [OF assms]
  by (simp add: query_root_def)

section \<open>Byte by byte\<close>

text \<open>What a user program may read at an address: a byte of a page that its tables map for user mode.\<close>

definition user_byte :: "mm_state \<Rightarrow> u64 \<Rightarrow> u8 option" where
  "user_byte st a =
     (case query_root (current_root st) a st of
        None \<Rightarrow> None
      | Some (physical, flags) \<Rightarrow> if bit flags 2 then Some (frame_byte st physical) else None)"

primrec sequence :: "'a option list \<Rightarrow> 'a list option" where
  "sequence [] = Some []"
| "sequence (x # xs) = (case x of None \<Rightarrow> None | Some a \<Rightarrow> map_option (Cons a) (sequence xs))"

lemma sequence_append:
  "sequence (xs @ ys) = (case sequence xs of None \<Rightarrow> None | Some as \<Rightarrow> map_option (\<lambda>bs. as @ bs) (sequence ys))"
  by (cases "sequence ys"; induction xs) (auto split: option.splits)

lemma sequence_map_Some [simp]: "sequence (map (\<lambda>i. Some (f i)) xs) = Some (map f xs)"
  by (induction xs) auto

lemma sequence_defined: "sequence xs \<noteq> None \<longleftrightarrow> (\<forall>x \<in> set xs. x \<noteq> None)"
  by (induction xs) (auto split: option.splits)

lemma sequence_None: "x \<in> set xs \<Longrightarrow> x = None \<Longrightarrow> sequence xs = None"
  using sequence_defined by fastforce

definition user_bytes :: "u64 \<Rightarrow> nat \<Rightarrow> mm_state \<Rightarrow> u8 list option" where
  "user_bytes a n st = sequence (map (\<lambda>i. user_byte st (a + word_of_nat i)) [0 ..< n])"

lemma user_byte_offset:
  assumes "page_offset a + i < 4096"
  shows "user_byte st (a + word_of_nat i) =
    (case query_root (current_root st) a st of
       None \<Rightarrow> None
     | Some (physical, flags) \<Rightarrow> if bit flags 2 then Some (frame_byte st (physical + word_of_nat i)) else None)"
  by (simp add: user_byte_def query_root_offset [OF assms] split: option.splits prod.splits)

lemma user_bytes_chunk:
  assumes "\<And>i. i < n \<Longrightarrow> page_offset a + i < 4096" "0 < n"
  shows "user_bytes a n st =
    (case query_root (current_root st) a st of
       None \<Rightarrow> None
     | Some (physical, flags) \<Rightarrow> if bit flags 2 then Some (load_frame physical n st) else None)"
proof -
  have e: "user_bytes a n st = sequence (map (\<lambda>i. case query_root (current_root st) a st of
       None \<Rightarrow> None
     | Some (physical, flags) \<Rightarrow> if bit flags 2 then Some (frame_byte st (physical + word_of_nat i)) else None) [0 ..< n])"
    unfolding user_bytes_def using assms(1) by (intro arg_cong [of _ _ sequence]) (simp add: user_byte_offset)
  have N: "sequence (map (\<lambda>i. None) [0 ..< n]) = (None :: u8 list option)"
    using assms(2) by (intro sequence_None [of None]) auto
  show ?thesis unfolding e by (auto simp: load_frame_def N split: option.splits)
qed

lemma user_bytes_split:
  assumes "m \<le> n"
  shows "user_bytes a n st = (case user_bytes a m st of None \<Rightarrow> None
     | Some bs \<Rightarrow> map_option (\<lambda>cs. bs @ cs) (user_bytes (a + word_of_nat m) (n - m) st))"
proof -
  have s: "map f [0 ..< n] = map f [0 ..< m] @ map (\<lambda>i. f (i + m)) [0 ..< n - m]" for f :: "nat \<Rightarrow> u8 option"
  proof -
    have "[0 ..< n] = [0 ..< m] @ map (\<lambda>i. i + m) [0 ..< n - m]"
      using assms upt_add_eq_append [of 0 m "n - m"] map_add_upt [of m "n - m"] by simp
    then show ?thesis by (simp add: comp_def)
  qed
  have r: "user_bytes (a + word_of_nat m) (n - m) st = sequence (map (\<lambda>i. user_byte st (a + word_of_nat (i + m))) [0 ..< n - m])"
    by (simp add: user_bytes_def ac_simps)
  show ?thesis unfolding r unfolding user_bytes_def s sequence_append ..
qed

lemma copy_in_exact: "copy_in address n st = user_bytes address n st"
proof (induction address n st rule: copy_in.induct)
  case (1 address n st)
  show ?case
  proof (cases "n = 0")
    case True
    then show ?thesis by (simp add: copy_in.simps user_bytes_def)
  next
    case False
    let ?c = "user_chunk address n"
    have c: "user_bytes address ?c st = (case query_root (current_root st) address st of
       None \<Rightarrow> None
     | Some (physical, flags) \<Rightarrow> if bit flags 2 then Some (load_frame physical ?c st) else None)"
      using False by (intro user_bytes_chunk user_chunk_le(2)) simp_all
    have s: "user_bytes address n st = (case user_bytes address ?c st of None \<Rightarrow> None
     | Some bs \<Rightarrow> map_option (\<lambda>cs. bs @ cs) (user_bytes (address + word_of_nat ?c) (n - ?c) st))"
      by (rule user_bytes_split [OF user_chunk_le(1)])
    show ?thesis unfolding s c copy_in.simps [of address n st]
      using False 1 by (auto simp: Let_def split: option.splits)
  qed
qed

text \<open>A byte can be read exactly when the check of its page says so.\<close>

lemma user_byte_page: "user_byte st a \<noteq> None \<longleftrightarrow> user_page_accessible False (page_base a) st"
proof -
  have "unat (page_base a) mod 4096 = 0" by (simp add: unat_page_base')
  then have o: "page_offset (page_base a) + page_offset a < 4096" by (simp add: page_offset_unat)
  have a: "page_base a + word_of_nat (page_offset a) = a"
    unfolding word_unat_eq_iff unat_add_offset(1) [OF o] unat_page_base' by (simp add: page_offset_unat)
  show ?thesis
    using user_byte_offset [OF o, of st] unfolding a by (auto simp: user_page_accessible_def split: option.splits)
qed

lemma range_pages:
  assumes "unat a + n \<le> 2 ^ 47" "0 < n"
  shows "page_base ` (\<lambda>i. a + word_of_nat i) ` {..< n} = set (pages (page_base a) (a + word_of_nat n))"
proof -
  have u: "unat (a + word_of_nat i) = unat a + i" if "i \<le> n" for i
    using that assms by (simp add: unat_u64_add unat_u64_of_nat)
  have P: "p \<in> set (pages (page_base a) (a + word_of_nat n)) \<longleftrightarrow>
      unat a div 4096 * 4096 \<le> unat p \<and> unat p < unat a + n \<and> (unat p - unat a div 4096 * 4096) mod 4096 = 0" for p
    using set_pages [of "a + word_of_nat n" p "page_base a"] assms unfolding u [OF order_refl] unat_page_base' by simp
  have 1: "page_base (a + word_of_nat i) \<in> set (pages (page_base a) (a + word_of_nat n))" if "i < n" for i
  proof -
    have "(unat a + i) div 4096 * 4096 \<le> unat a + i" by simp
    moreover have "unat a div 4096 * 4096 \<le> (unat a + i) div 4096 * 4096" by (simp add: div_le_mono)
    moreover have "((unat a + i) div 4096 * 4096 - unat a div 4096 * 4096) mod 4096 = 0"
      unfolding diff_mult_distrib [symmetric] by simp
    ultimately show ?thesis using that u [of i] by (simp only: P unat_page_base') simp
  qed
  have 2: "\<exists>i < n. p = page_base (a + word_of_nat i)" if p: "p \<in> set (pages (page_base a) (a + word_of_nat n))" for p
  proof -
    define q where "q = unat a div 4096"
    obtain k where k: "unat p = (q + k) * 4096"
    proof -
      have "4096 dvd unat p - q * 4096" "q * 4096 \<le> unat p" using p by (simp_all add: P q_def mod_eq_0_iff_dvd)
      then obtain k where "unat p - q * 4096 = 4096 * k" by (auto elim: dvdE)
      with \<open>q * 4096 \<le> unat p\<close> have "unat p = (q + k) * 4096" by (simp add: distrib_right)
      then show ?thesis by (rule that)
    qed
    have a: "q * 4096 \<le> unat a" "unat a < q * 4096 + 4096"
      using div_mult_mod_eq [of "unat a" 4096] mod_less_divisor [of 4096 "unat a"] unfolding q_def by linarith+
    have lt: "unat p < unat a + n" using p by (simp add: P)
    define i where "i = unat p - unat a"
    have i: "i < n" using lt assms(2) by (simp add: i_def)
    have "(unat a + i) div 4096 = q + k"
    proof (cases "unat p \<le> unat a")
      case True
      then have "k = 0" using k a by simp
      then show ?thesis using True by (simp add: i_def q_def)
    next
      case False
      then show ?thesis using k by (simp add: i_def)
    qed
    then have "p = page_base (a + word_of_nat i)" using k i u [of i] by (simp add: word_unat_eq_iff unat_page_base')
    then show ?thesis using i by blast
  qed
  show ?thesis unfolding image_image by (intro set_eqI iffI) (auto dest: 2 intro: 1)
qed

lemma user_range_valid_bound: "user_range_valid a len \<Longrightarrow> unat a + unat len \<le> 2 ^ 47"
proof -
  assume v: "user_range_valid a len"
  then have "unat a < 140737488355328" by (simp add: user_range_valid_def USER_ADDRESS_LIMIT_def word_less_nat_alt)
  moreover from v have "unat len \<le> unat (140737488355328 - a)"
    by (simp add: user_range_valid_def USER_ADDRESS_LIMIT_def word_le_nat_alt)
  ultimately show ?thesis by (simp add: unat_u64_sub)
qed

lemma readable_user_bytes:
  assumes "user_range_valid a len" "len \<noteq> 0"
  shows "user_range_readable a len st \<longleftrightarrow> user_bytes a (unat len) st \<noteq> None"
proof -
  have "0 < unat len" using assms(2) by (simp add: unat_gt_0)
  note R = range_pages [OF user_range_valid_bound [OF assms(1)] this]
  have "user_range_readable a len st \<longleftrightarrow> (\<forall>p \<in> set (pages (page_base a) (a + word_of_nat (unat len))). user_page_accessible False p st)"
    using assms by (simp add: user_range_readable_def user_range_accessible_def list_all_iff)
  also have "\<dots> \<longleftrightarrow> (\<forall>i < unat len. user_byte st (a + word_of_nat i) \<noteq> None)"
    unfolding R [symmetric] user_byte_page by auto
  also have "\<dots> \<longleftrightarrow> user_bytes a (unat len) st \<noteq> None"
    unfolding user_bytes_def sequence_defined by auto
  finally show ?thesis .
qed

section \<open>Properties\<close>

text \<open>C15. Copying from user memory, which works page by page, reads exactly the bytes the user program
  could read itself: it succeeds when the range is below the user limit and every single byte is on a page
  mapped for user mode, and then returns those bytes in order. The check \<open>user_range_readable\<close> that system
  calls make beforehand accepts a non-empty range exactly when the copy succeeds.\<close>

theorem copy_from_user_exact:
  "copy_from_user source len st =
     (if len = 0 then Some []
      else if user_range_valid source len
      then sequence (map (\<lambda>i. user_byte st (source + word_of_nat i)) [0 ..< unat len]) else None) \<and>
   (len = 0 \<or> (user_range_readable source len st = (copy_from_user source len st \<noteq> None)))"
proof -
  have e: "copy_from_user source len st = (if len = 0 then Some []
      else if user_range_valid source len then user_bytes source (unat len) st else None)"
    by (simp add: copy_from_user_def copy_in_exact)
  moreover have "user_range_readable source len st = (copy_from_user source len st \<noteq> None)" if "len \<noteq> 0"
  proof (cases "user_range_valid source len")
    case True
    then show ?thesis using that readable_user_bytes [OF True that] by (simp add: e)
  next
    case False
    then show ?thesis using that by (simp add: e user_range_readable_def user_range_accessible_def)
  qed
  ultimately show ?thesis by (auto simp: user_bytes_def)
qed

end
