(* ===== verification/Spec2Isabelle.thy ===== *)
theory Spec2Isabelle
  imports Vfs_Names Vfs_Fork Fat32 Vmm_Space User_Copy
begin

text \<open>
  ConeOS is a small x86-64 operating system in C: a monolithic kernel under \<^verbatim>\<open>src/\<close> and user programs under
  \<^verbatim>\<open>userspace/\<close>. This library models its memory management and its file systems, and proves that each
  component does what its clients rely on.

  \<^bold>\<open>The program and its parts.\<close> The physical memory manager hands out page frames. The virtual memory
  manager builds page tables from them and the kernel heap maps frames with it. The file systems keep
  their data in heap buffers (ramfs), on a VirtIO disk (FAT32), or are devices (devfs); the virtual file
  system puts descriptors, pipes and mounts in front of them.

  \<^bold>\<open>The theories\<close>, from the bottom up:
  \<^item> \<open>ConeOS_Prelude\<close>, \<open>Word_Bytes\<close>: machine integers, loops over fixed arrays, rounding, words as numbers.
  \<^item> \<open>Frame_Interface\<close>, \<open>Pmm\<close>: \<^verbatim>\<open>mm/pmm.c\<close>. The record \<open>pmm_state\<close> has the static variables; the bitmap and the
    reference counts are lists. Initialisation from any boot memory map establishes the invariant,
    allocation and release are exact, contiguous allocation finds a free run, a frame with a reference is
    never handed out again, and user allocations leave the kernel its reserve.
  \<^item> \<open>Vmm\<close>, \<open>Page_Tree\<close>, \<open>Vmm_Map\<close>: \<^verbatim>\<open>mm/vmm.c\<close>. Physical memory is a function from frames to their 512 words.
    Page tables refine a partial function from pages to leaf entries: map and unmap are point updates, a
    failed map undoes everything, a query after a map returns the frame and permissions, copy-on-write
    resolution keeps contents and counts right, and no page is ever writable and executable.
  \<^item> \<open>Block_List\<close>, \<open>Heap_Interface\<close>, \<open>Kmalloc\<close>: \<^verbatim>\<open>mm/kmalloc.c\<close>. Headers are linked by addresses in
    \<open>kh_hdr\<close>; a heap represents a list of blocks. Every call returns, payloads never overlap, a release of
    anything but a live pointer is refused, statistics are exact, and the pages of the heap are mapped.
  \<^item> \<open>Vmm_Space\<close>: the rest of \<^verbatim>\<open>mm/vmm.c\<close> that needs the heap: creating, cloning and destroying address
    spaces, and the protection of the boot mappings, whose splitting preserves every translation.
  \<^item> \<open>Byte_Memory\<close>: \<^verbatim>\<open>lib/memory.c\<close> and C strings; \<^verbatim>\<open>memmove\<close> is right for overlapping ranges.
  \<^item> \<open>Ramfs\<close>: \<^verbatim>\<open>fs/ramfs.c\<close> on the heap, as a map from names to contents: write, unlink, listing, rmdir.
  \<^item> \<open>Channel_Interface\<close>, \<open>Pipe\<close>, \<open>Devfs\<close>: the pipes of \<^verbatim>\<open>fs/vfs.c\<close>, the keyboard buffer of \<^verbatim>\<open>drivers/ps2.c\<close>
    and \<^verbatim>\<open>fs/devfs.c\<close>. Both buffers are byte channels: first in, first out, nothing lost or invented.
  \<^item> \<open>Vfs\<close>, \<open>Vfs_References\<close>, \<open>Vfs_Names\<close>, \<open>Vfs_Fork\<close>: \<^verbatim>\<open>fs/vfs.c\<close>. Reference counts equal the number of
    descriptors in every reachable state, names resolve to normal forms, the longest mount wins, and
    fork shares exactly the parent's descriptors.
  \<^item> \<open>Block_Device\<close>: \<^verbatim>\<open>drivers/block.c\<close> after initialisation, with the device as a parameter that obeys the
    law \<open>sector_device\<close>: a sector read back is the sector written.
  \<^item> \<open>Fat32_Names\<close>, \<open>Fat32\<close>: \<^verbatim>\<open>fs/fat32.c\<close>. Long names written as directory entries read back unchanged.

  \<^bold>\<open>Interfaces.\<close> The locales \<open>frame_allocator\<close>, \<open>frame_pool\<close>, \<open>block_heap\<close>, \<open>checked_heap\<close> and \<open>byte_channel\<close>
  state what one component relies on of another; each is interpreted on the definitions of the component
  that provides it, and the properties rest on the facts so obtained.

  \<^bold>\<open>Conventions.\<close> C integers are words where their width matters, otherwise natural numbers; a pointer into
  a static array is an index; a heap pointer is an address, NULL is 0. Output parameters are results. The
  checks for NULL arguments that kernel callers never pass have no counterpart. A lock makes the operation
  it protects one step. Loops over linked structures are \<open>partial_function (option)\<close>: None means that the
  loop does not end, and the theorems show that it does. A call that waits for another task ends
  in \<open>Blocked\<close>. No loop is cut off by fuel. The loops over the levels of a page table recurse on the level.

  \<^bold>\<open>Not modelled.\<close> Code whose effect is on the processor or on device registers: descriptor tables,
  interrupt and exception entry, APIC, timers, SMP startup, serial line, PCI, clock, the assembly of the
  context switch. Parsing of firmware tables. Output to the screen, which goes through an external
  library. The scheduler, the process table, the ELF loader, the system call dispatcher, copies to and
  from user memory, the kernel shell and the user programs, which are clients of the components above.
\<close>

end
